(* ===== verification/Mesh_Prelude.thy ===== *)
theory Mesh_Prelude
  imports Main "HOL-Library.AList" "HOL-Library.Multiset" "HOL-Library.Word" "HOL-Library.List_Lexorder"
    "HOL-Library.Char_ord"
begin

text \<open>
  Shared vocabulary of the MiniMesh development: Go's 64-bit integers, Go's built-in map, the
  result type of fallible functions, and the generic list and map lemmas the components use.

  \<^item> A Go \<open>int\<close>, \<open>int64\<close> or \<open>time.Duration\<close> is an \<^typ>\<open>int\<close>; where the source can overflow, the
    wrap-around is written out with \<open>wrap64\<close>. A Go \<open>uint64\<close> counter is a \<^typ>\<open>64 word\<close>.
  \<^item> A Go \<open>map[K]V\<close> is an association list with distinct keys (\<open>gomap\<close>). The list order stands for
    one iteration order of the runtime; results that must not depend on it are proved so.
  \<^item> \<open>(T, error)\<close> is \<^typ>\<open>'e + 'a\<close> with \<^term>\<open>Inl\<close> for the error.
\<close>

named_theorems gomap_simps \<open>rewriting of the Go map operations\<close>
named_theorems wf_intros \<open>preservation of well-formedness\<close>

type_synonym ('k, 'v) gomap = "('k \<times> 'v) list"

subsection \<open>64-bit integers\<close>

definition in64 :: "int \<Rightarrow> bool" where
  "in64 x \<longleftrightarrow> - (2 ^ 63) \<le> x \<and> x < 2 ^ 63"

definition wrap64 :: "int \<Rightarrow> int" where
  "wrap64 x = (x + 2 ^ 63) mod 2 ^ 64 - 2 ^ 63"

text \<open>Go's integer division and remainder truncate towards zero.\<close>

definition go_div :: "int \<Rightarrow> int \<Rightarrow> int" where
  "go_div a b = sgn a * sgn b * (\<bar>a\<bar> div \<bar>b\<bar>)"

definition go_mod :: "int \<Rightarrow> int \<Rightarrow> int" where
  "go_mod a b = sgn a * (\<bar>a\<bar> mod \<bar>b\<bar>)"

subsection \<open>Go maps\<close>

definition gm_get :: "('k, 'v) gomap \<Rightarrow> 'k \<Rightarrow> 'v option" where
  "gm_get m k = map_of m k"

definition gm_set :: "'k \<Rightarrow> 'v \<Rightarrow> ('k, 'v) gomap \<Rightarrow> ('k, 'v) gomap" where
  "gm_set k v m = AList.update k v m"

definition gm_del :: "'k \<Rightarrow> ('k, 'v) gomap \<Rightarrow> ('k, 'v) gomap" where
  "gm_del k m = AList.delete k m"

definition gm_wf :: "('k, 'v) gomap \<Rightarrow> bool" where
  "gm_wf m \<longleftrightarrow> distinct (map fst m)"

subsection \<open>Lemmas on 64-bit integers\<close>

lemma wrap64_id [simp]: "in64 x \<Longrightarrow> wrap64 x = x"
  by (simp add: in64_def wrap64_def)

lemma wrap64_in64 [simp]: "in64 (wrap64 x)"
  by (simp add: in64_def wrap64_def)

lemma go_div_nonneg: "0 \<le> a \<Longrightarrow> 0 < b \<Longrightarrow> go_div a b = a div b"
  by (cases "a = 0") (auto simp: go_div_def)

lemma go_mod_nonneg: "0 \<le> a \<Longrightarrow> 0 < b \<Longrightarrow> go_mod a b = a mod b"
  by (cases "a = 0") (auto simp: go_mod_def)

lemma go_div_mod: "b \<noteq> 0 \<Longrightarrow> go_div a b * b + go_mod a b = a"
proof -
  assume b: "b \<noteq> 0"
  have "go_div a b * b = sgn a * (\<bar>a\<bar> div \<bar>b\<bar> * \<bar>b\<bar>)"
    by (simp add: go_div_def mult.assoc mult.left_commute mult.commute abs_sgn)
  then have "go_div a b * b + go_mod a b = sgn a * (\<bar>a\<bar> div \<bar>b\<bar> * \<bar>b\<bar> + \<bar>a\<bar> mod \<bar>b\<bar>)"
    by (simp only: go_mod_def distrib_left)
  also have "\<dots> = a"
    by (simp add: sgn_mult_abs)
  finally show ?thesis .
qed

subsection \<open>Lemmas on Go maps\<close>

lemma gm_get_set [gomap_simps, simp]: "gm_get (gm_set k v m) k' = (if k' = k then Some v else gm_get m k')"
  by (simp add: gm_get_def gm_set_def update_conv')

lemma gm_get_del [gomap_simps, simp]: "gm_get (gm_del k m) k' = (if k' = k then None else gm_get m k')"
  by (simp add: gm_get_def gm_del_def delete_conv')

lemma gm_get_Nil [gomap_simps, simp]: "gm_get [] k = None"
  by (simp add: gm_get_def)

lemma gm_get_Cons [gomap_simps]: "gm_get ((k, v) # m) q = (if q = k then Some v else gm_get m q)"
  by (auto simp: gm_get_def)

lemma gm_wf_Nil [wf_intros, simp]: "gm_wf []"
  by (simp add: gm_wf_def)

lemma gm_wf_set [wf_intros, simp]: "gm_wf m \<Longrightarrow> gm_wf (gm_set k v m)"
  by (simp add: gm_wf_def gm_set_def distinct_update)

lemma gm_wf_del [wf_intros, simp]: "gm_wf m \<Longrightarrow> gm_wf (gm_del k m)"
  by (simp add: gm_wf_def gm_del_def distinct_delete)

lemma gm_get_SomeD: "gm_get m k = Some v \<Longrightarrow> (k, v) \<in> set m"
  by (simp add: gm_get_def map_of_SomeD)

lemma gm_mem_get: "gm_wf m \<Longrightarrow> (k, v) \<in> set m \<longleftrightarrow> gm_get m k = Some v"
  by (simp add: gm_get_def gm_wf_def)

lemma gm_empty_iff: "(\<forall>k. gm_get m k = None) \<longleftrightarrow> m = []"
proof
  assume "\<forall>k. gm_get m k = None"
  then show "m = []" by (cases m) (auto simp: gm_get_def split: if_splits)
qed simp

lemma gm_get_eq_set: "gm_wf m \<Longrightarrow> gm_wf m' \<Longrightarrow> gm_get m = gm_get m' \<Longrightarrow> set m = set m'"
  by (auto simp: gm_mem_get)

lemma gm_distinct_vals:
  "gm_wf m \<Longrightarrow> (\<And>k v. (k, v) \<in> set m \<Longrightarrow> f v = k) \<Longrightarrow> distinct (map f (map snd m))"
proof -
  assume wf: "gm_wf m" and key: "\<And>k v. (k, v) \<in> set m \<Longrightarrow> f v = k"
  have "map f (map snd m) = map fst m"
    using key by (auto simp: comp_def)
  then show ?thesis using wf unfolding gm_wf_def by (simp only:)
qed

text \<open>Copying a map key by key into a fresh map.\<close>

definition gm_copy :: "('k, 'v) gomap \<Rightarrow> ('k, 'v) gomap" where
  "gm_copy m = fold (\<lambda>(k, v) acc. gm_set k v acc) m []"

lemma gm_set_fresh: "k \<notin> fst ` set m \<Longrightarrow> gm_set k v m = m @ [(k, v)]"
  unfolding gm_set_def by (induction m) auto

lemma fold_gm_set_fresh:
  "distinct (map fst (acc @ m)) \<Longrightarrow> fold (\<lambda>(k, v) acc. gm_set k v acc) m acc = acc @ m"
proof (induction m arbitrary: acc)
  case (Cons p m)
  obtain k v where p: "p = (k, v)" by fastforce
  with Cons.prems have "gm_set k v acc = acc @ [(k, v)]"
    by (intro gm_set_fresh) auto
  with Cons show ?case by (simp add: p)
qed simp

lemma gm_copy_id [simp]: "gm_wf m \<Longrightarrow> gm_copy m = m"
  unfolding gm_copy_def gm_wf_def using fold_gm_set_fresh [of "[]" m] by simp

subsection \<open>Lists\<close>

lemma nth_update_field: "f x = f (xs ! i) \<Longrightarrow> f (xs[i := x] ! j) = f (xs ! j)"
  by (cases "i < length xs"; cases "i = j") (simp_all add: list_update_beyond not_less)

lemma sort_key_eq_of_set:
  assumes "set xs = set ys" "distinct (map f xs)" "distinct (map f ys)"
  shows "sort_key f xs = sort_key f ys"
proof (rule sort_key_inj_key_eq)
  show "mset xs = mset (sort_key f ys)"
    using assms by (auto simp: set_eq_iff_mset_eq_distinct distinct_map)
  show "inj_on f (set xs)" using assms(2) by (simp add: distinct_map)
qed simp

end
