(* ===== verification/Go_Strings.thy ===== *)
theory Go_Strings
  imports Mesh_Prelude
begin

text \<open>
  The parts of Go's \<open>strings\<close> and \<open>strconv\<close> packages that MiniMesh calls. A Go string is a byte
  sequence, so it is an Isabelle \<^typ>\<open>string\<close> (a \<^typ>\<open>char\<close> is one byte) and comparison is the
  lexicographic order of bytes. Separators are single bytes, as in every call of the source.
  \<open>strings.TrimSpace\<close> is exact: \<open>space_runes\<close> lists the UTF-8 encodings of the runes for which
  \<open>unicode.IsSpace\<close> holds.
\<close>

subsection \<open>Prefixes, splitting and joining\<close>

definition has_prefix :: "string \<Rightarrow> string \<Rightarrow> bool" where
  "has_prefix s p \<longleftrightarrow> take (length p) s = p"

definition trim_prefix :: "string \<Rightarrow> string \<Rightarrow> string" where
  "trim_prefix s p = (if has_prefix s p then drop (length p) s else s)"

text \<open>\<open>strings.Split(s, c)\<close>\<close>

fun split_on :: "char \<Rightarrow> string \<Rightarrow> string list" where
  "split_on c [] = [[]]"
| "split_on c (x # xs) =
     (if x = c then [] # split_on c xs
      else (case split_on c xs of [] \<Rightarrow> [[x]] | w # ws \<Rightarrow> (x # w) # ws))"

text \<open>\<open>strings.Cut(s, c)\<close>: the text before and after the first separator, and whether there is one.\<close>

fun cut :: "char \<Rightarrow> string \<Rightarrow> string \<times> string \<times> bool" where
  "cut c [] = ([], [], False)"
| "cut c (x # xs) =
     (if x = c then ([], xs, True) else (case cut c xs of (a, b, f) \<Rightarrow> (x # a, b, f)))"

text \<open>\<open>strings.SplitN(s, c, 2)\<close>\<close>

definition split_n2 :: "char \<Rightarrow> string \<Rightarrow> string list" where
  "split_n2 c s = (case cut c s of (a, b, found) \<Rightarrow> if found then [a, b] else [s])"

text \<open>\<open>strings.Join(ws, c)\<close>\<close>

fun join_with :: "char \<Rightarrow> string list \<Rightarrow> string" where
  "join_with c [] = []"
| "join_with c [w] = w"
| "join_with c (w # ws) = w @ c # join_with c ws"

subsection \<open>TrimSpace\<close>

definition bytes :: "nat list \<Rightarrow> string" where
  "bytes ns = map char_of ns"

definition space_runes :: "string list" where
  "space_runes = map bytes
     ([[9], [10], [11], [12], [13], [32], [194, 133], [194, 160], [225, 154, 128]]
      @ map (\<lambda>b. [226, 128, b]) [128, 129, 130, 131, 132, 133, 134, 135, 136, 137, 138, 168, 169, 175]
      @ [[226, 129, 159], [227, 128, 128]])"

definition rune_len :: "string list \<Rightarrow> string \<Rightarrow> nat" where
  "rune_len R s = (case filter (has_prefix s) R of [] \<Rightarrow> 0 | r # _ \<Rightarrow> length r)"

lemma rune_len_le: "rune_len R s \<le> length s"
proof (cases "filter (has_prefix s) R")
  case (Cons r rs)
  then have "r \<in> set (filter (has_prefix s) R)" by simp
  then have "take (length r) s = r" by (simp add: has_prefix_def)
  then have "length r \<le> length s" by (metis length_take min.cobounded1)
  with Cons show ?thesis by (simp add: rune_len_def)
qed (simp add: rune_len_def)

function trim_with :: "string list \<Rightarrow> string \<Rightarrow> string" where
  "trim_with R s = (if rune_len R s = 0 then s else trim_with R (drop (rune_len R s) s))"
  by pat_completeness auto
termination
proof (relation "measure (\<lambda>(R, s). length s)")
  fix R s assume "rune_len R s \<noteq> 0"
  with rune_len_le [of R s] show "((R, drop (rune_len R s) s), R, s) \<in> measure (\<lambda>(R, s). length s)"
    by simp
qed simp

declare trim_with.simps [simp del]

definition trim_left :: "string \<Rightarrow> string" where
  "trim_left s = trim_with space_runes s"

definition trim_right :: "string \<Rightarrow> string" where
  "trim_right s = rev (trim_with (map rev space_runes) (rev s))"

definition trim_space :: "string \<Rightarrow> string" where
  "trim_space s = trim_right (trim_left s)"

subsection \<open>Decimal integers\<close>

definition digit_char :: "nat \<Rightarrow> char" where
  "digit_char d = char_of (48 + d)"

fun nat_to_dec :: "nat \<Rightarrow> string" where
  "nat_to_dec n = (if n < 10 then [digit_char n] else nat_to_dec (n div 10) @ [digit_char (n mod 10)])"

declare nat_to_dec.simps [simp del]

text \<open>\<open>fmt.Sprint\<close> and \<open>strconv.FormatInt(_, 10)\<close>\<close>

definition itoa :: "int \<Rightarrow> string" where
  "itoa x = (if x < 0 then CHR ''-'' # nat_to_dec (nat (- x)) else nat_to_dec (nat x))"

definition is_digit :: "char \<Rightarrow> bool" where
  "is_digit c \<longleftrightarrow> 48 \<le> (of_char c :: nat) \<and> (of_char c :: nat) \<le> 57"

definition digit_val :: "char \<Rightarrow> int" where
  "digit_val c = int (of_char c) - 48"

definition dec_val :: "string \<Rightarrow> int" where
  "dec_val s = foldl (\<lambda>acc c. acc * 10 + digit_val c) 0 s"

text \<open>\<open>strconv.Atoi\<close> on a 64-bit platform: \<^term>\<open>None\<close> for a syntax or a range error.\<close>

definition atoi :: "string \<Rightarrow> int option" where
  "atoi s =
     (let (neg, ds) = (case s of [] \<Rightarrow> (False, [])
                       | c # cs \<Rightarrow> if c = CHR ''-'' then (True, cs)
                                  else if c = CHR ''+'' then (False, cs) else (False, s))
      in if ds = [] \<or> \<not> list_all is_digit ds then None
         else let v = (if neg then - dec_val ds else dec_val ds)
              in if in64 v then Some v else None)"

subsection \<open>Lemmas on prefixes, splitting and joining\<close>

lemma has_prefix_append [simp]: "has_prefix (p @ s) p"
  by (simp add: has_prefix_def)

lemma trim_prefix_append [simp]: "trim_prefix (p @ s) p = s"
  by (simp add: trim_prefix_def)

lemma has_prefixE: "has_prefix s p \<Longrightarrow> \<exists>t. s = p @ t"
  unfolding has_prefix_def by (metis append_take_drop_id)

lemma split_on_nonempty [simp]: "split_on c s \<noteq> []"
  by (induction s) (auto split: list.splits)

lemma split_on_free: "c \<notin> set s \<Longrightarrow> split_on c s = [s]"
  by (induction s) auto

lemma split_on_append: "c \<notin> set a \<Longrightarrow> split_on c (a @ c # s) = a # split_on c s"
  by (induction a) auto

lemma length_split_on: "length (split_on c s) = Suc (count_list s c)"
  by (induction s) (auto split: list.splits)

lemma split_on_parts_free: "w \<in> set (split_on c s) \<Longrightarrow> c \<notin> set w"
  by (induction s arbitrary: w) (fastforce split: list.splits if_splits)+

lemma join_with_Cons: "ws \<noteq> [] \<Longrightarrow> join_with c (w # ws) = w @ c # join_with c ws"
  by (cases ws) auto

lemma join_split: "join_with c (split_on c s) = s"
proof (induction s)
  case (Cons x xs)
  show ?case
  proof (cases "split_on c xs")
    case Nil
    then show ?thesis by simp
  next
    case (Cons w ws)
    with Cons.IH have "join_with c (w # ws) = xs" by simp
    with Cons show ?thesis by (cases ws) auto
  qed
qed simp

lemma split_join:
  "ws \<noteq> [] \<Longrightarrow> (\<And>w. w \<in> set ws \<Longrightarrow> c \<notin> set w) \<Longrightarrow> split_on c (join_with c ws) = ws"
proof (induction ws rule: join_with.induct)
  case (3 c w v vs)
  then show ?case by (simp add: split_on_append)
qed (simp_all add: split_on_free)

lemma cut_free: "c \<notin> set s \<Longrightarrow> cut c s = (s, [], False)"
  by (induction s) auto

lemma cut_append: "c \<notin> set a \<Longrightarrow> cut c (a @ c # s) = (a, s, True)"
  by (induction a) auto

lemma cut_found: "cut c s = (a, b, True) \<Longrightarrow> s = a @ c # b \<and> c \<notin> set a"
  by (induction s arbitrary: a) (auto split: if_splits prod.splits)

lemma cut_not_found: "cut c s = (a, b, False) \<Longrightarrow> a = s \<and> b = [] \<and> c \<notin> set s"
  by (induction s arbitrary: a) (auto split: if_splits prod.splits)

lemma append_sep_inj:
  "a @ c # s = b @ (c :: char) # t \<Longrightarrow> c \<notin> set a \<Longrightarrow> c \<notin> set b \<Longrightarrow> a = b \<and> s = t"
  by (metis Pair_inject cut_append)

subsection \<open>Lemmas on TrimSpace\<close>

lemma trim_with_id: "(\<And>r. r \<in> set R \<Longrightarrow> \<not> has_prefix s r) \<Longrightarrow> trim_with R s = s"
  by (subst trim_with.simps) (simp add: rune_len_def)

lemma trim_with_suffix: "\<exists>p. s = p @ trim_with R s"
proof (induction R s rule: trim_with.induct)
  case (1 R s)
  show ?case
  proof (cases "rune_len R s = 0")
    case True
    then show ?thesis by (subst trim_with.simps) simp
  next
    case False
    with 1 obtain p where "drop (rune_len R s) s = p @ trim_with R (drop (rune_len R s) s)" by blast
    then have "s = (take (rune_len R s) s @ p) @ trim_with R (drop (rune_len R s) s)"
      by (metis append_assoc append_take_drop_id)
    moreover have "trim_with R s = trim_with R (drop (rune_len R s) s)"
      using False by (subst trim_with.simps) simp
    ultimately show ?thesis by metis
  qed
qed

lemma trim_space_infix: "\<exists>a b. s = a @ trim_space s @ b"
proof -
  obtain a where a: "s = a @ trim_left s"
    using trim_with_suffix [of s space_runes] by (auto simp: trim_left_def)
  obtain p where p: "rev (trim_left s) = p @ trim_with (map rev space_runes) (rev (trim_left s))"
    using trim_with_suffix by blast
  then have "trim_left s = trim_space s @ rev p"
    by (metis rev_append rev_rev_ident trim_right_def trim_space_def)
  with a show ?thesis by metis
qed

lemma trim_space_subset: "set (trim_space s) \<subseteq> set s"
  using trim_space_infix [of s] by (metis le_sup_iff set_append sup_ge1 sup_ge2)

lemma has_prefix_Nil [simp]: "has_prefix [] p \<longleftrightarrow> p = []"
  by (auto simp: has_prefix_def)

lemma space_runes_nonempty: "r \<in> set space_runes \<Longrightarrow> r \<noteq> []"
  by (auto simp: space_runes_def bytes_def)

lemma trim_space_Nil [simp]: "trim_space [] = []"
proof -
  have "trim_with space_runes [] = []" "trim_with (map rev space_runes) [] = []"
    by (rule trim_with_id, use space_runes_nonempty in force)+
  then show ?thesis by (simp add: trim_space_def trim_left_def trim_right_def)
qed

text \<open>Printable ASCII other than the space is never trimmed.\<close>

definition plain :: "char \<Rightarrow> bool" where
  "plain c \<longleftrightarrow> 33 \<le> (of_char c :: nat) \<and> (of_char c :: nat) \<le> 126"

lemma space_not_plain: "r \<in> set space_runes \<Longrightarrow> c \<in> set r \<Longrightarrow> \<not> plain c"
  by (auto simp: space_runes_def bytes_def plain_def)

lemma trim_with_plain: "list_all plain s \<Longrightarrow> (\<And>r. r \<in> set R \<Longrightarrow> r \<noteq> [] \<and> (\<forall>c \<in> set r. \<not> plain c)) \<Longrightarrow> trim_with R s = s"
proof (rule trim_with_id)
  fix r
  assume s: "list_all plain s" and R: "\<And>r. r \<in> set R \<Longrightarrow> r \<noteq> [] \<and> (\<forall>c \<in> set r. \<not> plain c)" and r: "r \<in> set R"
  show "\<not> has_prefix s r"
  proof
    assume "has_prefix s r"
    then obtain t where "s = r @ t" using has_prefixE by blast
    with s R [OF r] show False by (cases r) auto
  qed
qed

lemma trim_space_plain: "list_all plain s \<Longrightarrow> trim_space s = s"
proof -
  assume s: "list_all plain s"
  have "trim_left s = s" unfolding trim_left_def
    by (rule trim_with_plain [OF s]) (use space_runes_nonempty space_not_plain in blast)
  moreover have "list_all plain (rev s)" using s by (simp add: list_all_iff)
  then have "trim_with (map rev space_runes) (rev s) = rev s"
    by (rule trim_with_plain) (use space_runes_nonempty space_not_plain in force)
  ultimately show ?thesis by (simp add: trim_space_def trim_right_def)
qed

subsection \<open>Lemmas on decimal integers\<close>

lemma of_char_digit [simp]: "d < 10 \<Longrightarrow> of_char (digit_char d) = 48 + d"
  by (simp add: digit_char_def)

lemma is_digit_char [simp]: "d < 10 \<Longrightarrow> is_digit (digit_char d)"
  by (simp add: is_digit_def)

lemma digit_val_char [simp]: "d < 10 \<Longrightarrow> digit_val (digit_char d) = int d"
  by (simp add: digit_val_def)

lemma dec_val_snoc [simp]: "dec_val (s @ [c]) = dec_val s * 10 + digit_val c"
  by (simp add: dec_val_def)

lemma nat_to_dec_digits: "list_all is_digit (nat_to_dec n) \<and> nat_to_dec n \<noteq> []"
proof (induction n rule: nat_to_dec.induct)
  case (1 n)
  then show ?case by (subst (1 2) nat_to_dec.simps) auto
qed

lemma dec_val_nat_to_dec [simp]: "dec_val (nat_to_dec n) = int n"
proof (induction n rule: nat_to_dec.induct)
  case (1 n)
  show ?case
  proof (cases "n < 10")
    case True
    then show ?thesis by (subst nat_to_dec.simps) (simp add: dec_val_def)
  next
    case False
    with 1 show ?thesis by (subst nat_to_dec.simps) (simp add: zdiv_int zmod_int)
  qed
qed

lemma nat_to_dec_hd: "\<exists>d ds. nat_to_dec n = d # ds \<and> is_digit d"
  using nat_to_dec_digits [of n] by (cases "nat_to_dec n") auto

lemma digit_no_sign: "is_digit d \<Longrightarrow> d \<noteq> CHR ''-'' \<and> d \<noteq> CHR ''+''"
  by (auto simp: is_digit_def)

lemma atoi_itoa [simp]: "in64 x \<Longrightarrow> atoi (itoa x) = Some x"
proof -
  assume x: "in64 x"
  obtain d ds where d: "nat_to_dec (nat \<bar>x\<bar>) = d # ds" "is_digit d"
    using nat_to_dec_hd by blast
  then have all: "list_all is_digit (d # ds)" and v: "dec_val (d # ds) = \<bar>x\<bar>"
    using nat_to_dec_digits [of "nat \<bar>x\<bar>"] dec_val_nat_to_dec [of "nat \<bar>x\<bar>"] by auto
  show ?thesis
  proof (cases "x < 0")
    case True
    then have "itoa x = CHR ''-'' # d # ds" using d by (simp add: itoa_def)
    with all v x True show ?thesis by (simp add: atoi_def)
  next
    case False
    then have "itoa x = d # ds" using d by (simp add: itoa_def)
    with all v x False digit_no_sign [OF d(2)] show ?thesis by (simp add: atoi_def)
  qed
qed

lemma itoa_inj: "in64 x \<Longrightarrow> in64 y \<Longrightarrow> itoa x = itoa y \<Longrightarrow> x = y"
  by (metis atoi_itoa option.inject)

lemma itoa_chars: "c \<in> set (itoa x) \<Longrightarrow> is_digit c \<or> c = CHR ''-''"
  using nat_to_dec_digits by (auto simp: itoa_def list_all_iff split: if_splits)

end
