(* ===== verification/Discovery.thy ===== *)
theory Discovery
  imports Go_Strings
begin

text \<open>
  \<^verbatim>\<open>internal/discovery\<close>: the endpoint cache of a sidecar (\<^verbatim>\<open>model.go\<close>) and the key layout of the
  etcd source (\<^verbatim>\<open>etcd_source.go\<close>). Every method of \<open>Cache\<close> holds the mutex for its whole body, so
  it is one atomic function on the record \<open>cache\<close>. \<open>cloneEndpoint\<close> copies the metadata map, which
  is why endpoints can be values here: no caller shares a map with the cache.
\<close>

section \<open>Data\<close>

record endpoint =
  ep_service :: string
  ep_instance :: string
  ep_address :: string
  ep_metadata :: "(string, string) gomap option"

datatype event_type = EventPut | EventDelete | EventOther int

record event =
  ev_type :: event_type
  ev_endpoint :: endpoint
  ev_service :: string
  ev_instance :: string
  ev_revision :: int

record snapshot =
  sn_endpoints :: "endpoint list"
  sn_revision :: int

record cache =
  services :: "(string, (string, endpoint) gomap) gomap"
  revision :: int

datatype discovery_error = ErrNoEndpoint

section \<open>Operations of the cache\<close>

definition new_cache :: cache where
  "new_cache = \<lparr>services = [], revision = 0\<rparr>"

definition clone_endpoint :: "endpoint \<Rightarrow> endpoint" where
  "clone_endpoint ep =
     (case ep_metadata ep of
        None \<Rightarrow> ep
      | Some md \<Rightarrow> ep\<lparr>ep_metadata := Some (gm_copy md)\<rparr>)"

text \<open>One assignment \<open>services[ep.Service][ep.InstanceID] = ep\<close>, with the inner map made on demand.\<close>

definition put_endpoint ::
  "endpoint \<Rightarrow> (string, (string, endpoint) gomap) gomap \<Rightarrow> (string, (string, endpoint) gomap) gomap" where
  "put_endpoint ep m =
     (let inner = (case gm_get m (ep_service ep) of None \<Rightarrow> [] | Some i \<Rightarrow> i)
      in gm_set (ep_service ep) (gm_set (ep_instance ep) (clone_endpoint ep) inner) m)"

definition build_services :: "endpoint list \<Rightarrow> (string, (string, endpoint) gomap) gomap" where
  "build_services eps = fold put_endpoint eps []"

definition replace_cache :: "snapshot \<Rightarrow> cache \<Rightarrow> cache" where
  "replace_cache s c =
     (if sn_revision s < revision c then c
      else c\<lparr>services := build_services (sn_endpoints s), revision := sn_revision s\<rparr>)"

definition delete_endpoint ::
  "string \<Rightarrow> string \<Rightarrow> (string, (string, endpoint) gomap) gomap \<Rightarrow> (string, (string, endpoint) gomap) gomap" where
  "delete_endpoint svc inst m =
     (case gm_get m svc of
        None \<Rightarrow> m
      | Some instances \<Rightarrow>
          (let instances' = gm_del inst instances
           in if instances' = [] then gm_del svc m else gm_set svc instances' m))"

definition apply_event :: "event \<Rightarrow> cache \<Rightarrow> cache" where
  "apply_event e c =
     (if ev_revision e \<le> revision c then c
      else (case ev_type e of
              EventPut \<Rightarrow> c\<lparr>services := put_endpoint (ev_endpoint e) (services c)\<rparr>
            | EventDelete \<Rightarrow> c\<lparr>services := delete_endpoint (ev_service e) (ev_instance e) (services c)\<rparr>
            | EventOther _ \<Rightarrow> c)\<lparr>revision := ev_revision e\<rparr>)"

definition list_cache :: "cache \<Rightarrow> string \<Rightarrow> endpoint list" where
  "list_cache c svc =
     (let instances = (case gm_get (services c) svc of None \<Rightarrow> [] | Some i \<Rightarrow> i)
      in sort_key ep_instance (map (\<lambda>(k, ep). clone_endpoint ep) instances))"

definition resolve_cache :: "cache \<Rightarrow> string \<Rightarrow> discovery_error + string" where
  "resolve_cache c svc =
     (case list_cache c svc of [] \<Rightarrow> Inl ErrNoEndpoint | ep # _ \<Rightarrow> Inr (ep_address ep))"

section \<open>The etcd source\<close>

definition key_prefix :: string where
  "key_prefix = ''/minimesh/services/''"

definition parse_key :: "string \<Rightarrow> string \<times> string" where
  "parse_key k =
     (case split_on CHR ''/'' (trim_prefix k key_prefix) of [a, b] \<Rightarrow> (a, b) | _ \<Rightarrow> ([], []))"

text \<open>The key under which the registry stores an endpoint (\<^verbatim>\<open>key\<close> of \<^verbatim>\<open>internal/registry/store.go\<close>).\<close>

definition registry_key :: "endpoint \<Rightarrow> string" where
  "registry_key ep = ''/minimesh/services/'' @ ep_service ep @ ''/'' @ ep_instance ep"

text \<open>
  A watch event as \<^verbatim>\<open>etcdhttp.WatchEvent\<close> delivers it; \<open>unmarshal\<close> stands for
  \<open>json.Unmarshal\<close> into an \<open>Endpoint\<close>. The result is the event handed to \<open>emit\<close>.
\<close>

record watch_event =
  we_type :: string
  we_key :: string
  we_value :: string
  we_prev_key :: string
  we_revision :: int

definition no_endpoint :: endpoint where
  "no_endpoint = \<lparr>ep_service = [], ep_instance = [], ep_address = [], ep_metadata = None\<rparr>"

definition source_event :: "(string \<Rightarrow> 'e + endpoint) \<Rightarrow> watch_event \<Rightarrow> 'e + event" where
  "source_event unmarshal ev =
     (if we_type ev = ''DELETE'' then
        (let (svc, i) = parse_key (we_key ev);
             (svc', i') = (if svc = [] then parse_key (we_prev_key ev) else (svc, i))
         in Inr \<lparr>ev_type = EventDelete, ev_endpoint = no_endpoint, ev_service = svc',
                 ev_instance = i', ev_revision = we_revision ev\<rparr>)
      else (case unmarshal (we_value ev) of
              Inl e \<Rightarrow> Inl e
            | Inr ep \<Rightarrow> Inr \<lparr>ev_type = EventPut, ev_endpoint = ep, ev_service = [],
                            ev_instance = [], ev_revision = we_revision ev\<rparr>))"

text \<open>
  \<open>FullSync\<close> decodes the values of a prefix range into a snapshot and stops at the first
  value that does not decode.
\<close>

fun decode_all :: "(string \<Rightarrow> 'e + endpoint) \<Rightarrow> string list \<Rightarrow> 'e + endpoint list" where
  "decode_all unmarshal [] = Inr []"
| "decode_all unmarshal (v # vs) =
     (case unmarshal v of
        Inl e \<Rightarrow> Inl e
      | Inr ep \<Rightarrow> (case decode_all unmarshal vs of Inl e \<Rightarrow> Inl e | Inr eps \<Rightarrow> Inr (ep # eps)))"

definition full_sync :: "(string \<Rightarrow> 'e + endpoint) \<Rightarrow> 'e + (string list \<times> int) \<Rightarrow> 'e + snapshot" where
  "full_sync unmarshal range_result =
     (case range_result of
        Inl e \<Rightarrow> Inl e
      | Inr (vals, rv) \<Rightarrow>
          (case decode_all unmarshal vals of
             Inl e \<Rightarrow> Inl e
           | Inr eps \<Rightarrow> Inr \<lparr>sn_endpoints = eps, sn_revision = rv\<rparr>))"

text \<open>
  \<open>discovery.Run\<close>: a full sync, then the watch from the next revision; \<open>events\<close> are what the
  watch emits for a given start revision before it ends with \<open>watch_err\<close>.
\<close>

definition run_discovery ::
  "'e + snapshot \<Rightarrow> (int \<Rightarrow> event list \<times> 'e option) \<Rightarrow> cache \<Rightarrow> 'e option \<times> cache" where
  "run_discovery sync watch c =
     (case sync of
        Inl e \<Rightarrow> (Some e, c)
      | Inr snap \<Rightarrow>
          (let c1 = replace_cache snap c; (events, err) = watch (wrap64 (sn_revision snap + 1))
           in (err, fold apply_event events c1)))"

section \<open>Invariant and abstraction\<close>

text \<open>
  Well-formed: keys are unique, no service has an empty instance map, and every stored endpoint is
  filed under its own service and instance id with a proper metadata map.
\<close>

definition ep_wf :: "endpoint \<Rightarrow> bool" where
  "ep_wf ep \<longleftrightarrow> (case ep_metadata ep of None \<Rightarrow> True | Some md \<Rightarrow> gm_wf md)"

definition services_wf :: "(string, (string, endpoint) gomap) gomap \<Rightarrow> bool" where
  "services_wf m \<longleftrightarrow> gm_wf m \<and>
     (\<forall>(svc, instances) \<in> set m. gm_wf instances \<and> instances \<noteq> [] \<and>
        (\<forall>(i, ep) \<in> set instances. ep_service ep = svc \<and> ep_instance ep = i \<and> ep_wf ep))"

definition cache_wf :: "cache \<Rightarrow> bool" where
  "cache_wf c \<longleftrightarrow> services_wf (services c)"

text \<open>The abstract state: which endpoint a service instance has, if any.\<close>

definition lookup_services :: "(string, (string, endpoint) gomap) gomap \<Rightarrow> string \<times> string \<Rightarrow> endpoint option" where
  "lookup_services m = (\<lambda>(svc, i). Option.bind (gm_get m svc) (\<lambda>instances. gm_get instances i))"

definition abs_cache :: "cache \<Rightarrow> string \<times> string \<Rightarrow> endpoint option" where
  "abs_cache c = lookup_services (services c)"

definition ep_key :: "endpoint \<Rightarrow> string \<times> string" where
  "ep_key ep = (ep_service ep, ep_instance ep)"

section \<open>Abstract specification\<close>

text \<open>
  What the cache promises: the newest revision it has seen and the endpoint of every service
  instance at that revision, independent of nested maps and iteration orders.
\<close>

datatype cache_op = ReplaceOp snapshot | ApplyOp event

fun run_op :: "cache_op \<Rightarrow> cache \<Rightarrow> cache" where
  "run_op (ReplaceOp s) c = replace_cache s c"
| "run_op (ApplyOp e) c = apply_event e c"

type_synonym endpoint_map = "string \<times> string \<Rightarrow> endpoint option"

definition spec_event :: "event \<Rightarrow> endpoint_map \<Rightarrow> endpoint_map" where
  "spec_event e m =
     (case ev_type e of
        EventPut \<Rightarrow> m(ep_key (ev_endpoint e) \<mapsto> clone_endpoint (ev_endpoint e))
      | EventDelete \<Rightarrow> m((ev_service e, ev_instance e) := None)
      | EventOther _ \<Rightarrow> m)"

definition spec_snapshot :: "endpoint list \<Rightarrow> endpoint_map" where
  "spec_snapshot eps = foldl (\<lambda>m ep. m(ep_key ep \<mapsto> clone_endpoint ep)) Map.empty eps"

fun spec_op :: "cache_op \<Rightarrow> int \<times> endpoint_map \<Rightarrow> int \<times> endpoint_map" where
  "spec_op (ReplaceOp s) (r, m) =
     (if sn_revision s < r then (r, m) else (sn_revision s, spec_snapshot (sn_endpoints s)))"
| "spec_op (ApplyOp e) (r, m) = (if ev_revision e \<le> r then (r, m) else (ev_revision e, spec_event e m))"

definition abs_state :: "cache \<Rightarrow> int \<times> endpoint_map" where
  "abs_state c = (revision c, abs_cache c)"

definition snapshots_consistent :: "snapshot list \<Rightarrow> bool" where
  "snapshots_consistent ss \<longleftrightarrow> (\<forall>s \<in> set ss. \<forall>t \<in> set ss. sn_revision s = sn_revision t \<longrightarrow> s = t)"

section \<open>The lister interface\<close>

text \<open>
  \<^verbatim>\<open>loadbalance.EndpointLister\<close>, the interface through which the load balancer reads the cache:
  in a well-formed store the instances of a service have distinct identifiers.
\<close>

locale endpoint_lister =
  fixes lister :: "'c \<Rightarrow> string \<Rightarrow> endpoint list"
    and lister_ok :: "'c \<Rightarrow> bool"
  assumes lister_distinct: "lister_ok c \<Longrightarrow> distinct (map ep_instance (lister c svc))"
begin

lemma lister_inj: "lister_ok c \<Longrightarrow> inj_on ep_instance (set (lister c svc))"
  using lister_distinct [of c svc] by (simp add: distinct_map)

lemma lister_instance_eq:
  "lister_ok c \<Longrightarrow> e \<in> set (lister c svc) \<Longrightarrow> e' \<in> set (lister c svc) \<Longrightarrow> ep_instance e = ep_instance e' \<Longrightarrow> e = e'"
  using lister_inj [of c svc] by (auto dest: inj_onD)

end

section \<open>Lemmas\<close>

lemma clone_endpoint_id [simp]: "ep_wf ep \<Longrightarrow> clone_endpoint ep = ep"
  by (cases ep) (auto simp: clone_endpoint_def ep_wf_def split: option.splits)

lemma gm_copy_wf: "gm_wf (gm_copy m)"
proof -
  have "gm_wf acc \<Longrightarrow> gm_wf (fold (\<lambda>(k, v) acc. gm_set k v acc) m acc)" for acc
    by (induction m arbitrary: acc) auto
  then show ?thesis by (simp add: gm_copy_def)
qed

lemma clone_endpoint_sel [simp]:
  "ep_service (clone_endpoint ep) = ep_service ep"
  "ep_instance (clone_endpoint ep) = ep_instance ep"
  "ep_address (clone_endpoint ep) = ep_address ep"
  "ep_wf (clone_endpoint ep)"
  by (auto simp: clone_endpoint_def ep_wf_def gm_copy_wf split: option.splits)

lemma services_wfD:
  assumes "services_wf m" "gm_get m svc = Some instances"
  shows "gm_wf instances" "instances \<noteq> []"
    "gm_get instances i = Some ep \<Longrightarrow> ep_service ep = svc \<and> ep_instance ep = i \<and> ep_wf ep"
  using assms gm_get_SomeD [of m svc instances] gm_get_SomeD [of instances i ep]
  by (auto simp: services_wf_def)

lemma services_wfI:
  assumes "gm_wf m"
    and "\<And>svc instances. gm_get m svc = Some instances \<Longrightarrow> gm_wf instances \<and> instances \<noteq> [] \<and>
      (\<forall>i ep. gm_get instances i = Some ep \<longrightarrow> ep_service ep = svc \<and> ep_instance ep = i \<and> ep_wf ep)"
  shows "services_wf m"
  using assms unfolding services_wf_def by (fastforce simp: gm_mem_get)

lemma gm_set_nonempty [simp]: "gm_set k v m \<noteq> []"
  using gm_get_set [of k v m k] by (metis gm_get_Nil option.distinct(1))

lemma put_endpoint_wf [wf_intros]: "services_wf m \<Longrightarrow> services_wf (put_endpoint ep m)"
proof (rule services_wfI)
  assume wf: "services_wf m"
  show "gm_wf (put_endpoint ep m)"
    using wf by (auto simp: put_endpoint_def Let_def services_wf_def)
  fix svc instances
  assume get: "gm_get (put_endpoint ep m) svc = Some instances"
  show "gm_wf instances \<and> instances \<noteq> [] \<and>
      (\<forall>i ep'. gm_get instances i = Some ep' \<longrightarrow> ep_service ep' = svc \<and> ep_instance ep' = i \<and> ep_wf ep')"
    using get services_wfD [OF wf]
    by (auto simp: put_endpoint_def Let_def split: if_splits option.splits)
qed

lemma delete_endpoint_wf [wf_intros]: "services_wf m \<Longrightarrow> services_wf (delete_endpoint svc i m)"
proof (rule services_wfI)
  assume wf: "services_wf m"
  show "gm_wf (delete_endpoint svc i m)"
    using wf by (auto simp: delete_endpoint_def Let_def services_wf_def split: option.splits)
  fix s instances
  assume get: "gm_get (delete_endpoint svc i m) s = Some instances"
  show "gm_wf instances \<and> instances \<noteq> [] \<and>
      (\<forall>i ep'. gm_get instances i = Some ep' \<longrightarrow> ep_service ep' = s \<and> ep_instance ep' = i \<and> ep_wf ep')"
    using get services_wfD [OF wf]
    by (auto simp: delete_endpoint_def Let_def split: if_splits option.splits)
qed

lemma build_services_wf [wf_intros]: "services_wf (build_services eps)"
proof -
  have "services_wf m \<Longrightarrow> services_wf (fold put_endpoint eps m)" for m
    by (induction eps arbitrary: m) (auto intro: wf_intros)
  moreover have "services_wf []" by (simp add: services_wf_def)
  ultimately show ?thesis by (simp add: build_services_def)
qed

lemma new_cache_wf [wf_intros]: "cache_wf new_cache"
  by (simp add: cache_wf_def new_cache_def services_wf_def)

lemma replace_cache_wf [wf_intros]: "cache_wf c \<Longrightarrow> cache_wf (replace_cache s c)"
  by (simp add: cache_wf_def replace_cache_def build_services_wf)

lemma apply_event_wf [wf_intros]: "cache_wf c \<Longrightarrow> cache_wf (apply_event e c)"
  by (auto simp: cache_wf_def apply_event_def intro: wf_intros split: event_type.splits)

text \<open>The abstraction: each operation on the nested map is one update of the flat map.\<close>

lemma lookup_put: "lookup_services (put_endpoint ep m) = (lookup_services m)(ep_key ep \<mapsto> clone_endpoint ep)"
  by (auto simp: fun_eq_iff lookup_services_def put_endpoint_def Let_def ep_key_def split: option.splits)

lemma lookup_delete: "lookup_services (delete_endpoint svc i m) = (lookup_services m)((svc, i) := None)"
proof (cases "gm_get m svc")
  case None
  then show ?thesis by (auto simp: fun_eq_iff lookup_services_def delete_endpoint_def)
next
  case (Some instances)
  show ?thesis
  proof (cases "gm_del i instances = []")
    case True
    then have "gm_get instances j = (if j = i then gm_get instances i else None)" for j
      using gm_get_del [of i instances j] by (auto split: if_splits)
    with Some True show ?thesis
      by (auto simp: fun_eq_iff lookup_services_def delete_endpoint_def)
  next
    case False
    with Some show ?thesis
      by (auto simp: fun_eq_iff lookup_services_def delete_endpoint_def Let_def)
  qed
qed

lemma lookup_build:
  "lookup_services (build_services eps) k = map_of (rev (map (\<lambda>ep. (ep_key ep, clone_endpoint ep)) eps)) k"
proof -
  have "lookup_services (fold put_endpoint eps m) =
      lookup_services m ++ map_of (rev (map (\<lambda>ep. (ep_key ep, clone_endpoint ep)) eps))" for m
  proof (induction eps arbitrary: m)
    case (Cons ep eps)
    then show ?case by (simp add: lookup_put fun_eq_iff map_add_def split: option.split)
  qed simp
  moreover have "lookup_services [] = Map.empty" by (auto simp: lookup_services_def)
  ultimately show ?thesis by (simp add: build_services_def)
qed

lemma list_cache_unfold:
  assumes "cache_wf c"
  shows "list_cache c svc = sort_key ep_instance (map snd (case gm_get (services c) svc of None \<Rightarrow> [] | Some i \<Rightarrow> i))"
proof (cases "gm_get (services c) svc")
  case None
  then show ?thesis by (simp add: list_cache_def)
next
  case (Some instances)
  note d = services_wfD [OF assms [unfolded cache_wf_def] Some]
  have "clone_endpoint ep = ep" if "(i, ep) \<in> set instances" for i ep
    using that d(1,3) by (simp add: gm_mem_get)
  then have "map (\<lambda>(k, ep). clone_endpoint ep) instances = map snd instances" by auto
  with Some show ?thesis unfolding list_cache_def Let_def by (simp only: option.case)
qed

lemma set_list_cache: "cache_wf c \<Longrightarrow> ep \<in> set (list_cache c svc) \<longleftrightarrow> abs_cache c (svc, ep_instance ep) = Some ep"
proof (cases "gm_get (services c) svc")
  case None
  assume "cache_wf c"
  with None show ?thesis by (simp add: list_cache_unfold abs_cache_def lookup_services_def)
next
  case (Some instances)
  assume wf: "cache_wf c"
  note d = services_wfD [OF wf [unfolded cache_wf_def] Some]
  have "ep \<in> snd ` set instances \<longleftrightarrow> gm_get instances (ep_instance ep) = Some ep"
  proof
    assume "ep \<in> snd ` set instances"
    then obtain i where "(i, ep) \<in> set instances" by force
    then have "gm_get instances i = Some ep" using d(1) by (simp add: gm_mem_get)
    with d(3) show "gm_get instances (ep_instance ep) = Some ep" by metis
  qed (force dest: gm_get_SomeD)
  with wf Some show ?thesis by (simp add: list_cache_unfold abs_cache_def lookup_services_def)
qed

lemma abs_cache_instance: "cache_wf c \<Longrightarrow> abs_cache c (svc, i) = Some ep \<Longrightarrow> ep_instance ep = i"
  by (auto simp: abs_cache_def lookup_services_def cache_wf_def bind_eq_Some_conv dest: services_wfD(3))

lemma list_cache_distinct: "cache_wf c \<Longrightarrow> distinct (map ep_instance (list_cache c svc))"
proof (cases "gm_get (services c) svc")
  case None
  assume "cache_wf c"
  with None show ?thesis by (simp add: list_cache_unfold)
next
  case (Some instances)
  assume wf: "cache_wf c"
  note d = services_wfD [OF wf [unfolded cache_wf_def] Some]
  have "distinct (map ep_instance (map snd instances))"
    using d(1,3) by (intro gm_distinct_vals) (auto simp: gm_mem_get)
  then have "distinct (map snd instances)" "inj_on ep_instance (set (map snd instances))"
    by (auto simp only: distinct_map)
  then have "distinct (map ep_instance (sort_key ep_instance (map snd instances)))"
    by (simp only: distinct_map distinct_sort set_sort simp_thms)
  with wf Some show ?thesis by (simp add: list_cache_unfold)
qed

lemma list_cache_sorted: "sorted (map ep_instance (list_cache c svc))"
  by (simp add: list_cache_def Let_def)

lemma list_cache_eqI:
  assumes "cache_wf c" "cache_wf c'" "\<And>i. abs_cache c (svc, i) = abs_cache c' (svc, i)"
  shows "list_cache c svc = list_cache c' svc"
proof -
  have "set (list_cache c svc) = set (list_cache c' svc)"
    using assms by (auto simp: set_list_cache)
  then have "sort_key ep_instance (list_cache c svc) = sort_key ep_instance (list_cache c' svc)"
    using assms list_cache_distinct by (intro sort_key_eq_of_set) auto
  moreover have "sort_key ep_instance (list_cache d svc) = list_cache d svc" for d
    using list_cache_sorted [of d svc] by (rule sort_key_id_if_sorted)
  ultimately show ?thesis by simp
qed

text \<open>Simulation of the specification.\<close>

lemma abs_replace: "revision c \<le> sn_revision s \<Longrightarrow> abs_cache (replace_cache s c) = spec_snapshot (sn_endpoints s)"
proof -
  have "map_of (rev (map (\<lambda>ep. (ep_key ep, clone_endpoint ep)) eps)) = spec_snapshot eps" for eps
    unfolding spec_snapshot_def by (induction eps rule: rev_induct) auto
  moreover assume "revision c \<le> sn_revision s"
  ultimately show ?thesis
    by (simp add: abs_cache_def replace_cache_def fun_eq_iff lookup_build)
qed

lemma abs_apply: "revision c < ev_revision e \<Longrightarrow> abs_cache (apply_event e c) = spec_event e (abs_cache c)"
  by (auto simp: abs_cache_def apply_event_def spec_event_def lookup_put lookup_delete split: event_type.splits)

lemma revision_apply [simp]: "revision (apply_event e c) = max (ev_revision e) (revision c)"
  by (simp add: apply_event_def)

lemma revision_replace [simp]: "revision (replace_cache s c) = max (sn_revision s) (revision c)"
  by (simp add: replace_cache_def)

lemma apply_stale: "ev_revision e \<le> revision c \<Longrightarrow> apply_event e c = c"
  by (simp add: apply_event_def)

lemma replace_stale: "sn_revision s < revision c \<Longrightarrow> replace_cache s c = c"
  by (simp add: replace_cache_def)

lemma run_op_sim: "abs_state (run_op op c) = spec_op op (abs_state c)"
proof (cases op)
  case (ReplaceOp s)
  then show ?thesis
    by (cases "sn_revision s < revision c") (auto simp: abs_state_def abs_replace replace_stale)
next
  case (ApplyOp e)
  then show ?thesis
    by (cases "ev_revision e \<le> revision c") (auto simp: abs_state_def abs_apply apply_stale)
qed

lemma run_op_wf [wf_intros]: "cache_wf c \<Longrightarrow> cache_wf (run_op op c)"
  by (cases op) (auto intro: wf_intros)

lemma run_ops_wf: "cache_wf c \<Longrightarrow> cache_wf (fold run_op ops c)"
  by (induction ops arbitrary: c) (auto intro: wf_intros)

lemma fold_apply_stale: "(\<And>e. e \<in> set es \<Longrightarrow> ev_revision e \<le> revision c) \<Longrightarrow> fold apply_event es c = c"
  by (induction es) (auto simp: apply_stale)

lemma fold_apply_revision: "e \<in> set es \<Longrightarrow> ev_revision e \<le> revision (fold apply_event es c)"
proof -
  have mono: "revision c \<le> revision (fold apply_event es c)" for es c
    by (induction es arbitrary: c) (auto, metis max.bounded_iff revision_apply)
  show "e \<in> set es \<Longrightarrow> ?thesis"
  proof (induction es arbitrary: c)
    case (Cons x es)
    then show ?case using mono [of "apply_event x c" es] by auto
  qed simp
qed

lemma replace_newer_absorbs:
  "sn_revision s \<le> sn_revision t \<Longrightarrow> replace_cache t (replace_cache s c) = replace_cache t c"
  by (simp add: replace_cache_def)

lemma fold_replace_stale: "(\<And>s. s \<in> set ss \<Longrightarrow> sn_revision s < revision c) \<Longrightarrow> fold replace_cache ss c = c"
  by (induction ss) (auto simp: replace_stale)

text \<open>
  Snapshots commute as long as equal revisions carry equal contents, so a run of them ends in
  the newest one.
\<close>

lemma fold_replace_newest:
  assumes "snapshots_consistent ss" "t \<in> set ss"
    and "\<And>s. s \<in> set ss \<Longrightarrow> sn_revision s \<le> sn_revision t"
  shows "fold replace_cache ss c = replace_cache t c"
  using assms
proof (induction ss arbitrary: c)
  case (Cons s ss)
  have cons: "snapshots_consistent ss" using Cons.prems(1) by (simp add: snapshots_consistent_def)
  show ?case
  proof (cases "t \<in> set ss")
    case True
    then have "fold replace_cache ss (replace_cache s c) = replace_cache t (replace_cache s c)"
      using Cons cons by simp
    also have "\<dots> = replace_cache t c" using Cons.prems(3) by (simp add: replace_newer_absorbs)
    finally show ?thesis by simp
  next
    case False
    then have t: "s = t" using Cons.prems(2) by simp
    have "sn_revision u < revision (replace_cache t c)" if "u \<in> set ss" for u
    proof -
      have "sn_revision u \<le> sn_revision t" using Cons.prems(3) that by simp
      moreover have "sn_revision u \<noteq> sn_revision t"
        using Cons.prems(1,2) that False by (auto simp: snapshots_consistent_def)
      ultimately show ?thesis by simp
    qed
    then have "fold replace_cache ss (replace_cache t c) = replace_cache t c"
      by (rule fold_replace_stale)
    then show ?thesis by (simp add: t)
  qed
qed simp

interpretation cache_lister: endpoint_lister list_cache cache_wf
  by unfold_locales (rule list_cache_distinct)

text \<open>The key layout and the watch from the next revision.\<close>

lemma parse_key_registry_key:
  "parse_key (registry_key ep) =
     (if CHR ''/'' \<in> set (ep_service ep) \<or> CHR ''/'' \<in> set (ep_instance ep) then ([], [])
      else (ep_service ep, ep_instance ep))"
proof -
  let ?rest = "ep_service ep @ CHR ''/'' # ep_instance ep"
  have rest: "trim_prefix (registry_key ep) key_prefix = ?rest"
    using trim_prefix_append [of key_prefix ?rest] by (simp add: registry_key_def key_prefix_def)
  show ?thesis
  proof (cases "CHR ''/'' \<in> set (ep_service ep) \<or> CHR ''/'' \<in> set (ep_instance ep)")
    case True
    then have "count_list (ep_service ep) CHR ''/'' + count_list (ep_instance ep) CHR ''/'' \<noteq> 0"
      by (simp add: count_list_0_iff)
    then have "length (split_on CHR ''/'' ?rest) \<noteq> 2" by (simp add: length_split_on)
    with True show ?thesis
      by (auto simp: parse_key_def rest split: list.splits)
  next
    case False
    then show ?thesis by (simp add: parse_key_def rest split_on_append split_on_free)
  qed
qed

lemma fold_apply_fresh:
  assumes "sorted_wrt (\<lambda>e f. ev_revision e < ev_revision f) es" "\<And>e. e \<in> set es \<Longrightarrow> revision c < ev_revision e"
  shows "abs_cache (fold apply_event es c) = fold spec_event es (abs_cache c)"
  using assms by (induction es arbitrary: c) (auto simp: abs_apply)

lemma log_split:
  "sorted_wrt (\<lambda>e f. ev_revision e < ev_revision f) es \<Longrightarrow>
   filter (\<lambda>e. ev_revision e \<le> r) es @ filter (\<lambda>e. r + 1 \<le> ev_revision e) es = es"
proof (induction es)
  case (Cons e es)
  show ?case
  proof (cases "ev_revision e \<le> r")
    case True
    with Cons show ?thesis by simp
  next
    case False
    with Cons.prems have "filter (\<lambda>e. ev_revision e \<le> r) es = []"
      by (fastforce simp: filter_empty_conv)
    with False Cons show ?thesis by simp
  qed
qed simp

section \<open>Properties\<close>


text \<open>
  \<open>Cache.List\<close> is exact and deterministic. After any history of operations it returns the
  endpoints the abstract state holds for the service, each once, in strictly increasing order of
  instance id; so two caches with the same abstract contents return the same list, whatever the
  iteration order of their maps.
\<close>

theorem list_cache_exact:
  "let c = fold run_op ops new_cache; eps = list_cache c svc
   in sorted_wrt (<) (map ep_instance eps) \<and>
      set eps = {ep. abs_cache c (svc, ep_instance ep) = Some ep} \<and>
      (abs_cache (fold run_op ops' new_cache) = abs_cache c
         \<longrightarrow> list_cache (fold run_op ops' new_cache) svc = eps)"
proof -
  have wf: "cache_wf (fold run_op os new_cache)" for os by (simp add: run_ops_wf new_cache_wf)
  have "sorted_wrt (<) (map ep_instance (list_cache (fold run_op ops new_cache) svc))"
    using list_cache_sorted list_cache_distinct [OF wf] by (simp add: strict_sorted_iff)
  with wf show ?thesis by (auto simp: Let_def set_list_cache intro: list_cache_eqI)
qed

text \<open>
  \<open>Cache.Resolve\<close> fails with \<open>ErrNoEndpoint\<close> exactly when the service has no instance, and
  otherwise returns the address of the instance with the least identifier.
\<close>

theorem resolve_cache_least:
  assumes "cache_wf c"
  shows "(resolve_cache c svc = Inl ErrNoEndpoint \<longleftrightarrow> (\<forall>i. abs_cache c (svc, i) = None)) \<and>
     (\<forall>addr. resolve_cache c svc = Inr addr \<longrightarrow>
        (\<exists>ep. abs_cache c (svc, ep_instance ep) = Some ep \<and> ep_address ep = addr \<and>
           (\<forall>i. abs_cache c (svc, i) \<noteq> None \<longrightarrow> ep_instance ep \<le> i)))"
proof (cases "list_cache c svc")
  case Nil
  have "abs_cache c (svc, i) = None" for i
  proof (rule ccontr)
    assume "abs_cache c (svc, i) \<noteq> None"
    then obtain ep where ep: "abs_cache c (svc, i) = Some ep" by blast
    then have "ep_instance ep = i" by (rule abs_cache_instance [OF assms])
    with ep Nil set_list_cache [OF assms, of ep svc] show False by simp
  qed
  with Nil show ?thesis by (simp add: resolve_cache_def)
next
  case (Cons ep eps)
  have ep: "abs_cache c (svc, ep_instance ep) = Some ep"
    using Cons set_list_cache [OF assms, of ep svc] by simp
  have "ep_instance ep \<le> i" if "abs_cache c (svc, i) = Some e" for i e
  proof -
    have i: "ep_instance e = i" using that by (rule abs_cache_instance [OF assms])
    then have "e \<in> set (list_cache c svc)" using that set_list_cache [OF assms] by simp
    with Cons list_cache_sorted [of c svc] i show ?thesis by auto
  qed
  with Cons ep show ?thesis by (force simp: resolve_cache_def)
qed

text \<open>A small cache for the witnesses: two instances of \<open>echo\<close> and their etcd log.\<close>

definition ep_a :: endpoint where
  "ep_a = \<lparr>ep_service = ''echo'', ep_instance = ''a'', ep_address = ''h1:1'', ep_metadata = None\<rparr>"

definition ep_b :: endpoint where
  "ep_b = \<lparr>ep_service = ''echo'', ep_instance = ''b'', ep_address = ''h2:2'', ep_metadata = Some [(''w'', ''3'')]\<rparr>"

definition put_ev :: "endpoint \<Rightarrow> int \<Rightarrow> event" where
  "put_ev ep r = \<lparr>ev_type = EventPut, ev_endpoint = ep, ev_service = [], ev_instance = [], ev_revision = r\<rparr>"

definition del_ev :: "endpoint \<Rightarrow> int \<Rightarrow> event" where
  "del_ev ep r = \<lparr>ev_type = EventDelete, ev_endpoint = no_endpoint, ev_service = ep_service ep,
      ev_instance = ep_instance ep, ev_revision = r\<rparr>"

lemmas sample_defs = ep_a_def ep_b_def put_ev_def del_ev_def no_endpoint_def

theorem list_cache_exact_witness:
  "list_cache (fold run_op [ReplaceOp \<lparr>sn_endpoints = [ep_a, ep_b], sn_revision = 9\<rparr>] new_cache) ''echo'' =
   list_cache (fold run_op [ApplyOp (put_ev ep_b 4), ApplyOp (put_ev ep_a 7)] new_cache) ''echo''"
proof -
  let ?o = "[ApplyOp (put_ev ep_b 4), ApplyOp (put_ev ep_a 7)]"
    and ?o' = "[ReplaceOp \<lparr>sn_endpoints = [ep_a, ep_b], sn_revision = 9\<rparr>]"
  have "abs_cache new_cache = Map.empty"
    by (auto simp: new_cache_def abs_cache_def lookup_services_def)
  then have "abs_cache (fold run_op ?o' new_cache) = abs_cache (fold run_op ?o new_cache)"
    by (auto simp: abs_apply abs_replace new_cache_def spec_event_def spec_snapshot_def ep_key_def sample_defs)
  then show ?thesis using list_cache_exact [of ?o "''echo''" ?o'] by (simp add: Let_def)
qed

theorem resolve_cache_least_witness:
  "resolve_cache (fold apply_event [put_ev ep_b 4, put_ev ep_a 7] new_cache) ''echo'' = Inr ''h1:1'' \<and>
   ''a'' \<le> ''b''"
proof -
  let ?c = "fold apply_event [put_ev ep_b 4, put_ev ep_a 7] new_cache"
  have wf: "cache_wf ?c" by (simp add: apply_event_wf new_cache_wf)
  have abs: "abs_cache ?c (''echo'', i) = (if i = ''a'' then Some ep_a else if i = ''b'' then Some ep_b else None)" for i
    by (simp add: abs_apply new_cache_def spec_event_def ep_key_def abs_cache_def [of "\<lparr>services = [], revision = 0\<rparr>"]
        lookup_services_def sample_defs clone_endpoint_def gm_copy_def gm_set_def)
  then have ne: "resolve_cache ?c ''echo'' \<noteq> Inl ErrNoEndpoint"
    using resolve_cache_least [OF wf, of "''echo''"] by (metis option.distinct(1))
  then obtain addr where addr: "resolve_cache ?c ''echo'' = Inr addr"
    by (cases "resolve_cache ?c ''echo''") (auto intro: discovery_error.exhaust)
  then obtain ep where ep: "abs_cache ?c (''echo'', ep_instance ep) = Some ep" "ep_address ep = addr"
      "\<And>i. abs_cache ?c (''echo'', i) \<noteq> None \<Longrightarrow> ep_instance ep \<le> i"
    using resolve_cache_least [OF wf, of "''echo''"] by blast
  have "ep_instance ep \<le> ''a''" using ep(3) [of "''a''"] abs by simp
  then have "ep_instance ep = ''a''" using ep(1) abs by (auto split: if_splits)
  then have "ep = ep_a" using ep(1) abs by simp
  with ep(2) addr show ?thesis by (simp add: ep_a_def)
qed

text \<open>
  Snapshots converge. A sidecar that receives full snapshots in any order, with repetitions
  (reconnects, lost acknowledgements, a restarted control plane), ends in the cache the newest
  snapshot gives, provided equal revisions carry equal contents. Hence any two delivery orders of
  the same snapshots end in the same cache.
\<close>

theorem snapshots_converge:
  assumes "snapshots_consistent ss" "t \<in> set ss" "\<forall>s \<in> set ss. sn_revision s \<le> sn_revision t"
    and "set ss' = set ss"
  shows "fold replace_cache ss c = replace_cache t c \<and> fold replace_cache ss' c = fold replace_cache ss c"
proof -
  have "snapshots_consistent ss'" using assms by (simp add: snapshots_consistent_def)
  with assms show ?thesis using fold_replace_newest [of ss t c] fold_replace_newest [of ss' t c] by simp
qed

theorem snapshots_converge_witness:
  "let s1 = \<lparr>sn_endpoints = [ep_a], sn_revision = 3\<rparr>; s2 = \<lparr>sn_endpoints = [ep_b], sn_revision = 5\<rparr>
   in fold replace_cache [s2, s1, s2, s1] new_cache = replace_cache s2 new_cache \<and>
      fold replace_cache [s1, s2] new_cache = fold replace_cache [s2, s1, s2, s1] new_cache"
  unfolding Let_def
  by (rule snapshots_converge) (auto simp: snapshots_consistent_def)

text \<open>
  at-least-once delivery. Once a list of watch events has been applied, applying any of them
  again, in any order and any number of times, changes nothing.
\<close>

theorem redelivery_ignored:
  assumes "set ds \<subseteq> set es"
  shows "fold apply_event (es @ ds) c = fold apply_event es c"
  using assms fold_apply_revision [of _ es c]
  by (simp add: fold_apply_stale subset_iff)

theorem redelivery_ignored_witness:
  "fold apply_event ([put_ev ep_a 4, del_ev ep_a 7] @ [put_ev ep_a 4]) new_cache =
   fold apply_event [put_ev ep_a 4, del_ev ep_a 7] new_cache"
  by (rule redelivery_ignored) simp

lemma sync_then_watch:
  assumes log_ordered: "sorted_wrt (\<lambda>e f. ev_revision e < ev_revision f) log"
    and sync_reflects_log: "spec_snapshot (sn_endpoints snap) =
      fold spec_event (filter (\<lambda>e. ev_revision e \<le> sn_revision snap) log) Map.empty"
    and cache_older: "revision c \<le> sn_revision snap"
  shows "abs_cache (fold apply_event (filter (\<lambda>e. sn_revision snap + 1 \<le> ev_revision e) log) (replace_cache snap c)) =
    fold spec_event log Map.empty"
proof -
  let ?r = "sn_revision snap" and ?c = "replace_cache snap c"
  let ?new = "filter (\<lambda>e. ?r + 1 \<le> ev_revision e) log"
  have "abs_cache (fold apply_event ?new ?c) = fold spec_event ?new (abs_cache ?c)"
    using log_ordered cache_older by (intro fold_apply_fresh sorted_wrt_filter) auto
  also have "\<dots> = fold spec_event (filter (\<lambda>e. ev_revision e \<le> ?r) log @ ?new) Map.empty"
    using cache_older sync_reflects_log by (simp add: abs_replace)
  also have "\<dots> = fold spec_event log Map.empty" using log_split [OF log_ordered] by simp
  finally show ?thesis .
qed

text \<open>
  No update is lost between the full sync and the watch. Against an etcd log with
  increasing revisions, a full sync that reflects the log up to its revision and a watch from the
  revision after it that delivers the rest (etcd's documented behaviour) leave the cache with
  exactly the contents of the whole log.
\<close>

theorem run_discovery_complete:
  assumes log_ordered: "sorted_wrt (\<lambda>e f. ev_revision e < ev_revision f) log"
    and sync_reflects_log: "spec_snapshot (sn_endpoints snap) =
      fold spec_event (filter (\<lambda>e. ev_revision e \<le> sn_revision snap) log) Map.empty"
    and watch_delivers_rest: "\<And>n. watch n = (filter (\<lambda>e. n \<le> ev_revision e) log, err)"
    and rev_range: "in64 (sn_revision snap + 1)" and cache_older: "revision c \<le> sn_revision snap"
  shows "fst (run_discovery (Inr snap) watch c) = err \<and>
    abs_cache (snd (run_discovery (Inr snap) watch c)) = fold spec_event log Map.empty"
  using sync_then_watch [OF log_ordered sync_reflects_log cache_older] rev_range
  by (simp add: run_discovery_def watch_delivers_rest)

theorem run_discovery_complete_witness:
  "let log = [put_ev ep_a 4, put_ev ep_b 6, del_ev ep_a 9]; snap = \<lparr>sn_endpoints = [ep_a], sn_revision = 5\<rparr>
   in abs_cache (snd (run_discovery (Inr snap) (\<lambda>n. (filter (\<lambda>e. n \<le> ev_revision e) log, Some ''eof'')) new_cache)) =
      fold spec_event log Map.empty"
proof -
  let ?log = "[put_ev ep_a 4, put_ev ep_b 6, del_ev ep_a 9]"
  have "fst (run_discovery (Inr \<lparr>sn_endpoints = [ep_a], sn_revision = 5\<rparr>)
        (\<lambda>n. (filter (\<lambda>e. n \<le> ev_revision e) ?log, Some ''eof'')) new_cache) = Some ''eof'' \<and>
      abs_cache (snd (run_discovery (Inr \<lparr>sn_endpoints = [ep_a], sn_revision = 5\<rparr>)
        (\<lambda>n. (filter (\<lambda>e. n \<le> ev_revision e) ?log, Some ''eof'')) new_cache)) = fold spec_event ?log Map.empty"
    by (rule run_discovery_complete)
      (auto simp: put_ev_def del_ev_def spec_snapshot_def spec_event_def in64_def new_cache_def)
  then show ?thesis by (simp only: Let_def simp_thms)
qed

text \<open>
  Key round trip. \<open>parseKey\<close> recovers service and instance from the key the registry writes
  exactly when neither contains a slash; otherwise it returns two empty strings.
\<close>

theorem parse_key_roundtrip:
  "parse_key (registry_key ep) =
     (if CHR ''/'' \<in> set (ep_service ep @ ep_instance ep) then ([], [])
      else (ep_service ep, ep_instance ep))"
  by (simp add: parse_key_registry_key)

text \<open>
  The etcd deletion of an endpoint whose service or instance name contains a slash never
  reaches the cache: the event names the empty service, so the endpoint stays listed.
\<close>

theorem slash_deletion_lost:
  assumes "CHR ''/'' \<in> set (ep_service ep @ ep_instance ep)" "ep_service ep \<noteq> []"
    and "source_event unmarshal \<lparr>we_type = ''DELETE'', we_key = registry_key ep, we_value = v,
      we_prev_key = registry_key ep, we_revision = r\<rparr> = Inr e"
  shows "abs_cache (apply_event e c) (ep_key ep) = abs_cache c (ep_key ep)"
proof -
  have "ev_type e = EventDelete" "ev_service e = []"
    using assms by (auto simp: source_event_def parse_key_registry_key)
  then show ?thesis using assms(2)
    by (cases "ev_revision e \<le> revision c") (auto simp: apply_stale abs_apply spec_event_def ep_key_def)
qed

theorem slash_deletion_lost_witness:
  "let ep = \<lparr>ep_service = ''echo'', ep_instance = ''pod/1'', ep_address = ''h:1'', ep_metadata = None\<rparr>;
       c = apply_event (put_ev ep 3) new_cache;
       e = \<lparr>ev_type = EventDelete, ev_endpoint = no_endpoint, ev_service = [], ev_instance = [], ev_revision = 9\<rparr>
   in abs_cache (apply_event e c) (ep_key ep) = Some ep"
proof -
  let ?ep = "\<lparr>ep_service = ''echo'', ep_instance = ''pod/1'', ep_address = ''h:1'', ep_metadata = None\<rparr>"
  let ?c = "apply_event (put_ev ?ep 3) new_cache"
  let ?e = "\<lparr>ev_type = EventDelete, ev_endpoint = no_endpoint, ev_service = [], ev_instance = [], ev_revision = 9\<rparr>"
  have "abs_cache (apply_event ?e ?c) (ep_key ?ep) = abs_cache ?c (ep_key ?ep)"
    by (rule slash_deletion_lost [where unmarshal = "\<lambda>_. Inl ()" and v = "[]" and r = 9])
      (simp_all add: source_event_def parse_key_registry_key)
  also have "\<dots> = Some ?ep"
    by (simp add: abs_apply put_ev_def new_cache_def spec_event_def clone_endpoint_def)
  finally show ?thesis by (simp only: Let_def)
qed

end
