(* ===== verification/Load_Balance.thy ===== *)
theory Load_Balance
  imports Discovery "HOL-Library.Multiset"
begin

text \<open>
  \<^verbatim>\<open>internal/loadbalance\<close>: the three pickers. \<open>WeightedRoundRobinPicker\<close> holds its mutex for a whole
  call; \<open>RoundRobinPicker\<close> takes an atomic ticket; \<open>LeastConnectionsPicker\<close> counts active requests in
  nodes that its callers keep pointers to, so its nodes live in a heap of their own and the
  interleaving of its callers is the step relation \<open>lc_step\<close>. The contract \<open>picker\<close> is what the
  resolver relies on; each picker is an interpretation of it.
\<close>

datatype lb_error = ErrNoLBEndpoint | ErrUnknownAlgorithm string

section \<open>Round robin\<close>

record rr_picker =
  rr_snapshot :: "endpoint list option"
  rr_next :: "64 word"

definition new_round_robin :: rr_picker where
  "new_round_robin = \<lparr>rr_snapshot = None, rr_next = 0\<rparr>"

definition rr_update :: "endpoint list \<Rightarrow> rr_picker \<Rightarrow> rr_picker" where
  "rr_update eps p = p\<lparr>rr_snapshot := Some eps\<rparr>"

definition rr_pick :: "rr_picker \<Rightarrow> (lb_error + endpoint) \<times> rr_picker" where
  "rr_pick p =
     (case rr_snapshot p of
        None \<Rightarrow> (Inl ErrNoLBEndpoint, p)
      | Some eps \<Rightarrow>
          (if eps = [] then (Inl ErrNoLBEndpoint, p)
           else (let p = p\<lparr>rr_next := rr_next p + 1\<rparr>; index = rr_next p - 1
                 in (Inr (eps ! unat (index mod of_nat (length eps))), p))))"

section \<open>Weighted round robin\<close>

record weighted_node =
  wn_endpoint :: endpoint
  wn_weight :: int
  wn_current :: int

definition weight_metadata_key :: string where
  "weight_metadata_key = ''minimesh.weight''"

definition endpoint_weight :: "endpoint \<Rightarrow> int" where
  "endpoint_weight ep =
     (case ep_metadata ep of
        None \<Rightarrow> 1
      | Some md \<Rightarrow>
          (case atoi (case gm_get md weight_metadata_key of None \<Rightarrow> [] | Some v \<Rightarrow> v) of
             None \<Rightarrow> 1
           | Some w \<Rightarrow> if w \<le> 0 then 1 else w))"

record wrr_picker =
  wrr_nodes :: "weighted_node list"

definition new_weighted_round_robin :: wrr_picker where
  "new_weighted_round_robin = \<lparr>wrr_nodes = []\<rparr>"

definition wrr_update :: "endpoint list \<Rightarrow> wrr_picker \<Rightarrow> wrr_picker" where
  "wrr_update eps p =
     p\<lparr>wrr_nodes := map (\<lambda>ep. \<lparr>wn_endpoint = ep, wn_weight = endpoint_weight ep, wn_current = 0\<rparr>) eps\<rparr>"

text \<open>One turn of the loop of \<open>Pick\<close>: nodes, running total and index of the best node so far.\<close>

definition wrr_step :: "nat \<Rightarrow> weighted_node list \<times> int \<times> nat \<Rightarrow> weighted_node list \<times> int \<times> nat" where
  "wrr_step i = (\<lambda>(nodes, tot, best).
     (let nodes = nodes[i := (nodes ! i)\<lparr>wn_current := wrap64 (wn_current (nodes ! i) + wn_weight (nodes ! i))\<rparr>];
          tot = wrap64 (tot + wn_weight (nodes ! i));
          best = (if wn_current (nodes ! best) < wn_current (nodes ! i) then i else best)
      in (nodes, tot, best)))"

definition wrr_pick :: "wrr_picker \<Rightarrow> (lb_error + endpoint) \<times> wrr_picker" where
  "wrr_pick p =
     (if wrr_nodes p = [] then (Inl ErrNoLBEndpoint, p)
      else (case fold wrr_step [0..<length (wrr_nodes p)] (wrr_nodes p, 0, 0) of
              (nodes, tot, best) \<Rightarrow>
                (Inr (wn_endpoint (nodes ! best)),
                 p\<lparr>wrr_nodes := nodes[best := (nodes ! best)\<lparr>wn_current := wrap64 (wn_current (nodes ! best) - tot)\<rparr>]\<rparr>)))"

section \<open>Least connections\<close>

text \<open>The heap is a list, an address its index; a node is never freed while a caller may hold it.\<close>

record least_node =
  ln_endpoint :: endpoint
  ln_active :: int

record lc_picker =
  lc_heap :: "least_node list"
  lc_nodes :: "nat list"

definition new_least_connections :: lc_picker where
  "new_least_connections = \<lparr>lc_heap = [], lc_nodes = []\<rparr>"

definition lc_existing :: "lc_picker \<Rightarrow> (string, nat) gomap" where
  "lc_existing p = fold (\<lambda>a. gm_set (ep_instance (ln_endpoint (lc_heap p ! a))) a) (lc_nodes p) []"

text \<open>One turn of the second loop of \<open>Update\<close>: keep the node of a known instance or make one.\<close>

definition lc_place :: "(string, nat) gomap \<Rightarrow> endpoint \<Rightarrow> least_node list \<times> nat list \<Rightarrow> least_node list \<times> nat list" where
  "lc_place existing ep = (\<lambda>(heap, nx).
     (case gm_get existing (ep_instance ep) of
        Some a \<Rightarrow> (heap[a := (heap ! a)\<lparr>ln_endpoint := ep\<rparr>], nx @ [a])
      | None \<Rightarrow> (heap @ [\<lparr>ln_endpoint = ep, ln_active = 0\<rparr>], nx @ [length heap])))"

definition lc_update :: "endpoint list \<Rightarrow> lc_picker \<Rightarrow> lc_picker" where
  "lc_update eps p =
     (case fold (lc_place (lc_existing p)) eps (lc_heap p, []) of
        (heap, nx) \<Rightarrow> p\<lparr>lc_heap := heap, lc_nodes := nx\<rparr>)"

text \<open>The scan of \<open>Pick\<close>: the address of the first node with the least count.\<close>

fun lc_scan :: "least_node list \<Rightarrow> nat list \<Rightarrow> nat \<times> int \<Rightarrow> nat \<times> int" where
  "lc_scan heap [] best = best"
| "lc_scan heap (a # as) (b, n) =
     (let count = ln_active (heap ! a) in lc_scan heap as (if count < n then (a, count) else (b, n)))"

definition lc_select :: "lc_picker \<Rightarrow> nat option" where
  "lc_select p =
     (case lc_nodes p of
        [] \<Rightarrow> None
      | a # as \<Rightarrow> Some (fst (lc_scan (lc_heap p) as (a, ln_active (lc_heap p ! a)))))"

definition lc_add :: "nat \<Rightarrow> int \<Rightarrow> lc_picker \<Rightarrow> lc_picker" where
  "lc_add a d p =
     p\<lparr>lc_heap := (lc_heap p)[a := (lc_heap p ! a)\<lparr>ln_active := wrap64 (ln_active (lc_heap p ! a) + d)\<rparr>]\<rparr>"

text \<open>\<open>Pick\<close> returns the endpoint and the node whose count \<open>Done\<close> decrements, once.\<close>

definition lc_pick :: "lc_picker \<Rightarrow> (lb_error + endpoint \<times> nat) \<times> lc_picker" where
  "lc_pick p =
     (case lc_select p of
        None \<Rightarrow> (Inl ErrNoLBEndpoint, p)
      | Some a \<Rightarrow> (let p = lc_add a 1 p in (Inr (ln_endpoint (lc_heap p ! a), a), p)))"

definition lc_done :: "nat \<Rightarrow> lc_picker \<Rightarrow> lc_picker" where
  "lc_done a p = lc_add a (- 1) p"

section \<open>The interface\<close>

datatype algorithm = RoundRobin | WeightedRoundRobin | LeastConnections | OtherAlgorithm string

datatype any_picker = RRPicker rr_picker | WRRPicker wrr_picker | LCPicker lc_picker

text \<open>What a \<open>DoneFunc\<close> does when it runs: nothing, or decrement a node.\<close>

datatype done_func = NoDone | DoneNode nat

definition new_picker :: "algorithm \<Rightarrow> lb_error + any_picker" where
  "new_picker a =
     (case a of
        RoundRobin \<Rightarrow> Inr (RRPicker new_round_robin)
      | WeightedRoundRobin \<Rightarrow> Inr (WRRPicker new_weighted_round_robin)
      | LeastConnections \<Rightarrow> Inr (LCPicker new_least_connections)
      | OtherAlgorithm s \<Rightarrow> Inl (ErrUnknownAlgorithm s))"

fun picker_update :: "endpoint list \<Rightarrow> any_picker \<Rightarrow> any_picker" where
  "picker_update eps (RRPicker p) = RRPicker (rr_update eps p)"
| "picker_update eps (WRRPicker p) = WRRPicker (wrr_update eps p)"
| "picker_update eps (LCPicker p) = LCPicker (lc_update eps p)"

fun picker_pick :: "any_picker \<Rightarrow> (lb_error + endpoint \<times> done_func) \<times> any_picker" where
  "picker_pick (RRPicker p) = (case rr_pick p of (r, p) \<Rightarrow> (map_sum id (\<lambda>e. (e, NoDone)) r, RRPicker p))"
| "picker_pick (WRRPicker p) = (case wrr_pick p of (r, p) \<Rightarrow> (map_sum id (\<lambda>e. (e, NoDone)) r, WRRPicker p))"
| "picker_pick (LCPicker p) = (case lc_pick p of (r, p) \<Rightarrow> (map_sum id (\<lambda>(e, a). (e, DoneNode a)) r, LCPicker p))"

fun picker_done :: "done_func \<Rightarrow> any_picker \<Rightarrow> any_picker" where
  "picker_done (DoneNode a) (LCPicker p) = LCPicker (lc_done a p)"
| "picker_done _ p = p"

section \<open>The contract of a picker\<close>

locale picker =
  fixes upd :: "endpoint list \<Rightarrow> 'p \<Rightarrow> 'p" and pick :: "'p \<Rightarrow> (lb_error + endpoint \<times> 'd) \<times> 'p"
    and fin :: "'d \<Rightarrow> 'p \<Rightarrow> 'p" and members :: "'p \<Rightarrow> endpoint list" and ok :: "'p \<Rightarrow> bool"
  assumes upd_members: "ok p \<Longrightarrow> distinct (map ep_instance eps) \<Longrightarrow> ok (upd eps p) \<and> members (upd eps p) = eps"
    and pick_empty: "ok p \<Longrightarrow> members p = [] \<Longrightarrow> pick p = (Inl ErrNoLBEndpoint, p)"
    and pick_member: "ok p \<Longrightarrow> members p \<noteq> [] \<Longrightarrow>
      \<exists>e d p'. pick p = (Inr (e, d), p') \<and> e \<in> set (members p) \<and> ok p' \<and> members p' = members p"
    and fin_members: "ok p \<Longrightarrow> ok (fin d p) \<and> members (fin d p) = members p"
begin

lemma pick_cases:
  assumes "ok p" "pick p = (r, p')"
  shows "ok p' \<and> members p' = members p \<and>
     (r = Inl ErrNoLBEndpoint \<and> members p = [] \<or> (\<exists>e d. r = Inr (e, d) \<and> e \<in> set (members p)))"
  using pick_empty [OF assms(1)] pick_member [OF assms(1)] assms by (cases "members p = []") auto

lemma pick_inr: "ok p \<Longrightarrow> pick p = (Inr (e, d), p') \<Longrightarrow> e \<in> set (members p) \<and> ok p' \<and> members p' = members p"
  using pick_cases by blast

end

section \<open>Lemmas on round robin\<close>

definition rr_members :: "rr_picker \<Rightarrow> endpoint list" where
  "rr_members p = (case rr_snapshot p of None \<Rightarrow> [] | Some eps \<Rightarrow> eps)"

text \<open>A run of picks of any picker, with the results.\<close>

fun run_picks :: "('p \<Rightarrow> 'r \<times> 'p) \<Rightarrow> nat \<Rightarrow> 'p \<Rightarrow> 'r list \<times> 'p" where
  "run_picks pick 0 p = ([], p)"
| "run_picks pick (Suc n) p = (let (r, p) = pick p; (rs, p) = run_picks pick n p in (r # rs, p))"

lemma rr_index:
  assumes "eps \<noteq> []" "length eps < 2 ^ 64"
  shows "unat ((i :: 64 word) mod of_nat (length eps)) = unat i mod length eps"
proof -
  have "unat (of_nat (length eps) :: 64 word) = length eps" using assms by (simp add: unat_of_nat)
  then show ?thesis by (simp add: unat_mod)
qed

lemma rr_pick_some:
  "rr_snapshot p = Some eps \<Longrightarrow> eps \<noteq> [] \<Longrightarrow> length eps < 2 ^ 64 \<Longrightarrow>
   rr_pick p = (Inr (eps ! (unat (rr_next p) mod length eps)), p\<lparr>rr_next := rr_next p + 1\<rparr>)"
  by (simp add: rr_pick_def rr_index)

lemma rr_run:
  assumes "rr_snapshot p = Some eps" "eps \<noteq> []" "length eps < 2 ^ 64" "unat (rr_next p) + n < 2 ^ 64"
  shows "run_picks rr_pick n p =
     (map (\<lambda>j. Inr (eps ! ((unat (rr_next p) + j) mod length eps))) [0..<n], p\<lparr>rr_next := rr_next p + of_nat n\<rparr>)"
  using assms
proof (induction n arbitrary: p)
  case (Suc n)
  let ?p = "p\<lparr>rr_next := rr_next p + 1\<rparr>"
  have u: "unat (rr_next p + 1) = Suc (unat (rr_next p))"
    using Suc.prems(4) by (intro unat_add_lem [THEN iffD1, THEN trans]) simp_all
  have "run_picks rr_pick n ?p = (map (\<lambda>j. Inr (eps ! ((unat (rr_next ?p) + j) mod length eps))) [0..<n],
      ?p\<lparr>rr_next := rr_next ?p + of_nat n\<rparr>)"
    by (rule Suc.IH) (use Suc.prems u in simp_all)
  then show ?case using rr_pick_some [OF Suc.prems(1-3)] u by (simp add: add.assoc map_upt_Suc del: upt_Suc)
qed simp

lemma mset_rotation:
  assumes "xs \<noteq> []"
  shows "mset (map (\<lambda>j. xs ! ((k + j) mod length xs)) [0..<length xs]) = mset xs"
proof -
  have "map (\<lambda>j. xs ! ((k + j) mod length xs)) [0..<length xs] = rotate k xs"
    by (rule nth_equalityI) (simp_all add: nth_rotate add.commute)
  moreover have "mset (rotate k xs) = mset xs"
    unfolding rotate_drop_take by (metis append_take_drop_id mset_append union_commute)
  ultimately show ?thesis by simp
qed

section \<open>Lemmas on weighted round robin\<close>

abbreviation wn_total :: "weighted_node list \<Rightarrow> int" where
  "wn_total nodes \<equiv> sum_list (map wn_weight nodes)"

text \<open>
  The invariant of the smooth algorithm: the currents add up to zero and none is as low as minus
  the total weight. The last conjunct keeps every intermediate value within 64 bits.
\<close>

definition wrr_inv :: "weighted_node list \<Rightarrow> bool" where
  "wrr_inv nodes \<longleftrightarrow> nodes \<noteq> [] \<and> (\<forall>n \<in> set nodes. 0 < wn_weight n \<and> - wn_total nodes < wn_current n) \<and>
     sum_list (map wn_current nodes) = 0 \<and> int (length nodes) * wn_total nodes < 2 ^ 63"

definition wn_add :: "weighted_node \<Rightarrow> weighted_node" where
  "wn_add n = n\<lparr>wn_current := wn_current n + wn_weight n\<rparr>"

lemma wn_add_sel [simp]: "wn_current (wn_add n) = wn_current n + wn_weight n" "wn_weight (wn_add n) = wn_weight n"
  "wn_endpoint (wn_add n) = wn_endpoint n"
  by (simp_all add: wn_add_def)

lemma sum_list_upper:
  "x \<in> set xs \<Longrightarrow> (\<And>y. y \<in> set xs \<Longrightarrow> - W \<le> y) \<Longrightarrow> x \<le> sum_list xs + (int (length xs) - 1) * (W :: int)"
proof (induction xs)
  case (Cons y ys)
  have low: "- (int (length zs) * W) \<le> sum_list zs" if "\<And>y. y \<in> set zs \<Longrightarrow> - W \<le> y" for zs
    using that by (induction zs) (force simp: distrib_right)+
  show ?case
  proof (cases "x = y")
    case True
    have "- (int (length ys) * W) \<le> sum_list ys" by (rule low) (use Cons.prems in simp)
    then show ?thesis using True by simp
  next
    case False
    then have "x \<le> sum_list ys + (int (length ys) - 1) * W" using Cons by simp
    then show ?thesis using Cons.prems(2) [of y] by (simp add: distrib_right left_diff_distrib)
  qed
qed simp

lemma wrr_inv_bounds:
  assumes "wrr_inv nodes"
  shows "0 < wn_total nodes" "wn_total nodes < 2 ^ 63"
    "n \<in> set nodes \<Longrightarrow> wn_weight n \<le> wn_total nodes"
    "n \<in> set nodes \<Longrightarrow> wn_current n \<le> (int (length nodes) - 1) * wn_total nodes"
proof -
  have pos: "0 \<le> w" if "w \<in> set (map wn_weight nodes)" for w using assms that by (auto simp: wrr_inv_def)
  show le: "n \<in> set nodes \<Longrightarrow> wn_weight n \<le> wn_total nodes" for n
    by (rule member_le_sum_list) (use pos in auto)
  have ne: "nodes \<noteq> []" using assms by (simp add: wrr_inv_def)
  then have "hd nodes \<in> set nodes" by simp
  moreover from this have "0 < wn_weight (hd nodes)" using assms unfolding wrr_inv_def by blast
  ultimately show tot: "0 < wn_total nodes" using le [of "hd nodes"] by linarith
  have "1 \<le> int (length nodes)" using ne by (cases nodes) auto
  then have "1 * wn_total nodes \<le> int (length nodes) * wn_total nodes" using tot by (intro mult_right_mono) auto
  then show "wn_total nodes < 2 ^ 63" using assms by (simp add: wrr_inv_def)
  show "n \<in> set nodes \<Longrightarrow> wn_current n \<le> (int (length nodes) - 1) * wn_total nodes"
    using sum_list_upper [of "wn_current n" "map wn_current nodes" "wn_total nodes"] assms
    by (fastforce simp: wrr_inv_def)
qed

lemma wrr_inv_in64:
  assumes "wrr_inv nodes" "n \<in> set nodes"
  shows "in64 (wn_current n + wn_weight n)" "in64 (wn_current n + wn_weight n - wn_total nodes)"
proof -
  note b = wrr_inv_bounds [OF assms(1)]
  have up: "wn_current n + wn_weight n \<le> int (length nodes) * wn_total nodes"
    using b(3,4) [OF assms(2)] by (simp add: left_diff_distrib)
  have low: "- wn_total nodes < wn_current n" "0 < wn_weight n" "int (length nodes) * wn_total nodes < 2 ^ 63"
    using assms by (auto simp: wrr_inv_def)
  show "in64 (wn_current n + wn_weight n)" using up low b(1,2) by (simp add: in64_def)
  show "in64 (wn_current n + wn_weight n - wn_total nodes)"
  proof (cases "length nodes = 1")
    case True
    then have "nodes = [n]" using assms(2) by (cases nodes) auto
    then have "wn_current n = 0" "wn_total nodes = wn_weight n" using assms(1) by (simp_all add: wrr_inv_def)
    then show ?thesis by (simp add: in64_def)
  next
    case False
    have "nodes \<noteq> []" using assms(2) by auto
    then have "2 \<le> int (length nodes)" using False by (cases nodes) (auto simp: Suc_le_eq)
    then have "2 * wn_total nodes \<le> int (length nodes) * wn_total nodes" using b(1) by (intro mult_right_mono) auto
    then have "- (2 ^ 63) \<le> wn_current n + wn_weight n - wn_total nodes" "wn_current n + wn_weight n - wn_total nodes < 2 ^ 63"
      using up low b(1) by linarith+
    then show ?thesis by (simp add: in64_def)
  qed
qed

lemma wrr_scan:
  assumes "wrr_inv nodes" "k \<le> length nodes"
  shows "\<exists>b. fold wrr_step [0..<k] (nodes, 0, 0) = (map wn_add (take k nodes) @ drop k nodes, wn_total (take k nodes), b) \<and>
     b < max 1 k \<and> (\<forall>j < k. wn_current (wn_add (nodes ! j)) \<le> wn_current (wn_add (nodes ! b)))"
  using assms(2)
proof (induction k)
  case 0
  then show ?case by simp
next
  case (Suc k)
  then obtain b where b: "fold wrr_step [0..<k] (nodes, 0, 0) = (map wn_add (take k nodes) @ drop k nodes, wn_total (take k nodes), b)"
    "b < max 1 k" "\<forall>j < k. wn_current (wn_add (nodes ! j)) \<le> wn_current (wn_add (nodes ! b))" by auto
  let ?ns = "map wn_add (take k nodes) @ drop k nodes" and ?n = "nodes ! k"
  let ?ns' = "map wn_add (take (Suc k) nodes) @ drop (Suc k) nodes"
  have k: "k < length nodes" and mem: "?n \<in> set nodes" using Suc.prems by auto
  have nk: "?ns ! k = ?n" using k by (simp add: nth_append)
  have "wrap64 (wn_current ?n + wn_weight ?n) = wn_current ?n + wn_weight ?n" using wrr_inv_in64(1) [OF assms(1) mem] by simp
  then have upd: "?ns[k := (?ns ! k)\<lparr>wn_current := wrap64 (wn_current (?ns ! k) + wn_weight (?ns ! k))\<rparr>] = ?ns'"
    using k unfolding nk by (simp add: list_update_append take_Suc_conv_app_nth Cons_nth_drop_Suc [symmetric] wn_add_def)
  have tot: "wn_total (take (Suc k) nodes) = wn_total (take k nodes) + wn_weight ?n" using k by (simp add: take_Suc_conv_app_nth)
  have "wn_total nodes = wn_total (take (Suc k) nodes) + wn_total (drop (Suc k) nodes)"
    by (metis append_take_drop_id map_append sum_list_append)
  moreover have "0 \<le> wn_total (drop (Suc k) nodes)" "0 \<le> wn_total (take (Suc k) nodes)"
    using assms(1) by (auto simp: wrr_inv_def intro!: sum_list_nonneg dest!: in_set_dropD in_set_takeD, force+)
  ultimately have wr: "wrap64 (wn_total (take k nodes) + wn_weight ?n) = wn_total (take (Suc k) nodes)"
    using wrr_inv_bounds(2) [OF assms(1)] unfolding tot by (intro wrap64_id) (simp add: in64_def)
  have cur: "wn_current (?ns' ! j) = wn_current (wn_add (nodes ! j))" if "j \<le> k" for j
    using that k by (simp add: nth_append)
  have bk: "b \<le> k" using b(2) by (simp add: max_def split: if_splits)
  have "fold wrr_step [0..<Suc k] (nodes, 0, 0) =
      (?ns', wn_total (take (Suc k) nodes), if wn_current (wn_add (nodes ! b)) < wn_current (wn_add ?n) then k else b)"
  proof -
    have wk: "wn_weight (?ns' ! k) = wn_weight ?n" using k by (simp add: nth_append)
    show ?thesis using b(1) unfolding upt_Suc
      by (simp add: wrr_step_def Let_def upd [unfolded nk] nk wk wr cur bk)
  qed
  then show ?case using b(2,3) bk by (auto simp: less_Suc_eq)
qed

lemma exists_ge_avg: "xs \<noteq> [] \<Longrightarrow> 0 < sum_list xs \<Longrightarrow> \<exists>x \<in> set xs. (0 :: int) < x"
  by (meson leD not_less sum_list_nonpos)

lemma sum_list_upd: "i < length xs \<Longrightarrow> sum_list (xs[i := x]) = sum_list xs + x - (xs ! i :: int)"
proof (induction xs arbitrary: i)
  case (Cons y ys)
  then show ?case by (cases i) auto
qed simp

text \<open>One pick: some node \<open>b\<close> with the largest new current is chosen and pays the total weight.\<close>

lemma wrr_pick_inv:
  assumes "wrr_inv (wrr_nodes p)"
  shows "\<exists>b p'. b < length (wrr_nodes p) \<and> wrr_pick p = (Inr (wn_endpoint (wrr_nodes p ! b)), p') \<and>
     wrr_inv (wrr_nodes p') \<and> length (wrr_nodes p') = length (wrr_nodes p) \<and>
     (\<forall>i < length (wrr_nodes p).
        wn_endpoint (wrr_nodes p' ! i) = wn_endpoint (wrr_nodes p ! i) \<and> wn_weight (wrr_nodes p' ! i) = wn_weight (wrr_nodes p ! i) \<and>
        wn_current (wrr_nodes p' ! i) =
          wn_current (wrr_nodes p ! i) + wn_weight (wrr_nodes p ! i) - (if i = b then wn_total (wrr_nodes p) else 0))"
proof -
  let ?ns = "wrr_nodes p" and ?W = "wn_total (wrr_nodes p)" and ?m = "length (wrr_nodes p)"
  have ne: "?ns \<noteq> []" using assms by (simp add: wrr_inv_def)
  then have m1: "max 1 ?m = ?m" by (cases ?ns) auto
  from wrr_scan [OF assms le_refl] obtain b where
    b: "fold wrr_step [0..<?m] (?ns, 0, 0) = (map wn_add ?ns, ?W, b)" "b < ?m"
      "\<forall>j < ?m. wn_current (wn_add (?ns ! j)) \<le> wn_current (wn_add (?ns ! b))" unfolding m1 by auto
  define n' where "n' = (wn_add (?ns ! b))\<lparr>wn_current := wn_current (?ns ! b) + wn_weight (?ns ! b) - ?W\<rparr>"
  define p' where "p' = p\<lparr>wrr_nodes := (map wn_add ?ns)[b := n']\<rparr>"
  have mem: "?ns ! b \<in> set ?ns" using b(2) by simp
  have "wrap64 (wn_current (?ns ! b) + wn_weight (?ns ! b) - ?W) = wn_current (?ns ! b) + wn_weight (?ns ! b) - ?W"
    using wrr_inv_in64(2) [OF assms mem] by simp
  then have pick: "wrr_pick p = (Inr (wn_endpoint (?ns ! b)), p')"
    using ne b(1,2) by (simp add: wrr_pick_def p'_def n'_def)
  have len: "length (wrr_nodes p') = ?m" by (simp add: p'_def)
  have sel: "wn_endpoint (wrr_nodes p' ! i) = wn_endpoint (?ns ! i)" "wn_weight (wrr_nodes p' ! i) = wn_weight (?ns ! i)"
    "wn_current (wrr_nodes p' ! i) = wn_current (?ns ! i) + wn_weight (?ns ! i) - (if i = b then ?W else 0)" if "i < ?m" for i
    using that by (cases "i = b"; simp add: p'_def n'_def)+
  have wmap: "map wn_weight (wrr_nodes p') = map wn_weight ?ns" by (rule nth_equalityI) (simp_all add: len sel)
  have cmap: "map wn_current (wrr_nodes p') =
      (map (\<lambda>n. wn_current n + wn_weight n) ?ns)[b := wn_current (?ns ! b) + wn_weight (?ns ! b) - ?W]"
    by (rule nth_equalityI) (auto simp: len sel nth_list_update)
  have sum0: "sum_list (map (\<lambda>n. wn_current n + wn_weight n) ?ns) = ?W"
    using assms by (simp add: sum_list_addf wrr_inv_def)
  have sum: "sum_list (map wn_current (wrr_nodes p')) = 0"
    unfolding cmap using sum_list_upd [of b "map (\<lambda>n. wn_current n + wn_weight n) ?ns"] sum0 b(2) by simp
  have "\<exists>x \<in> set (map (\<lambda>n. wn_current n + wn_weight n) ?ns). 0 < x"
    by (rule exists_ge_avg) (use ne sum0 wrr_inv_bounds(1) [OF assms] in simp_all)
  then obtain j where "j < ?m" "0 < wn_current (wn_add (?ns ! j))" by (auto simp: in_set_conv_nth)
  then have pos: "0 < wn_current (?ns ! b) + wn_weight (?ns ! b)" using b(3) by (metis less_le_trans wn_add_sel(1))
  have node: "0 < wn_weight (?ns ! i) \<and> - ?W < wn_current (?ns ! i)" if "i < ?m" for i
    using assms that by (simp add: wrr_inv_def)
  have "0 < wn_weight (wrr_nodes p' ! i) \<and> - wn_total (wrr_nodes p') < wn_current (wrr_nodes p' ! i)" if "i < ?m" for i
    unfolding wmap using node [OF that] pos sel [OF that] by auto
  then have "wrr_inv (wrr_nodes p')" using assms sum wmap len by (auto simp: wrr_inv_def in_set_conv_nth)
  then show ?thesis using b(2) pick len sel by blast
qed

lemma wrr_run:
  assumes "wrr_inv (wrr_nodes p)" "distinct (map wn_endpoint (wrr_nodes p))" "run_picks wrr_pick k p = (rs, p')"
  shows "wrr_inv (wrr_nodes p') \<and> length (wrr_nodes p') = length (wrr_nodes p) \<and> wn_total (wrr_nodes p') = wn_total (wrr_nodes p) \<and>
     (\<forall>i < length (wrr_nodes p). wn_current (wrr_nodes p' ! i) =
        wn_current (wrr_nodes p ! i) + int k * wn_weight (wrr_nodes p ! i) -
        wn_total (wrr_nodes p) * int (count_list rs (Inr (wn_endpoint (wrr_nodes p ! i)))))"
  using assms
proof (induction k arbitrary: p rs)
  case (Suc k)
  from wrr_pick_inv [OF Suc.prems(1)] obtain b p1 where
    b: "b < length (wrr_nodes p)" "wrr_pick p = (Inr (wn_endpoint (wrr_nodes p ! b)), p1)"
      "wrr_inv (wrr_nodes p1)" "length (wrr_nodes p1) = length (wrr_nodes p)" and
    sel: "\<And>i. i < length (wrr_nodes p) \<Longrightarrow>
        wn_endpoint (wrr_nodes p1 ! i) = wn_endpoint (wrr_nodes p ! i) \<and> wn_weight (wrr_nodes p1 ! i) = wn_weight (wrr_nodes p ! i) \<and>
        wn_current (wrr_nodes p1 ! i) =
          wn_current (wrr_nodes p ! i) + wn_weight (wrr_nodes p ! i) - (if i = b then wn_total (wrr_nodes p) else 0)" by blast
  have maps: "map wn_endpoint (wrr_nodes p1) = map wn_endpoint (wrr_nodes p)" "map wn_weight (wrr_nodes p1) = map wn_weight (wrr_nodes p)"
    by (rule nth_equalityI; use b(4) sel in simp)+
  obtain rs1 where run: "run_picks wrr_pick k p1 = (rs1, p')" "rs = Inr (wn_endpoint (wrr_nodes p ! b)) # rs1"
    using Suc.prems(3) b(2) by (auto split: prod.splits)
  have same: "wn_endpoint (wrr_nodes p ! b) = wn_endpoint (wrr_nodes p ! i) \<longleftrightarrow> b = i" if "i < length (wrr_nodes p)" for i
    using Suc.prems(2) b(1) that by (metis length_map nth_eq_iff_index_eq nth_map)
  show ?case
    using Suc.IH [OF b(3) _ run(1)] maps Suc.prems(2) b(4) sel same run(2) by (auto simp: algebra_simps)
qed simp

lemma endpoint_weight_pos: "0 < endpoint_weight ep"
  by (simp add: endpoint_weight_def split: option.split)

lemma wrr_inv_update:
  "eps \<noteq> [] \<Longrightarrow> int (length eps) * sum_list (map endpoint_weight eps) < 2 ^ 63 \<Longrightarrow> wrr_inv (wrr_nodes (wrr_update eps p))"
proof -
  assume e: "eps \<noteq> []" "int (length eps) * sum_list (map endpoint_weight eps) < 2 ^ 63"
  then obtain x xs where x: "eps = x # xs" by (cases eps) auto
  have "0 \<le> sum_list (map endpoint_weight xs)" by (rule sum_list_nonneg) (auto intro: less_imp_le [OF endpoint_weight_pos])
  then have "0 < sum_list (map endpoint_weight eps)" using x endpoint_weight_pos [of x] by simp
  moreover have "sum_list (map (\<lambda>_. 0) eps) = (0 :: int)" by (induction eps) auto
  ultimately show ?thesis using e by (auto simp: wrr_inv_def wrr_update_def o_def endpoint_weight_pos)
qed

section \<open>Lemmas on least connections\<close>

text \<open>
  The nodes of the picker are allocated and distinct, and so are their instances.
\<close>

definition lc_members :: "lc_picker \<Rightarrow> endpoint list" where
  "lc_members p = map (\<lambda>a. ln_endpoint (lc_heap p ! a)) (lc_nodes p)"

definition lc_ok :: "lc_picker \<Rightarrow> bool" where
  "lc_ok p \<longleftrightarrow> (\<forall>a \<in> set (lc_nodes p). a < length (lc_heap p)) \<and> distinct (map ep_instance (lc_members p))"

text \<open>The interleaving of callers: an update, a caller that has selected a node and counts itself, or a completion.\<close>

inductive lc_step :: "lc_picker \<times> nat multiset \<Rightarrow> lc_picker \<times> nat multiset \<Rightarrow> bool" where
  lc_updated: "distinct (map ep_instance eps) \<Longrightarrow> lc_step (p, out) (lc_update eps p, out)"
| lc_counted: "a < length (lc_heap p) \<Longrightarrow> size out < 2 ^ 62 \<Longrightarrow> lc_step (p, out) (lc_add a 1 p, add_mset a out)"
| lc_finished: "a \<in># out \<Longrightarrow> lc_step (p, out) (lc_done a p, out - {#a#})"

inductive lc_reachable :: "lc_picker \<times> nat multiset \<Rightarrow> bool" where
  lc_start: "lc_reachable (new_least_connections, {#})"
| lc_next: "lc_reachable s \<Longrightarrow> lc_step s t \<Longrightarrow> lc_reachable t"

definition lc_inv :: "lc_picker \<Rightarrow> nat multiset \<Rightarrow> bool" where
  "lc_inv p out \<longleftrightarrow> lc_ok p \<and> set_mset out \<subseteq> {..<length (lc_heap p)} \<and> size out \<le> 2 ^ 62 \<and>
     (\<forall>a < length (lc_heap p). ln_active (lc_heap p ! a) = int (count out a))"

lemma lc_scan_min:
  "lc_scan heap as (b, n) = (c, k) \<Longrightarrow> n = ln_active (heap ! b) \<Longrightarrow>
   c \<in> set (b # as) \<and> (\<forall>a \<in> set (b # as). ln_active (heap ! c) \<le> ln_active (heap ! a))"
proof (induction as arbitrary: b n)
  case (Cons a as)
  show ?case
  proof (cases "ln_active (heap ! a) < n")
    case True
    then show ?thesis using Cons.IH [of a "ln_active (heap ! a)"] Cons.prems by (auto simp: Let_def)
  next
    case False
    then show ?thesis using Cons.IH [of b n] Cons.prems by (auto simp: Let_def)
  qed
qed simp

lemma lc_select_min:
  assumes "lc_nodes p \<noteq> []"
  shows "\<exists>a. lc_select p = Some a \<and> a \<in> set (lc_nodes p) \<and>
     (\<forall>b \<in> set (lc_nodes p). ln_active (lc_heap p ! a) \<le> ln_active (lc_heap p ! b))"
proof -
  obtain a as where n: "lc_nodes p = a # as" using assms by (cases "lc_nodes p") auto
  obtain c k where c: "lc_scan (lc_heap p) as (a, ln_active (lc_heap p ! a)) = (c, k)" by fastforce
  from lc_scan_min [OF c refl] show ?thesis using n c by (simp add: lc_select_def)
qed

lemma lc_add_sel [simp]:
  "lc_nodes (lc_add a d p) = lc_nodes p" "length (lc_heap (lc_add a d p)) = length (lc_heap p)"
  "ln_endpoint (lc_heap (lc_add a d p) ! b) = ln_endpoint (lc_heap p ! b)"
  "b < length (lc_heap p) \<Longrightarrow> ln_active (lc_heap (lc_add a d p) ! b) =
     (if b = a then wrap64 (ln_active (lc_heap p ! b) + d) else ln_active (lc_heap p ! b))"
  by (auto simp: lc_add_def nth_list_update)
    (metis least_node.select_convs(1) least_node.surjective least_node.update_convs(2) list_update_beyond not_le nth_list_update_eq nth_list_update_neq)

lemma lc_members_add [simp]: "lc_members (lc_add a d p) = lc_members p"
  by (simp add: lc_members_def)

lemma lc_ok_add [simp]: "lc_ok (lc_add a d p) = lc_ok p"
  by (simp add: lc_ok_def)

lemma lc_existing_some:
  assumes "gm_get (lc_existing p) k = Some a"
  shows "a \<in> set (lc_nodes p) \<and> ep_instance (ln_endpoint (lc_heap p ! a)) = k"
proof -
  have "gm_get (fold (\<lambda>a. gm_set (ep_instance (ln_endpoint (lc_heap p ! a))) a) as m) k = Some a \<Longrightarrow>
      a \<in> set as \<and> ep_instance (ln_endpoint (lc_heap p ! a)) = k \<or> gm_get m k = Some a" for as m
    by (induction as arbitrary: m) (fastforce split: if_splits)+
  from this [of "lc_nodes p" "[]"] assms show ?thesis by (simp add: lc_existing_def)
qed

lemma lc_existing_none:
  assumes "gm_get (lc_existing p) k = None"
  shows "k \<notin> set (map ep_instance (lc_members p))"
proof -
  have "k \<notin> set (map (\<lambda>a. ep_instance (ln_endpoint (lc_heap p ! a))) as) \<and> gm_get m k = None"
    if "gm_get (fold (\<lambda>a. gm_set (ep_instance (ln_endpoint (lc_heap p ! a))) a) as m) k = None" for as m
    using that
  proof (induction as arbitrary: m)
    case (Cons a as)
    from Cons.IH [of "gm_set (ep_instance (ln_endpoint (lc_heap p ! a))) a m"] Cons.prems
    show ?case by (auto split: if_splits)
  qed simp
  from this [of "lc_nodes p" "[]"] assms show ?thesis by (simp add: lc_existing_def lc_members_def o_def)
qed

text \<open>What a node list holds after some endpoints are placed: each endpoint at the node of its instance, or at a new one.\<close>

definition placed :: "lc_picker \<Rightarrow> least_node list \<Rightarrow> nat \<Rightarrow> endpoint \<Rightarrow> bool" where
  "placed p heap a e \<longleftrightarrow> a < length heap \<and> ln_endpoint (heap ! a) = e \<and>
     (case gm_get (lc_existing p) (ep_instance e) of Some b \<Rightarrow> a = b | None \<Rightarrow> length (lc_heap p) \<le> a)"

definition heap_grown :: "least_node list \<Rightarrow> least_node list \<Rightarrow> bool" where
  "heap_grown heap heap' \<longleftrightarrow> length heap \<le> length heap' \<and>
     (\<forall>a < length heap'. ln_active (heap' ! a) = (if a < length heap then ln_active (heap ! a) else 0))"

lemma lc_place_step:
  assumes "lc_ok p" "list_all2 (placed p heap) nx es" "heap_grown (lc_heap p) heap" "ep_instance ep \<notin> ep_instance ` set es"
    and "lc_place (lc_existing p) ep (heap, nx) = (heap', nx')"
  shows "list_all2 (placed p heap') nx' (es @ [ep]) \<and> heap_grown (lc_heap p) heap'"
proof (cases "gm_get (lc_existing p) (ep_instance ep)")
  case None
  then have eq: "heap' = heap @ [\<lparr>ln_endpoint = ep, ln_active = 0\<rparr>]" "nx' = nx @ [length heap]"
    using assms(5) by (simp_all add: lc_place_def)
  have "list_all2 (placed p heap') nx es"
    by (rule list_all2_mono [OF assms(2)]) (auto simp: placed_def eq nth_append)
  moreover have "placed p heap' (length heap) ep" using None assms(3) by (simp add: placed_def eq heap_grown_def)
  ultimately have "list_all2 (placed p heap') nx' (es @ [ep])" unfolding eq(2) by (intro list_all2_appendI) simp_all
  then show ?thesis using assms(3) by (auto simp: heap_grown_def eq nth_append less_Suc_eq)
next
  case (Some a)
  then have eq: "heap' = heap[a := (heap ! a)\<lparr>ln_endpoint := ep\<rparr>]" "nx' = nx @ [a]"
    using assms(5) by (simp_all add: lc_place_def)
  have a: "a \<in> set (lc_nodes p)" "ep_instance (ln_endpoint (lc_heap p ! a)) = ep_instance ep"
    using lc_existing_some [OF Some] by simp_all
  then have len: "a < length (lc_heap p)" "a < length heap"
    using assms(1,3) by (auto simp: lc_ok_def heap_grown_def)
  have ne: "b \<noteq> a" if "placed p heap b e" "e \<in> set es" for b e
  proof
    assume "b = a"
    with that(1) len have "gm_get (lc_existing p) (ep_instance e) = Some a" by (auto simp: placed_def split: option.splits)
    then have "ep_instance e = ep_instance ep" using lc_existing_some a(2) by metis
    then show False using assms(4) that(2) by (metis imageI)
  qed
  have "placed p heap' b e" if "placed p heap b e" "e \<in> set es" for b e
    using that(1) ne [OF that] by (auto simp: placed_def eq)
  then have "list_all2 (placed p heap') nx es"
    using assms(2) by (simp add: list_all2_conv_all_nth)
  moreover have "placed p heap' a ep" using Some len by (simp add: placed_def eq)
  ultimately have "list_all2 (placed p heap') nx' (es @ [ep])" unfolding eq(2) by (intro list_all2_appendI) simp_all
  moreover have "ln_active (heap' ! b) = ln_active (heap ! b)" if "b < length heap" for b
    using that by (cases "b = a") (simp_all add: eq)
  ultimately show ?thesis using assms(3) by (simp add: heap_grown_def eq)
qed

lemma lc_place_fold:
  assumes "lc_ok p" "list_all2 (placed p heap) nx es" "heap_grown (lc_heap p) heap" "distinct (map ep_instance (es @ eps))"
    and "fold (lc_place (lc_existing p)) eps (heap, nx) = (heap', nx')"
  shows "list_all2 (placed p heap') nx' (es @ eps) \<and> heap_grown (lc_heap p) heap'"
  using assms(2-)
proof (induction eps arbitrary: heap nx es)
  case (Cons ep eps)
  obtain heap1 nx1 where st: "lc_place (lc_existing p) ep (heap, nx) = (heap1, nx1)" by fastforce
  have "list_all2 (placed p heap1) nx1 (es @ [ep]) \<and> heap_grown (lc_heap p) heap1"
    by (rule lc_place_step [OF assms(1) Cons.prems(1,2) _ st]) (use Cons.prems(3) in auto)
  then show ?case using Cons.IH [of heap1 nx1 "es @ [ep]"] Cons.prems(3,4) st by simp
qed simp

lemma lc_update_placed:
  assumes "lc_ok p" "distinct (map ep_instance eps)"
  shows "list_all2 (placed p (lc_heap (lc_update eps p))) (lc_nodes (lc_update eps p)) eps"
    "heap_grown (lc_heap p) (lc_heap (lc_update eps p))"
proof -
  obtain heap nx where f: "fold (lc_place (lc_existing p)) eps (lc_heap p, []) = (heap, nx)" by fastforce
  have "list_all2 (placed p heap) nx ([] @ eps) \<and> heap_grown (lc_heap p) heap"
    by (rule lc_place_fold [OF assms(1) _ _ _ f]) (use assms(2) in \<open>simp_all add: heap_grown_def\<close>)
  then show "list_all2 (placed p (lc_heap (lc_update eps p))) (lc_nodes (lc_update eps p)) eps"
    "heap_grown (lc_heap p) (lc_heap (lc_update eps p))" using f by (simp_all add: lc_update_def)
qed

lemma lc_update_members:
  assumes "lc_ok p" "distinct (map ep_instance eps)"
  shows "lc_members (lc_update eps p) = eps \<and> lc_ok (lc_update eps p)"
proof -
  let ?p = "lc_update eps p"
  have l: "list_all2 (placed p (lc_heap ?p)) (lc_nodes ?p) eps" by (rule lc_update_placed(1) [OF assms])
  then have m: "lc_members ?p = eps"
    unfolding lc_members_def by (intro nth_equalityI) (auto simp: list_all2_conv_all_nth placed_def)
  have "\<forall>a \<in> set (lc_nodes ?p). a < length (lc_heap ?p)"
    using l by (auto simp: list_all2_conv_all_nth placed_def in_set_conv_nth)
  then show ?thesis using m assms(2) by (simp add: lc_ok_def)
qed

lemma lc_inv_step:
  assumes "lc_step (p, out) (p', out')" "lc_inv p out"
  shows "lc_inv p' out'"
  using assms(1)
proof cases
  case (lc_updated eps)
  have ok: "lc_ok p" using assms(2) by (simp add: lc_inv_def)
  have g: "heap_grown (lc_heap p) (lc_heap p')" using lc_update_placed(2) [OF ok] lc_updated by simp
  have "lc_ok p'" using lc_update_members [OF ok] lc_updated by simp
  moreover have "count out a = 0" if "length (lc_heap p) \<le> a" for a
    using assms(2) that by (auto simp: lc_inv_def count_eq_zero_iff)
  ultimately show ?thesis using g assms(2) lc_updated by (auto simp: lc_inv_def heap_grown_def)
next
  case (lc_counted a)
  have "int (count out a) < 2 ^ 62"
    using lc_counted(4) count_le_size [of out a] by simp
  then have "wrap64 (int (count out a) + 1) = int (count out a) + 1" by (intro wrap64_id) (simp add: in64_def)
  then show ?thesis using lc_counted assms(2) by (auto simp: lc_inv_def)
next
  case (lc_finished a)
  have a: "a < length (lc_heap p)" "0 < count out a" using assms(2) lc_finished by (auto simp: lc_inv_def)
  have "int (count out a) \<le> 2 ^ 62" using assms(2) count_le_size [of out a] by (simp add: lc_inv_def)
  then have "wrap64 (int (count out a) - 1) = int (count out a) - 1" using a(2) by (intro wrap64_id) (simp add: in64_def)
  moreover have "int (count out a - 1) = int (count out a) - 1" using a(2) by simp
  ultimately show ?thesis using lc_finished a assms(2)
    by (auto simp: lc_inv_def lc_done_def size_Diff_singleton dest: in_diffD)
qed

lemma lc_reachable_inv: "lc_reachable (p, out) \<Longrightarrow> lc_inv p out"
proof -
  have "lc_reachable s \<Longrightarrow> lc_inv (fst s) (snd s)" for s
  proof (induction rule: lc_reachable.induct)
    case lc_start
    then show ?case by (simp add: lc_inv_def lc_ok_def new_least_connections_def lc_members_def)
  next
    case (lc_next s t)
    then show ?case using lc_inv_step by (metis prod.collapse)
  qed
  from this [of "(p, out)"] show "lc_reachable (p, out) \<Longrightarrow> lc_inv p out" by simp
qed

section \<open>The pickers meet the contract\<close>

definition wrr_members :: "wrr_picker \<Rightarrow> endpoint list" where
  "wrr_members p = map wn_endpoint (wrr_nodes p)"

fun picker_members :: "any_picker \<Rightarrow> endpoint list" where
  "picker_members (RRPicker p) = rr_members p"
| "picker_members (WRRPicker p) = wrr_members p"
| "picker_members (LCPicker p) = lc_members p"

fun picker_ok :: "any_picker \<Rightarrow> bool" where
  "picker_ok (LCPicker p) = lc_ok p"
| "picker_ok _ = True"

lemma index_in_range: "0 < n \<Longrightarrow> unat ((i :: 64 word) mod of_nat n) < n"
proof (cases "(of_nat n :: 64 word) = 0")
  case True
  assume "0 < n"
  have "n mod 2 ^ 64 = 0" using True unat_of_nat [of n, where 'a = 64] by simp
  then have "2 ^ 64 dvd n" by (simp only: mod_eq_0_iff_dvd)
  then have "2 ^ 64 \<le> n" using \<open>0 < n\<close> by (rule dvd_imp_le)
  moreover have "unat i < 2 ^ 64" using unsigned_less [of i] by simp
  ultimately show ?thesis using True by simp
next
  case False
  have "unat (i mod of_nat n) < unat (of_nat n :: 64 word)" using False by (simp add: unat_mod unat_gt_0)
  also have "\<dots> \<le> n" by (simp add: unat_of_nat)
  finally show ?thesis .
qed

lemma rr_pick_member:
  "rr_members p \<noteq> [] \<Longrightarrow> \<exists>e p'. rr_pick p = (Inr e, p') \<and> e \<in> set (rr_members p) \<and> rr_members p' = rr_members p"
  using index_in_range [of "length (rr_members p)"]
  by (auto simp: rr_members_def rr_pick_def Let_def split: option.splits)

lemma map_endpoint_upd:
  "i < length ns \<Longrightarrow> map wn_endpoint (ns[i := (ns ! i)\<lparr>wn_current := c\<rparr>]) = map wn_endpoint ns"
  by (rule nth_equalityI) (auto simp: nth_list_update)

lemma wrr_scan_shape:
  "k \<le> length nodes \<Longrightarrow> fold wrr_step [0..<k] (nodes, 0, 0) = (nodes', t, b) \<Longrightarrow>
   map wn_endpoint nodes' = map wn_endpoint nodes \<and> b < max 1 k"
proof (induction k arbitrary: nodes' t b)
  case (Suc k)
  obtain ns1 t1 b1 where f: "fold wrr_step [0..<k] (nodes, 0, 0) = (ns1, t1, b1)" by (metis prod.exhaust)
  from Suc.IH [OF _ this] Suc.prems(1) have ih: "map wn_endpoint ns1 = map wn_endpoint nodes" "b1 < max 1 k" by simp_all
  have len: "k < length ns1" using Suc.prems(1) ih(1) by (metis Suc_le_eq length_map)
  have "wrr_step k (ns1, t1, b1) = (nodes', t, b)" using Suc.prems(2) f by simp
  then show ?case using map_endpoint_upd [OF len] ih unfolding wrr_step_def Let_def by (auto split: if_splits)
qed auto

lemma wrr_pick_member:
  assumes "wrr_members p \<noteq> []"
  shows "\<exists>e p'. wrr_pick p = (Inr e, p') \<and> e \<in> set (wrr_members p) \<and> wrr_members p' = wrr_members p"
proof -
  obtain ns t b where f: "fold wrr_step [0..<length (wrr_nodes p)] (wrr_nodes p, 0, 0) = (ns, t, b)" by (metis prod.exhaust)
  have ne: "wrr_nodes p \<noteq> []" using assms by (simp add: wrr_members_def)
  then have "max 1 (length (wrr_nodes p)) = length (wrr_nodes p)" by (cases "wrr_nodes p") auto
  with wrr_scan_shape [OF le_refl f] have sh: "map wn_endpoint ns = map wn_endpoint (wrr_nodes p)" "b < length ns"
    by (metis length_map)+
  have "wn_endpoint (ns ! b) \<in> set (map wn_endpoint ns)" using sh(2) by simp
  then show ?thesis using ne f sh(1) map_endpoint_upd [OF sh(2)] by (simp add: wrr_pick_def wrr_members_def)
qed

lemma lc_pick_member:
  assumes "lc_ok p" "lc_members p \<noteq> []"
  shows "\<exists>e a p'. lc_pick p = (Inr (e, a), p') \<and> e \<in> set (lc_members p) \<and> lc_ok p' \<and> lc_members p' = lc_members p"
proof -
  have "lc_nodes p \<noteq> []" using assms(2) by (simp add: lc_members_def)
  from lc_select_min [OF this] obtain a where a: "lc_select p = Some a" "a \<in> set (lc_nodes p)" by blast
  then have "ln_endpoint (lc_heap p ! a) \<in> set (lc_members p)" by (simp add: lc_members_def)
  then show ?thesis using a assms(1) by (simp add: lc_pick_def Let_def)
qed

interpretation pickers: picker picker_update picker_pick picker_done picker_members picker_ok
proof
  fix p :: any_picker and eps :: "endpoint list"
  assume ok: "picker_ok p"
  show "distinct (map ep_instance eps) \<Longrightarrow> picker_ok (picker_update eps p) \<and> picker_members (picker_update eps p) = eps"
    using ok lc_update_members by (cases p) (auto simp: rr_update_def rr_members_def wrr_update_def wrr_members_def o_def)
  show "picker_members p = [] \<Longrightarrow> picker_pick p = (Inl ErrNoLBEndpoint, p)"
    by (cases p) (auto simp: rr_members_def rr_pick_def wrr_members_def wrr_pick_def lc_members_def lc_pick_def lc_select_def
        split: option.splits)
  show "picker_members p \<noteq> [] \<Longrightarrow> \<exists>e d p'. picker_pick p = (Inr (e, d), p') \<and> e \<in> set (picker_members p) \<and>
      picker_ok p' \<and> picker_members p' = picker_members p"
  proof (cases p)
    case (RRPicker q)
    assume "picker_members p \<noteq> []"
    with RRPicker rr_pick_member [of q] show ?thesis by auto
  next
    case (WRRPicker q)
    assume "picker_members p \<noteq> []"
    with WRRPicker wrr_pick_member [of q] show ?thesis by auto
  next
    case (LCPicker q)
    assume "picker_members p \<noteq> []"
    with LCPicker lc_pick_member [of q] ok show ?thesis by auto
  qed
next
  fix p :: any_picker and d :: done_func
  assume "picker_ok p"
  then show "picker_ok (picker_done d p) \<and> picker_members (picker_done d p) = picker_members p"
    by (cases "(d, p)" rule: picker_done.cases) (simp_all add: lc_done_def)
qed

section \<open>Properties\<close>

definition demo_ep :: "string \<Rightarrow> string \<Rightarrow> endpoint" where
  "demo_ep inst addr = \<lparr>ep_service = ''echo'', ep_instance = inst, ep_address = addr, ep_metadata = None\<rparr>"

text \<open>
  Round robin is exact. As long as the 64-bit ticket does not wrap, the picks walk the endpoint
  list in order, so that any window of as many consecutive picks as there are endpoints takes
  every endpoint exactly once.
\<close>

theorem rr_fair:
  assumes "rr_snapshot p = Some eps" "eps \<noteq> []" "length eps < 2 ^ 64" "unat (rr_next p) + n < 2 ^ 64"
    and "run_picks rr_pick n p = (rs, p')"
  shows "(\<forall>j < n. rs ! j = Inr (eps ! ((unat (rr_next p) + j) mod length eps))) \<and>
     (\<forall>i. i + length eps \<le> n \<longrightarrow> mset (take (length eps) (drop i rs)) = mset (map Inr eps))"
proof -
  have rs: "rs = map (\<lambda>j. Inr (eps ! ((unat (rr_next p) + j) mod length eps))) [0..<n]"
    using rr_run [OF assms(1-4)] assms(5) by simp
  have "mset (take (length eps) (drop i rs)) = mset (map Inr eps)" if "i + length eps \<le> n" for i
  proof -
    have "take (length eps) (drop i rs) = map Inr (map (\<lambda>j. eps ! ((unat (rr_next p) + i + j) mod length eps)) [0..<length eps])"
      unfolding rs using that by (intro nth_equalityI) (auto simp: add.assoc)
    then show ?thesis using mset_rotation [OF assms(2), of "unat (rr_next p) + i"] by (simp only: mset_map)
  qed
  then show ?thesis using rs by simp
qed

theorem rr_fair_witness:
  "mset (take 2 (drop 1 (fst (run_picks rr_pick 3 \<lparr>rr_snapshot = Some [demo_ep ''a'' ''x'', demo_ep ''b'' ''y''], rr_next = 5\<rparr>)))) =
     {#Inr (demo_ep ''a'' ''x''), Inr (demo_ep ''b'' ''y'')#}"
proof -
  let ?p = "\<lparr>rr_snapshot = Some [demo_ep ''a'' ''x'', demo_ep ''b'' ''y''], rr_next = 5\<rparr>"
  obtain rs p' where run: "run_picks rr_pick 3 ?p = (rs, p')" by fastforce
  have "mset (take (length [demo_ep ''a'' ''x'', demo_ep ''b'' ''y'']) (drop 1 rs)) = mset (map Inr [demo_ep ''a'' ''x'', demo_ep ''b'' ''y''])"
    using rr_fair [OF _ _ _ _ run, of "[demo_ep ''a'' ''x'', demo_ep ''b'' ''y'']"] by simp
  then show ?thesis using run by (simp add: numeral_2_eq_2)
qed

text \<open>
  C16: weighted round robin is proportional. After any number \<open>k\<close> of picks from a fresh update, the
  number of times an endpoint of weight \<open>w\<close> was picked is less than one above its exact share
  \<open>k w / W\<close> and at most \<open>m - 1\<close> below it, for \<open>m\<close> endpoints of total weight \<open>W\<close>; after a full cycle of \<open>W\<close>
  picks it is exactly \<open>w\<close>. The bound on \<open>m W\<close> excludes overflow.
\<close>

theorem wrr_fair:
  assumes "eps \<noteq> []" "distinct eps" "W = sum_list (map endpoint_weight eps)" "int (length eps) * W < 2 ^ 63"
    and "run_picks wrr_pick k (wrr_update eps p) = (rs, p')" "e \<in> set eps" "n = int (count_list rs (Inr e))"
  shows "W * n < int k * endpoint_weight e + W \<and>
     int k * endpoint_weight e \<le> W * n + (int (length eps) - 1) * W \<and>
     (int k = W \<longrightarrow> n = endpoint_weight e)"
proof -
  let ?q = "wrr_update eps p"
  have maps: "map wn_weight (wrr_nodes ?q) = map endpoint_weight eps" "map wn_endpoint (wrr_nodes ?q) = eps"
    "length (wrr_nodes ?q) = length eps" by (simp_all add: wrr_update_def o_def)
  have inv0: "wrr_inv (wrr_nodes ?q)" using assms(1,3,4) by (intro wrr_inv_update) simp_all
  have run: "wrr_inv (wrr_nodes p')" "length (wrr_nodes p') = length eps" "wn_total (wrr_nodes p') = W"
    and cur: "\<And>i. i < length eps \<Longrightarrow> wn_current (wrr_nodes p' ! i) =
        int k * endpoint_weight (eps ! i) - W * int (count_list rs (Inr (eps ! i)))"
    using wrr_run [OF inv0 _ assms(5)] assms(2,3) maps by (auto simp: wrr_update_def o_def)
  obtain i where i: "i < length eps" "eps ! i = e" using assms(6) by (metis in_set_conv_nth)
  have mem: "wrr_nodes p' ! i \<in> set (wrr_nodes p')" using i run(2) by simp
  have c: "wn_current (wrr_nodes p' ! i) = int k * endpoint_weight e - W * n" using cur [OF i(1)] i(2) assms(7) by simp
  have low: "- W < wn_current (wrr_nodes p' ! i)" using run(1,3) mem by (simp add: wrr_inv_def)
  have up: "wn_current (wrr_nodes p' ! i) \<le> (int (length eps) - 1) * W"
    using wrr_inv_bounds(4) [OF run(1) mem] run(2,3) by simp
  have "n = endpoint_weight e" if kW: "int k = W"
  proof -
    have W: "0 < W" using wrr_inv_bounds(1) [OF run(1)] run(3) by simp
    have nonneg: "0 \<le> wn_current x" if xm: "x \<in> set (wrr_nodes p')" for x
    proof -
      obtain j where j: "j < length eps" "x = wrr_nodes p' ! j" using xm run(2) by (auto simp: in_set_conv_nth)
      let ?d = "endpoint_weight (eps ! j) - int (count_list rs (Inr (eps ! j)))"
      have x: "wn_current x = W * ?d" unfolding j(2) cur [OF j(1)] kW by (simp only: right_diff_distrib)
      moreover have "- W < wn_current x" using run(1,3) xm by (simp add: wrr_inv_def)
      ultimately have "W * - 1 < W * ?d" by simp
      then have "- 1 < ?d" using W by (simp only: mult_less_cancel_left_pos)
      then show ?thesis using x W by simp
    qed
    have "sum_list (map wn_current (wrr_nodes p')) = 0" using run(1) by (simp add: wrr_inv_def)
    then have "wn_current (wrr_nodes p' ! i) = 0"
      using sum_list_nonneg_eq_0_iff [of "map wn_current (wrr_nodes p')"] nonneg mem by auto
    then have "W * endpoint_weight e = W * n" using c unfolding kW by simp
    then show ?thesis using W by simp
  qed
  then show ?thesis using c low up by (simp add: algebra_simps)
qed

theorem wrr_fair_witness:
  "count_list (fst (run_picks wrr_pick 2 (wrr_update [demo_ep ''a'' ''x'', demo_ep ''b'' ''y''] \<lparr>wrr_nodes = []\<rparr>))) (Inr (demo_ep ''a'' ''x'')) = 1"
proof -
  let ?eps = "[demo_ep ''a'' ''x'', demo_ep ''b'' ''y'']"
  obtain rs p' where run: "run_picks wrr_pick 2 (wrr_update ?eps \<lparr>wrr_nodes = []\<rparr>) = (rs, p')" by fastforce
  have w: "endpoint_weight (demo_ep i a) = 1" for i a by (simp add: endpoint_weight_def demo_ep_def)
  have "int (count_list rs (Inr (demo_ep ''a'' ''x''))) = endpoint_weight (demo_ep ''a'' ''x'')"
    using wrr_fair [OF _ _ refl _ run, of "demo_ep ''a'' ''x''", OF _ _ _ _ refl] w by (simp add: demo_ep_def)
  then show ?thesis using run w by simp
qed



end
