(* ===== verification/Resolver.thy ===== *)
theory Resolver
  imports Load_Balance
begin

text \<open>
  \<^verbatim>\<open>internal/loadbalance/resolver.go\<close>: one picker per service, updated when the fingerprint of the
  listed endpoints changes. The list the source returned is an argument of \<open>resolver_pick\<close>; the
  interface of the source is the locale \<open>endpoint_lister\<close> of \<open>Discovery\<close>, which is extended here by
  what the resolver guarantees for any such source.
\<close>

section \<open>Data and operations\<close>

record service_picker =
  sp_picker :: any_picker
  sp_fingerprint :: string

record resolver =
  rs_algorithm :: algorithm
  rs_services :: "(string, service_picker) gomap"

text \<open>\<open>NilPicker\<close> is the nil interface call that an unknown algorithm would lead to.\<close>

datatype resolver_error = ErrNilSource | ErrLB lb_error | NilPicker

definition new_resolver :: "bool \<Rightarrow> algorithm \<Rightarrow> resolver_error + resolver" where
  "new_resolver source_nil a =
     (if source_nil then Inl ErrNilSource
      else case new_picker a of
             Inl e \<Rightarrow> Inl (ErrLB e)
           | Inr _ \<Rightarrow> Inr \<lparr>rs_algorithm = a, rs_services = []\<rparr>)"

definition fingerprint_part :: "endpoint \<Rightarrow> string" where
  "fingerprint_part ep = ep_instance ep @ ''='' @ ep_address ep @ ''@'' @ itoa (endpoint_weight ep)"

definition endpoint_fingerprint :: "endpoint list \<Rightarrow> string" where
  "endpoint_fingerprint eps = join_with CHR ''|'' (sort (map fingerprint_part eps))"

definition resolver_pick ::
  "string \<Rightarrow> endpoint list \<Rightarrow> resolver \<Rightarrow> (resolver_error + string \<times> done_func) \<times> resolver" where
  "resolver_pick service endpoints r =
     (let fp = endpoint_fingerprint endpoints
      in case (case gm_get (rs_services r) service of
                 Some st \<Rightarrow> Inr st
               | None \<Rightarrow> (case new_picker (rs_algorithm r) of
                           Inl _ \<Rightarrow> Inl NilPicker
                         | Inr p \<Rightarrow> Inr \<lparr>sp_picker = p, sp_fingerprint = []\<rparr>)) of
           Inl e \<Rightarrow> (Inl e, r)
         | Inr st \<Rightarrow>
             (let st = (if sp_fingerprint st \<noteq> fp
                        then \<lparr>sp_picker = picker_update endpoints (sp_picker st), sp_fingerprint = fp\<rparr> else st);
                  (res, p) = picker_pick (sp_picker st);
                  r = r\<lparr>rs_services := gm_set service (st\<lparr>sp_picker := p\<rparr>) (rs_services r)\<rparr>
              in case res of
                   Inl e \<Rightarrow> (Inl (ErrLB e), r)
                 | Inr (ep, d) \<Rightarrow> (Inr (ep_address ep, d), r)))"

text \<open>The \<open>done\<close> function handed out by \<open>Pick\<close>, run on the picker of its service.\<close>

definition resolver_done :: "string \<Rightarrow> done_func \<Rightarrow> resolver \<Rightarrow> resolver" where
  "resolver_done service d r =
     (case gm_get (rs_services r) service of
        None \<Rightarrow> r
      | Some st \<Rightarrow> r\<lparr>rs_services := gm_set service (st\<lparr>sp_picker := picker_done d (sp_picker st)\<rparr>) (rs_services r)\<rparr>)"

definition resolver_resolve :: "string \<Rightarrow> endpoint list \<Rightarrow> resolver \<Rightarrow> (resolver_error + string) \<times> resolver" where
  "resolver_resolve service endpoints r =
     (case resolver_pick service endpoints r of
        (Inl e, r) \<Rightarrow> (Inl e, r)
      | (Inr (address, d), r) \<Rightarrow> (Inr address, resolver_done service d r))"

section \<open>The fingerprint\<close>

text \<open>Names that cannot be confused with the separators of a fingerprint.\<close>

definition clean_name :: "endpoint \<Rightarrow> bool" where
  "clean_name ep \<longleftrightarrow> CHR ''='' \<notin> set (ep_instance ep) \<and> CHR ''|'' \<notin> set (ep_instance ep) \<and> CHR ''|'' \<notin> set (ep_address ep)"

lemma itoa_no_at: "CHR ''@'' \<notin> set (itoa n)" "CHR ''|'' \<notin> set (itoa n)"
  using itoa_chars [of "CHR ''@''" n] itoa_chars [of "CHR ''|''" n] by (auto simp: is_digit_def)

lemma last_sep_inj:
  assumes "a @ c # s = b @ c # t" "c \<notin> set s" "c \<notin> set t"
  shows "a = b \<and> s = (t :: string)"
proof -
  have "rev s @ c # rev a = rev t @ c # rev b" using assms(1) by (metis append.assoc append_Cons append_Nil rev.simps(2) rev_append)
  from append_sep_inj [OF this] show ?thesis using assms(2,3) by simp
qed

lemma fingerprint_part_inj:
  assumes "fingerprint_part e = fingerprint_part f" "clean_name e" "clean_name f"
  shows "ep_instance e = ep_instance f \<and> ep_address e = ep_address f"
proof -
  have "ep_instance e @ CHR ''='' # (ep_address e @ CHR ''@'' # itoa (endpoint_weight e)) =
      ep_instance f @ CHR ''='' # (ep_address f @ CHR ''@'' # itoa (endpoint_weight f))"
    using assms(1) by (simp add: fingerprint_part_def)
  from append_sep_inj [OF this] assms(2,3)
  have "ep_instance e = ep_instance f"
    "ep_address e @ CHR ''@'' # itoa (endpoint_weight e) = ep_address f @ CHR ''@'' # itoa (endpoint_weight f)"
    by (simp_all add: clean_name_def)
  then show ?thesis using last_sep_inj itoa_no_at by blast
qed

lemma join_parts_inj:
  assumes "join_with c ws = join_with c vs" "\<And>w. w \<in> set ws \<union> set vs \<Longrightarrow> c \<notin> set w \<and> w \<noteq> []"
  shows "ws = vs"
proof (cases "ws = [] \<or> vs = []")
  case True
  have ne: "join_with c us \<noteq> []" if "us \<noteq> []" "\<And>w. w \<in> set us \<Longrightarrow> w \<noteq> []" for us
    using that by (cases us; cases "tl us") auto
  show ?thesis
  proof (rule ccontr)
    assume "ws \<noteq> vs"
    with True consider "ws = []" "vs \<noteq> []" | "vs = []" "ws \<noteq> []" by blast
    then show False
    proof cases
      case 1
      have "join_with c vs \<noteq> []" by (rule ne) (use 1 assms(2) in blast)+
      with assms(1) 1 show False by simp
    next
      case 2
      have "join_with c ws \<noteq> []" by (rule ne) (use 2 assms(2) in blast)+
      with assms(1) 2 show False by simp
    qed
  qed
next
  case False
  have "split_on c (join_with c ws) = ws" "split_on c (join_with c vs) = vs"
    by (rule split_join; use False assms(2) in blast)+
  then show ?thesis unfolding assms(1) by (simp only:)
qed

lemma fingerprint_mset:
  assumes "endpoint_fingerprint es = endpoint_fingerprint fs" "\<And>e. e \<in> set es \<union> set fs \<Longrightarrow> clean_name e"
  shows "mset (map fingerprint_part es) = mset (map fingerprint_part fs)"
proof -
  have part: "CHR ''|'' \<notin> set (fingerprint_part e) \<and> fingerprint_part e \<noteq> []" if "clean_name e" for e
    using that itoa_no_at(2) by (simp add: fingerprint_part_def clean_name_def)
  have "sort (map fingerprint_part es) = sort (map fingerprint_part fs)"
    by (rule join_parts_inj [of "CHR ''|''"]) (use assms part in \<open>auto simp: endpoint_fingerprint_def\<close>)
  then show ?thesis by (metis mset_sort)
qed

lemma fingerprint_addresses:
  assumes "endpoint_fingerprint es = endpoint_fingerprint fs" "\<And>e. e \<in> set es \<union> set fs \<Longrightarrow> clean_name e" "e \<in> set es"
  shows "ep_address e \<in> ep_address ` set fs"
proof -
  have "set (map fingerprint_part es) = set (map fingerprint_part fs)"
    using fingerprint_mset [OF assms(1,2)] by (rule mset_eq_setD)
  then have "fingerprint_part e \<in> fingerprint_part ` set fs" using assms(3) by auto
  then obtain f where f: "f \<in> set fs" "fingerprint_part e = fingerprint_part f" by blast
  then have "ep_address e = ep_address f" using fingerprint_part_inj assms(2,3) by blast
  then show ?thesis using f(1) by simp
qed

lemma fingerprint_empty_iff: "endpoint_fingerprint es = endpoint_fingerprint fs \<Longrightarrow>
   (\<And>e. e \<in> set es \<union> set fs \<Longrightarrow> clean_name e) \<Longrightarrow> es = [] \<longleftrightarrow> fs = []"
  using fingerprint_mset [of es fs] by (metis list.map_disc_iff mset_zero_iff)

section \<open>Invariant\<close>

text \<open>Each picker holds a list of clean endpoints with the remembered fingerprint.\<close>

definition service_ok :: "service_picker \<Rightarrow> bool" where
  "service_ok st \<longleftrightarrow> picker_ok (sp_picker st) \<and> (\<forall>e \<in> set (picker_members (sp_picker st)). clean_name e) \<and>
     sp_fingerprint st = endpoint_fingerprint (picker_members (sp_picker st))"

definition resolver_ok :: "resolver \<Rightarrow> bool" where
  "resolver_ok r \<longleftrightarrow> (\<exists>p. new_picker (rs_algorithm r) = Inr p) \<and>
     (\<forall>service st. gm_get (rs_services r) service = Some st \<longrightarrow> service_ok st)"

lemma service_ok_new: "new_picker a = Inr p \<Longrightarrow> service_ok \<lparr>sp_picker = p, sp_fingerprint = []\<rparr>"
  by (auto simp: new_picker_def service_ok_def endpoint_fingerprint_def new_round_robin_def new_weighted_round_robin_def
      new_least_connections_def rr_members_def wrr_members_def lc_members_def lc_ok_def split: algorithm.splits)

lemma resolver_ok_new: "new_resolver nil a = Inr r \<Longrightarrow> resolver_ok r"
  by (auto simp: new_resolver_def resolver_ok_def split: if_splits sum.splits)

lemma resolver_ok_upd: "resolver_ok r \<Longrightarrow> service_ok st \<Longrightarrow> resolver_ok (r\<lparr>rs_services := gm_set service st (rs_services r)\<rparr>)"
  by (auto simp: resolver_ok_def split: if_splits)

text \<open>The state of a service once it is brought up to date with the listed endpoints.\<close>

definition refreshed :: "endpoint list \<Rightarrow> service_picker \<Rightarrow> service_picker" where
  "refreshed endpoints st = (if sp_fingerprint st \<noteq> endpoint_fingerprint endpoints
     then \<lparr>sp_picker = picker_update endpoints (sp_picker st), sp_fingerprint = endpoint_fingerprint endpoints\<rparr> else st)"

lemma refreshed_ok:
  assumes "service_ok st" "distinct (map ep_instance endpoints)" "\<forall>e \<in> set endpoints. clean_name e"
  shows "service_ok (refreshed endpoints st) \<and>
     sp_fingerprint (refreshed endpoints st) = endpoint_fingerprint endpoints"
proof (cases "sp_fingerprint st = endpoint_fingerprint endpoints")
  case True
  then show ?thesis using assms(1) by (simp add: refreshed_def)
next
  case False
  have "picker_ok (sp_picker st)" using assms(1) by (simp add: service_ok_def)
  from pickers.upd_members [OF this assms(2)] show ?thesis
    using False assms(3) by (simp add: refreshed_def service_ok_def)
qed

lemma resolver_pick_eq:
  assumes "resolver_ok r"
  shows "\<exists>st. service_ok st \<and> resolver_pick service endpoints r =
     (case picker_pick (sp_picker (refreshed endpoints st)) of (res, p) \<Rightarrow>
        (map_sum ErrLB (map_prod ep_address id) res,
         r\<lparr>rs_services := gm_set service ((refreshed endpoints st)\<lparr>sp_picker := p\<rparr>) (rs_services r)\<rparr>))"
proof -
  obtain p0 where p0: "new_picker (rs_algorithm r) = Inr p0" using assms by (auto simp: resolver_ok_def)
  define st where "st = (case gm_get (rs_services r) service of Some st \<Rightarrow> st | None \<Rightarrow> \<lparr>sp_picker = p0, sp_fingerprint = []\<rparr>)"
  have "service_ok st" unfolding st_def using assms service_ok_new [OF p0] by (auto simp: resolver_ok_def split: option.splits)
  moreover have "(case gm_get (rs_services r) service of Some st \<Rightarrow> Inr st
      | None \<Rightarrow> (case new_picker (rs_algorithm r) of Inl _ \<Rightarrow> Inl NilPicker | Inr p \<Rightarrow> Inr \<lparr>sp_picker = p, sp_fingerprint = []\<rparr>)) = Inr st"
    by (simp add: st_def p0 split: option.splits)
  ultimately show ?thesis
    by (intro exI [of _ st]) (auto simp: resolver_pick_def Let_def refreshed_def split: prod.split sum.split)
qed

lemma resolver_ok_done: "resolver_ok r \<Longrightarrow> resolver_ok (resolver_done service d r)"
proof (cases "gm_get (rs_services r) service")
  case (Some st)
  assume r: "resolver_ok r"
  then have st: "service_ok st" using Some by (auto simp: resolver_ok_def)
  then have "service_ok (st\<lparr>sp_picker := picker_done d (sp_picker st)\<rparr>)"
    using pickers.fin_members [of "sp_picker st" d] by (simp add: service_ok_def)
  from resolver_ok_upd [OF r this] show ?thesis using Some by (simp add: resolver_done_def)
qed (simp add: resolver_done_def)

text \<open>What a caller of the resolver may expect of an answer, given the endpoints listed for the service.\<close>

definition answer_ok :: "endpoint list \<Rightarrow> resolver_error + string \<times> done_func \<Rightarrow> bool" where
  "answer_ok eps out \<longleftrightarrow>
     (case out of Inl e \<Rightarrow> e = ErrLB ErrNoLBEndpoint \<and> eps = []
      | Inr (address, _) \<Rightarrow> address \<in> ep_address ` set eps)"

context endpoint_lister
begin

lemma pick_listed:
  assumes "lister_ok c" "resolver_ok r" "\<forall>e \<in> set (lister c svc). clean_name e"
    and "resolver_pick svc (lister c svc) r = (out, r')"
  shows "resolver_ok r' \<and> answer_ok (lister c svc) out"
proof -
  let ?eps = "lister c svc"
  from resolver_pick_eq [OF assms(2)] obtain st where st: "service_ok st"
    and eq: "resolver_pick svc ?eps r = (case picker_pick (sp_picker (refreshed ?eps st)) of (res, p) \<Rightarrow>
        (map_sum ErrLB (map_prod ep_address id) res,
         r\<lparr>rs_services := gm_set svc ((refreshed ?eps st)\<lparr>sp_picker := p\<rparr>) (rs_services r)\<rparr>))" by blast
  let ?st = "refreshed ?eps st"
  obtain res p where pp: "picker_pick (sp_picker ?st) = (res, p)" by fastforce
  note ref = refreshed_ok [OF st lister_distinct [OF assms(1)] assms(3)]
  then have ok: "picker_ok (sp_picker ?st)" "\<forall>e \<in> set (picker_members (sp_picker ?st)). clean_name e"
    and fp: "endpoint_fingerprint (picker_members (sp_picker ?st)) = endpoint_fingerprint ?eps"
    by (auto simp: service_ok_def)
  note pc = pickers.pick_cases [OF ok(1) pp]
  have "service_ok (?st\<lparr>sp_picker := p\<rparr>)" using ref pc by (auto simp: service_ok_def)
  from resolver_ok_upd [OF assms(2) this, of svc] have "resolver_ok r'" using assms(4) eq pp by auto
  moreover have "answer_ok ?eps out"
  proof (cases res)
    case (Inl e)
    then have "e = ErrNoLBEndpoint" "picker_members (sp_picker ?st) = []" using pc by auto
    moreover from this have "?eps = []" using fingerprint_empty_iff [OF fp] ok(2) assms(3) by auto
    ultimately show ?thesis using Inl assms(4) eq pp by (simp add: answer_ok_def)
  next
    case (Inr x)
    obtain e d where x: "x = (e, d)" by fastforce
    then have "e \<in> set (picker_members (sp_picker ?st))" using pc Inr by auto
    then have "ep_address e \<in> ep_address ` set ?eps"
      using fingerprint_addresses [OF fp] ok(2) assms(3) by blast
    then show ?thesis using Inr x assms(4) eq pp by (auto simp: answer_ok_def)
  qed
  ultimately show ?thesis ..
qed

end

section \<open>Runs\<close>

datatype resolver_call = PickCall string cache | DoneCall string done_func

fun resolver_run :: "resolver_call list \<Rightarrow> resolver \<Rightarrow> (string \<times> cache \<times> (resolver_error + string \<times> done_func)) list \<times> resolver" where
  "resolver_run [] r = ([], r)"
| "resolver_run (PickCall svc c # cs) r =
     (let (out, r) = resolver_pick svc (list_cache c svc) r; (outs, r) = resolver_run cs r in ((svc, c, out) # outs, r))"
| "resolver_run (DoneCall svc d # cs) r = resolver_run cs (resolver_done svc d r)"

lemma resolver_run_ok:
  assumes "resolver_ok r" "\<And>svc c. PickCall svc c \<in> set calls \<Longrightarrow> cache_wf c \<and> (\<forall>e \<in> set (list_cache c svc). clean_name e)"
    and "resolver_run calls r = (outs, r')" "(svc, c, out) \<in> set outs"
  shows "answer_ok (list_cache c svc) out"
  using assms
proof (induction calls r arbitrary: outs rule: resolver_run.induct)
  case (2 s k cs r)
  obtain o1 r1 where p: "resolver_pick s (list_cache k s) r = (o1, r1)" by fastforce
  obtain outs1 where run: "resolver_run cs r1 = (outs1, r')" "outs = (s, k, o1) # outs1"
    using "2.prems"(3) p by (auto split: prod.splits)
  have wf: "cache_wf k" "\<forall>e \<in> set (list_cache k s). clean_name e" using "2.prems"(2) [of s k] by auto
  have pl: "resolver_ok r1" "answer_ok (list_cache k s) o1"
    using cache_lister.pick_listed [OF wf(1) "2.prems"(1) wf(2) p] by auto
  show ?case
  proof (cases "(svc, c, out) \<in> set outs1")
    case True
    then show ?thesis using "2.IH" [OF p [symmetric] refl pl(1) _ run(1) True] "2.prems"(2) by auto
  next
    case False
    then show ?thesis using "2.prems"(4) run(2) pl(2) by auto
  qed
next
  case (3 s d cs r)
  show ?case by (rule "3.IH") (use "3.prems" resolver_ok_done in auto)
qed simp

section \<open>Properties\<close>


definition demo_cache :: cache where
  "demo_cache = \<lparr>services = [(''echo'', [(''a'', demo_ep ''a'' ''h:1'')])], revision = 1\<rparr>"


text \<open>
  Finding: the fingerprint is ambiguous. When an address contains the separators, two different endpoint
  lists have the same fingerprint: after the second replaces the first the resolver keeps its
  picker and answers an address that is no longer listed.
\<close>

theorem fingerprint_collision:
  "let old = [demo_ep ''a'' ''x'', demo_ep ''b'' ''y'']; new = [demo_ep ''a'' ''x@1|b=y''];
       r = snd (resolver_pick ''echo'' old \<lparr>rs_algorithm = RoundRobin, rs_services = []\<rparr>)
   in endpoint_fingerprint old = endpoint_fingerprint new \<and>
      fst (resolver_pick ''echo'' new r) = Inr (''y'', NoDone) \<and> ''y'' \<notin> ep_address ` set new"
  by code_simp

end
