(* ===== verification/Float64.thy ===== *)
theory Float64
  imports Complex_Main "HOL-Library.Log_Nat" Mesh_Prelude
begin

text \<open>
  Go's \<open>float64\<close> (IEEE 754 binary64) and the parts of the \<open>time\<close> package that mix it with
  durations. A finite value is the rational it denotes; every operation rounds the exact result to
  the nearest value with a 53-bit significand, ties to even, with gradual underflow and overflow
  to infinity. The sign of a zero is not represented: MiniMesh never divides by a floating-point
  zero and never prints one, so it cannot be observed.
\<close>

subsection \<open>Rounding to 53 bits\<close>

definition ilog2 :: "rat \<Rightarrow> int" where
  "ilog2 x = (if 1 \<le> x then bitlen \<lfloor>x\<rfloor> - 1 else - bitlen (\<lceil>1 / x\<rceil> - 1))"

definition round_even :: "rat \<Rightarrow> int" where
  "round_even y =
     (let f = \<lfloor>y\<rfloor>; d = y - of_int f
      in if d < 1 / 2 then f else if 1 / 2 < d then f + 1 else if even f then f else f + 1)"

definition ulp_exp :: "rat \<Rightarrow> int" where
  "ulp_exp x = max (- 1074) (ilog2 x - 52)"

definition round_pos :: "rat \<Rightarrow> rat" where
  "round_pos x = (let e = ulp_exp x in of_int (round_even (x / 2 powi e)) * 2 powi e)"

definition rnd :: "rat \<Rightarrow> rat" where
  "rnd x = (if x = 0 then 0 else if 0 < x then round_pos x else - round_pos (- x))"

subsection \<open>Values and operations\<close>

datatype float64 = NaN | PInf | NInf | Fin rat

definition float_of_rat :: "rat \<Rightarrow> float64" where
  "float_of_rat x =
     (let y = rnd x in if 2 ^ 1024 \<le> y then PInf else if y \<le> - (2 ^ 1024) then NInf else Fin y)"

definition f_of_int :: "int \<Rightarrow> float64" where
  "f_of_int n = float_of_rat (of_int n)"

fun f_add :: "float64 \<Rightarrow> float64 \<Rightarrow> float64" where
  "f_add (Fin a) (Fin b) = float_of_rat (a + b)"
| "f_add NaN _ = NaN"
| "f_add _ NaN = NaN"
| "f_add PInf NInf = NaN"
| "f_add NInf PInf = NaN"
| "f_add PInf _ = PInf"
| "f_add _ PInf = PInf"
| "f_add NInf _ = NInf"
| "f_add _ NInf = NInf"

fun f_neg :: "float64 \<Rightarrow> float64" where
  "f_neg NaN = NaN"
| "f_neg PInf = NInf"
| "f_neg NInf = PInf"
| "f_neg (Fin a) = Fin (- a)"

definition f_sub :: "float64 \<Rightarrow> float64 \<Rightarrow> float64" where
  "f_sub x y = f_add x (f_neg y)"

definition f_inf_scaled :: "rat \<Rightarrow> float64" where
  "f_inf_scaled s = (if 0 < s then PInf else if s < 0 then NInf else NaN)"

fun f_mul :: "float64 \<Rightarrow> float64 \<Rightarrow> float64" where
  "f_mul (Fin a) (Fin b) = float_of_rat (a * b)"
| "f_mul NaN _ = NaN"
| "f_mul _ NaN = NaN"
| "f_mul PInf (Fin b) = f_inf_scaled b"
| "f_mul NInf (Fin b) = f_inf_scaled (- b)"
| "f_mul (Fin a) PInf = f_inf_scaled a"
| "f_mul (Fin a) NInf = f_inf_scaled (- a)"
| "f_mul PInf PInf = PInf"
| "f_mul NInf NInf = PInf"
| "f_mul PInf NInf = NInf"
| "f_mul NInf PInf = NInf"

fun f_div :: "float64 \<Rightarrow> float64 \<Rightarrow> float64" where
  "f_div (Fin a) (Fin b) = (if b = 0 then f_inf_scaled a else float_of_rat (a / b))"
| "f_div NaN _ = NaN"
| "f_div _ NaN = NaN"
| "f_div (Fin a) PInf = Fin 0"
| "f_div (Fin a) NInf = Fin 0"
| "f_div PInf (Fin b) = f_inf_scaled (if b = 0 then 1 else b)"
| "f_div NInf (Fin b) = f_inf_scaled (if b = 0 then - 1 else - b)"
| "f_div _ _ = NaN"

text \<open>Comparisons: every comparison with a NaN is false.\<close>

fun f_lt :: "float64 \<Rightarrow> float64 \<Rightarrow> bool" where
  "f_lt (Fin a) (Fin b) = (a < b)"
| "f_lt (Fin _) PInf = True"
| "f_lt NInf (Fin _) = True"
| "f_lt NInf PInf = True"
| "f_lt _ _ = False"

fun f_le :: "float64 \<Rightarrow> float64 \<Rightarrow> bool" where
  "f_le (Fin a) (Fin b) = (a \<le> b)"
| "f_le (Fin _) PInf = True"
| "f_le NInf (Fin _) = True"
| "f_le NInf PInf = True"
| "f_le PInf PInf = True"
| "f_le NInf NInf = True"
| "f_le _ _ = False"

fun is_fin :: "float64 \<Rightarrow> bool" where
  "is_fin (Fin _) = True"
| "is_fin _ = False"

fun fin_val :: "float64 \<Rightarrow> rat" where
  "fin_val (Fin a) = a"
| "fin_val _ = 0"

subsection \<open>Durations and instants\<close>

text \<open>
  A \<open>time.Duration\<close> is a number of nanoseconds; an instant is a nanosecond count on the
  monotonic clock. \<open>Time.Sub\<close> saturates at the largest and smallest duration.
\<close>

abbreviation millisecond :: int where "millisecond \<equiv> 1000000"
abbreviation second :: int where "second \<equiv> 1000000000"

definition time_sub :: "int \<Rightarrow> int \<Rightarrow> int" where
  "time_sub t u = max (- (2 ^ 63)) (min (2 ^ 63 - 1) (t - u))"

text \<open>\<open>Duration.Seconds\<close>: the whole seconds plus the remaining nanoseconds divided by \<open>1e9\<close>.\<close>

definition seconds :: "int \<Rightarrow> float64" where
  "seconds d =
     f_add (f_of_int (go_div d second)) (f_div (f_of_int (go_mod d second)) (f_of_int second))"

subsection \<open>The rounding contract\<close>

text \<open>
  What the components rely on: rounding is monotone, leaves integers of at most 53 bits alone, and
  its error is at most half a unit in the last place.
\<close>

locale rounding =
  fixes rd :: "rat \<Rightarrow> rat"
  assumes rd_mono: "x \<le> y \<Longrightarrow> rd x \<le> rd y"
    and rd_int: "\<bar>n\<bar> \<le> 2 ^ 53 \<Longrightarrow> rd (of_int n) = of_int n"
    and rd_err: "\<bar>rd x - x\<bar> \<le> \<bar>x\<bar> * (1 / 2 ^ 53) + 1 / 2 ^ 1075"
begin

lemma rd_zero: "rd 0 = 0"
  using rd_int [of 0] by simp

lemma rd_nonneg: "0 \<le> x \<Longrightarrow> 0 \<le> rd x"
  using rd_mono [of 0 x] by (simp add: rd_zero)

lemma rd_le_int: "x \<le> of_int n \<Longrightarrow> \<bar>n\<bar> \<le> 2 ^ 53 \<Longrightarrow> rd x \<le> of_int n"
  using rd_mono [of x "of_int n"] rd_int [of n] by simp

lemma rd_ge_int: "of_int n \<le> x \<Longrightarrow> \<bar>n\<bar> \<le> 2 ^ 53 \<Longrightarrow> of_int n \<le> rd x"
  using rd_mono [of "of_int n" x] rd_int [of n] by simp

lemma rd_upper: "0 \<le> x \<Longrightarrow> rd x \<le> x + x * (1 / 2 ^ 53) + 1 / 2 ^ 1075"
  using rd_err [of x] by (simp add: abs_le_iff)

lemma rd_lower: "0 \<le> x \<Longrightarrow> x - x * (1 / 2 ^ 53) - 1 / 2 ^ 1075 \<le> rd x"
  using rd_err [of x] by (simp add: abs_le_iff)

end

subsection \<open>binary64 rounding meets the contract\<close>

lemma powi_nat_minus: "0 \<le> k \<Longrightarrow> (2 :: rat) powi (- k) = 1 / 2 ^ nat k"
  by (cases "k = 0") (auto simp: power_int_def field_simps)

lemma powi_nat: "0 \<le> k \<Longrightarrow> (2 :: rat) powi k = 2 ^ nat k"
  by (simp add: power_int_def)

lemma ilog2_bounds:
  assumes "0 < x"
  shows "2 powi ilog2 x \<le> x \<and> x < 2 powi (ilog2 x + 1)"
proof (cases "1 \<le> x")
  case True
  let ?n = "\<lfloor>x\<rfloor>" and ?b = "bitlen \<lfloor>x\<rfloor>"
  have n: "0 < ?n" using True by simp
  then have b: "1 \<le> ?b" using bitlen_nonneg [of ?n] bitlen_eq_zero_iff [of ?n] by linarith
  have lo: "(2 :: int) ^ nat (?b - 1) \<le> ?n" and hi: "?n + 1 \<le> 2 ^ nat ?b"
    using bitlen_bounds [OF n] by auto
  have "of_int (2 ^ nat (?b - 1)) \<le> (of_int ?n :: rat)"
    using lo by (simp only: of_int_le_iff)
  also have "\<dots> \<le> x" by simp
  finally have 1: "2 ^ nat (?b - 1) \<le> x" by simp
  have "x < of_int (?n + 1)" by linarith
  also have "\<dots> \<le> of_int (2 ^ nat ?b)" using hi by (simp only: of_int_le_iff)
  finally have 2: "x < 2 ^ nat ?b" by simp
  from 1 2 b True show ?thesis by (simp add: ilog2_def powi_nat)
next
  case False
  let ?c = "\<lceil>1 / x\<rceil>" and ?b = "bitlen (\<lceil>1 / x\<rceil> - 1)"
  have "1 < 1 / x" using False assms by simp
  then have c: "0 < ?c - 1" by (simp add: less_ceiling_iff)
  then have b: "1 \<le> ?b" using bitlen_nonneg [of "?c - 1"] bitlen_eq_zero_iff [of "?c - 1"] by linarith
  have lo: "(2 :: int) ^ nat (?b - 1) \<le> ?c - 1" and hi: "?c \<le> 2 ^ nat ?b"
    using bitlen_bounds [OF c] by auto
  have "of_int (2 ^ nat (?b - 1)) \<le> (of_int (?c - 1) :: rat)"
    using lo by (simp only: of_int_le_iff)
  also have "\<dots> < 1 / x" by (metis ceiling_correct of_int_1 of_int_diff)
  finally have 1: "2 ^ nat (?b - 1) < 1 / x" by simp
  have "1 / x \<le> of_int ?c" by simp
  also have "\<dots> \<le> of_int (2 ^ nat ?b)" using hi by (simp only: of_int_le_iff)
  finally have 2: "1 / x \<le> 2 ^ nat ?b" by simp
  have "2 powi (- ?b) \<le> x"
    using 2 b assms by (simp add: powi_nat_minus field_simps)
  moreover have "x < 2 powi (- ?b + 1)"
  proof -
    have "2 powi (- ?b + 1) = (1 :: rat) / 2 ^ nat (?b - 1)"
      using powi_nat_minus [of "?b - 1"] b by simp
    moreover have "x < 1 / 2 ^ nat (?b - 1)"
      using 1 assms by (simp add: less_divide_eq divide_less_eq mult.commute)
    ultimately show ?thesis by simp
  qed
  ultimately show ?thesis using False by (simp add: ilog2_def)
qed

lemma ilog2_mono: "0 < x \<Longrightarrow> x \<le> y \<Longrightarrow> ilog2 x \<le> ilog2 y"
proof (rule ccontr)
  assume x: "0 < x" and xy: "x \<le> y" and "\<not> ilog2 x \<le> ilog2 y"
  then have "(2 :: rat) powi (ilog2 y + 1) \<le> 2 powi ilog2 x"
    by (intro power_int_increasing) auto
  with ilog2_bounds [of x] ilog2_bounds [of y] x xy show False by simp
qed

lemma ilog2_less: "0 < x \<Longrightarrow> x < 2 powi k \<Longrightarrow> ilog2 x < k"
proof (rule ccontr)
  assume x: "0 < x" and k: "x < 2 powi k" and "\<not> ilog2 x < k"
  then have "(2 :: rat) powi k \<le> 2 powi ilog2 x"
    by (intro power_int_increasing) auto
  with ilog2_bounds [of x] x k show False by simp
qed

lemma round_even_err: "\<bar>of_int (round_even y) - y\<bar> \<le> 1 / 2"
proof -
  have "0 \<le> y - of_int \<lfloor>y\<rfloor>" "y - of_int \<lfloor>y\<rfloor> < 1" by linarith+
  then show ?thesis by (auto simp: round_even_def Let_def abs_le_iff)
qed

lemma round_even_int [simp]: "round_even (of_int n) = n"
  by (simp add: round_even_def)

lemma round_even_mono: "x \<le> y \<Longrightarrow> round_even x \<le> round_even y"
proof (cases "\<lfloor>x\<rfloor> = \<lfloor>y\<rfloor>")
  case True
  assume "x \<le> y"
  with True show ?thesis by (auto simp: round_even_def Let_def)
next
  case False
  assume xy: "x \<le> y"
  with False have "\<lfloor>x\<rfloor> + 1 \<le> \<lfloor>y\<rfloor>" using floor_mono [OF xy] by linarith
  moreover have "round_even x \<le> \<lfloor>x\<rfloor> + 1" "\<lfloor>y\<rfloor> \<le> round_even y"
    by (auto simp: round_even_def Let_def)
  ultimately show ?thesis by linarith
qed

lemma ulp_exp_mono: "0 < x \<Longrightarrow> x \<le> y \<Longrightarrow> ulp_exp x \<le> ulp_exp y"
  using ilog2_mono [of x y] by (auto simp: ulp_exp_def)

lemma scaled_less: "0 < x \<Longrightarrow> x / 2 powi ulp_exp x < of_int (2 ^ 53)"
proof -
  assume x: "0 < x"
  have "x < 2 powi (ilog2 x + 1)" using ilog2_bounds [OF x] by simp
  also have "\<dots> \<le> 2 powi (ulp_exp x + 53)"
    by (intro power_int_increasing) (auto simp: ulp_exp_def)
  also have "\<dots> = 2 powi ulp_exp x * 2 ^ 53"
    by (simp add: power_int_add)
  finally show ?thesis by (simp add: divide_less_eq mult.commute)
qed

lemma scaled_ge: "0 < y \<Longrightarrow> - 1074 < ulp_exp y \<Longrightarrow> of_int (2 ^ 52) \<le> y / 2 powi ulp_exp y"
proof -
  assume y: "0 < y" and e: "- 1074 < ulp_exp y"
  then have "ilog2 y = ulp_exp y + 52" by (simp add: ulp_exp_def max_def split: if_splits)
  then have "2 powi (ulp_exp y + 52) \<le> y" using ilog2_bounds [OF y] by simp
  then show ?thesis by (simp add: power_int_add le_divide_eq mult.commute)
qed

lemma round_pos_mono:
  assumes x: "0 < x" and xy: "x \<le> y"
  shows "round_pos x \<le> round_pos y"
proof (cases "ulp_exp x = ulp_exp y")
  case True
  have "round_even (x / 2 powi ulp_exp y) \<le> round_even (y / 2 powi ulp_exp y)"
    using xy by (intro round_even_mono divide_right_mono) auto
  with True show ?thesis by (simp add: round_pos_def Let_def)
next
  case False
  let ?ex = "ulp_exp x" and ?ey = "ulp_exp y"
  have y: "0 < y" using assms by simp
  have lt: "?ex < ?ey" using False ulp_exp_mono [OF x xy] by simp
  have "round_even (x / 2 powi ?ex) \<le> 2 ^ 53"
    using round_even_mono [OF less_imp_le [OF scaled_less [OF x]]] by (simp only: round_even_int)
  then have "(of_int (round_even (x / 2 powi ?ex)) :: rat) \<le> of_int (2 ^ 53)"
    by (simp only: of_int_le_iff)
  then have "round_pos x \<le> 2 ^ 53 * 2 powi ?ex"
    by (simp add: round_pos_def Let_def)
  also have "\<dots> = 2 ^ 52 * 2 powi (?ex + 1)" by (simp add: power_int_add)
  also have "\<dots> \<le> 2 ^ 52 * 2 powi ?ey"
    using lt by (intro mult_left_mono power_int_increasing) auto
  also have "\<dots> \<le> of_int (round_even (y / 2 powi ?ey)) * 2 powi ?ey"
  proof -
    have "- 1074 < ?ey" using lt by (simp add: ulp_exp_def)
    from round_even_mono [OF scaled_ge [OF y this]] have "2 ^ 52 \<le> round_even (y / 2 powi ?ey)"
      by (simp only: round_even_int)
    then have "(of_int (2 ^ 52) :: rat) \<le> of_int (round_even (y / 2 powi ?ey))"
      by (simp only: of_int_le_iff)
    then show ?thesis by (intro mult_right_mono) auto
  qed
  also have "\<dots> = round_pos y" by (simp add: round_pos_def Let_def)
  finally show ?thesis .
qed

lemma round_pos_nonneg: "0 < x \<Longrightarrow> 0 \<le> round_pos x"
proof -
  assume "0 < x"
  then have "round_even 0 \<le> round_even (x / 2 powi ulp_exp x)"
    by (intro round_even_mono) simp
  then show ?thesis using round_even_int [of 0] by (simp add: round_pos_def Let_def)
qed

lemma round_pos_err:
  assumes x: "0 < x"
  shows "\<bar>round_pos x - x\<bar> \<le> x * (1 / 2 ^ 53) + 1 / 2 ^ 1075"
proof -
  let ?u = "2 powi ulp_exp x :: rat"
  have "round_pos x - x = (of_int (round_even (x / ?u)) - x / ?u) * ?u"
    by (simp add: round_pos_def Let_def left_diff_distrib)
  then have "\<bar>round_pos x - x\<bar> = \<bar>of_int (round_even (x / ?u)) - x / ?u\<bar> * ?u"
    by (simp add: abs_mult)
  also have "\<dots> \<le> 1 / 2 * ?u"
    by (intro mult_right_mono round_even_err) auto
  also have "\<dots> \<le> x * (1 / 2 ^ 53) + 1 / 2 ^ 1075"
  proof (cases "ulp_exp x = - 1074")
    case True
    then show ?thesis using x by (simp add: power_int_def power_divide)
  next
    case False
    then have "- 1074 < ulp_exp x" by (simp add: ulp_exp_def)
    from scaled_ge [OF x this] have "2 ^ 52 * ?u \<le> x" by (simp add: le_divide_eq)
    then have "1 / 2 * ?u \<le> x * (1 / 2 ^ 53)" by simp
    then show ?thesis by (simp add: add_increasing2)
  qed
  finally show ?thesis .
qed

lemma round_pos_int:
  assumes "0 < n" "n \<le> 2 ^ 53"
  shows "round_pos (of_int n) = of_int n"
proof (cases "n = 2 ^ 53")
  case True
  have "bitlen (2 ^ 53) = 54" using bitlen_pow2 [of 1 53] by (simp add: bitlen_alt_def [of 1])
  then have "ilog2 (of_int n) = 53" unfolding True ilog2_def floor_of_int by simp
  then have e: "ulp_exp (of_int n) = 1" by (simp add: ulp_exp_def)
  have "of_int n / 2 powi 1 = (of_int (2 ^ 52) :: rat)" by (simp add: True)
  then have "round_even (of_int n / 2 powi 1) = 2 ^ 52" by (simp only: round_even_int)
  then show ?thesis unfolding round_pos_def Let_def e by (simp add: True)
next
  case False
  let ?x = "of_int n :: rat"
  have "n < 2 ^ 53" using assms False by simp
  then have "?x < of_int (2 ^ 53)" by (simp only: of_int_less_iff)
  then have "ilog2 ?x < 53" using assms by (intro ilog2_less) auto
  then have e: "ulp_exp ?x \<le> 0" by (simp add: ulp_exp_def)
  define k where "k = nat (- ulp_exp ?x)"
  have u: "(2 :: rat) powi ulp_exp ?x = 1 / 2 ^ k"
    using powi_nat_minus [of "- ulp_exp ?x"] e by (simp add: k_def)
  have "?x / 2 powi ulp_exp ?x = of_int (n * 2 ^ k)" by (simp add: u)
  then have "round_even (?x / 2 powi ulp_exp ?x) = n * 2 ^ k" by (simp only: round_even_int)
  then show ?thesis by (simp add: round_pos_def Let_def u)
qed

lemma rnd_minus [simp]: "rnd (- x) = - rnd x"
  by (simp add: rnd_def)

interpretation fl: rounding rnd
proof
  fix x y :: rat
  assume xy: "x \<le> y"
  show "rnd x \<le> rnd y"
  proof (cases "x < 0 \<and> 0 < y")
    case True
    then show ?thesis
      using round_pos_nonneg [of "- x"] round_pos_nonneg [of y] by (simp add: rnd_def)
  next
    case False
    then show ?thesis
      using xy round_pos_mono [of x y] round_pos_mono [of "- y" "- x"]
        round_pos_nonneg [of y] round_pos_nonneg [of "- x"]
      by (auto simp: rnd_def not_less)
  qed
next
  fix n :: int
  assume "\<bar>n\<bar> \<le> 2 ^ 53"
  then show "rnd (of_int n) = of_int n"
    using round_pos_int [of n] round_pos_int [of "- n"] by (auto simp: rnd_def abs_le_iff)
next
  fix x :: rat
  show "\<bar>rnd x - x\<bar> \<le> \<bar>x\<bar> * (1 / 2 ^ 53) + 1 / 2 ^ 1075"
    using round_pos_err [of x] round_pos_err [of "- x"]
    by (cases "x = 0"; cases "0 < x") (simp_all add: rnd_def abs_minus_commute)
qed

subsection \<open>Consequences for the operations\<close>

lemma rnd_dyadic:
  assumes "0 < m" "m < 2 ^ 53" "k \<le> 1074"
  shows "rnd (of_int m / 2 ^ k) = of_int m / 2 ^ k"
proof -
  let ?x = "of_int m / 2 ^ k :: rat"
  have x: "0 < ?x" using assms by simp
  have "of_int m < (of_int (2 ^ 53) :: rat)" using assms by (simp only: of_int_less_iff)
  then have "?x < 2 powi (53 - int k)"
    by (simp add: power_int_diff divide_strict_right_mono)
  then have e: "ulp_exp ?x \<le> - int k"
    using ilog2_less [OF x] assms by (force simp: ulp_exp_def)
  define j where "j = nat (- ulp_exp ?x - int k)"
  have "2 powi ulp_exp ?x = (1 :: rat) / 2 ^ (j + k)"
    using powi_nat_minus [of "- ulp_exp ?x"] e by (simp add: j_def nat_diff_distrib flip: nat_add_distrib)
  then have u: "2 powi ulp_exp ?x = (1 :: rat) / (2 ^ j * 2 ^ k)" by (simp add: power_add)
  have "?x / 2 powi ulp_exp ?x = of_int (m * 2 ^ j)" by (simp add: u)
  then have "round_even (?x / 2 powi ulp_exp ?x) = m * 2 ^ j" by (simp only: round_even_int)
  then have "round_pos ?x = ?x" by (simp add: round_pos_def Let_def u)
  then show ?thesis using x by (simp add: rnd_def)
qed

lemma rnd_int [simp]: "\<bar>n\<bar> \<le> 2 ^ 53 \<Longrightarrow> rnd (of_int n) = of_int n"
  by (rule fl.rd_int)

lemma rnd_0 [simp]: "rnd 0 = 0"
  by (rule fl.rd_zero)

lemma rnd_1 [simp]: "rnd 1 = 1"
  using rnd_int [of 1] by simp

lemma rnd_numeral [simp]: "(numeral k :: int) \<le> 2 ^ 53 \<Longrightarrow> rnd (numeral k) = numeral k"
  using rnd_int [of "numeral k"] by simp

lemma rnd_half [simp]: "rnd (1 / 2) = 1 / 2"
  using rnd_dyadic [of 1 1] by simp

lemma rnd_small: "0 \<le> x \<Longrightarrow> x \<le> 2 ^ 1000 \<Longrightarrow> rnd x \<le> 2 ^ 1001"
proof -
  assume x: "0 \<le> x" "x \<le> 2 ^ 1000"
  have "x * (1 / 2 ^ 53) \<le> x" using x by simp
  moreover have "rnd x \<le> x + x * (1 / 2 ^ 53) + 1 / 2 ^ 1075" using fl.rd_upper x by simp
  ultimately have "rnd x \<le> 2 * x + 1 / 2 ^ 1075" by linarith
  show ?thesis
  proof (cases "x \<le> 1")
    case True
    then have "rnd x \<le> 1" using fl.rd_le_int [of x 1] by simp
    also have "(1 :: rat) \<le> 2 ^ 1001" by (rule one_le_power) simp
    finally show ?thesis .
  next
    case False
    have *: "(1 :: rat) / 2 ^ 1075 \<le> 1 / 2 ^ 53"
      by (intro divide_left_mono power_increasing) auto
    have "(1 :: rat) / 2 ^ 53 * x \<ge> 1 / 2 ^ 53" using False by simp
    with * \<open>rnd x \<le> x + x * (1 / 2 ^ 53) + 1 / 2 ^ 1075\<close>
    have "rnd x \<le> x + 2 * (x * (1 / 2 ^ 53))" by (simp add: mult.commute)
    also have "\<dots> \<le> 2 * x" using x by simp
    also have "\<dots> \<le> 2 * 2 ^ 1000" using x by (intro mult_left_mono) auto
    also have "\<dots> = 2 ^ Suc 1000" by (rule power_Suc [symmetric])
    finally show ?thesis by (simp only: Suc_numeral) simp
  qed
qed

lemma float_of_rat_fin:
  assumes "\<bar>x\<bar> \<le> 2 ^ 1000"
  shows "float_of_rat x = Fin (rnd x)"
proof -
  have big: "(2 :: rat) ^ 1001 < 2 ^ 1024" by (rule power_strict_increasing) auto
  have "rnd \<bar>x\<bar> \<le> 2 ^ 1001" using rnd_small assms by simp
  then have "\<bar>rnd x\<bar> < 2 ^ 1024"
    using big fl.rd_nonneg [of "\<bar>x\<bar>"] by (cases "0 \<le> x") auto
  then show ?thesis unfolding float_of_rat_def Let_def by (auto simp: abs_less_iff)
qed

lemma le_big: "x \<le> 2 ^ n \<Longrightarrow> n \<le> 1000 \<Longrightarrow> (x :: rat) \<le> 2 ^ 1000"
  by (meson one_le_numeral order_trans power_increasing)

lemma f_of_int_fin [simp]: "\<bar>n\<bar> \<le> 2 ^ 53 \<Longrightarrow> f_of_int n = Fin (of_int n)"
proof -
  assume n: "\<bar>n\<bar> \<le> 2 ^ 53"
  then have "\<bar>of_int n :: rat\<bar> \<le> of_int (2 ^ 53)" by (simp only: of_int_abs [symmetric] of_int_le_iff)
  then have "\<bar>of_int n :: rat\<bar> \<le> 2 ^ 1000" by (intro le_big [of _ 53]) auto
  then show ?thesis unfolding f_of_int_def by (simp only: float_of_rat_fin rnd_int [OF n])
qed

lemma f_add_fin: "\<bar>a + b\<bar> \<le> 2 ^ 1000 \<Longrightarrow> f_add (Fin a) (Fin b) = Fin (rnd (a + b))"
  by (simp only: f_add.simps float_of_rat_fin)

lemma f_sub_fin: "\<bar>a - b\<bar> \<le> 2 ^ 1000 \<Longrightarrow> f_sub (Fin a) (Fin b) = Fin (rnd (a - b))"
  by (simp only: f_sub_def f_neg.simps f_add.simps diff_conv_add_uminus [symmetric] float_of_rat_fin)

lemma f_mul_fin: "\<bar>a * b\<bar> \<le> 2 ^ 1000 \<Longrightarrow> f_mul (Fin a) (Fin b) = Fin (rnd (a * b))"
  by (simp only: f_mul.simps float_of_rat_fin)

lemma f_div_fin: "b \<noteq> 0 \<Longrightarrow> \<bar>a / b\<bar> \<le> 2 ^ 1000 \<Longrightarrow> f_div (Fin a) (Fin b) = Fin (rnd (a / b))"
  by (simp only: f_div.simps float_of_rat_fin if_False)

end
