(* ===== verification/Token_Bucket.thy ===== *)
theory Token_Bucket
  imports Float64
begin

text \<open>
  What the two token buckets of \<^verbatim>\<open>internal/resilience\<close> share: the error of their binary64
  arithmetic, and the contract \<open>token_source\<close> with the bound on the number of calls a bucket
  admits in an interval of time. \<open>Rate_Limit\<close> interprets it on \<open>tokenBucket\<close>, \<open>Retry\<close> on \<open>Budget\<close>.
\<close>

section \<open>Runs of calls\<close>

fun run_calls :: "(int \<Rightarrow> 's \<Rightarrow> bool \<times> 's) \<Rightarrow> int list \<Rightarrow> 's \<Rightarrow> bool list \<times> 's" where
  "run_calls call [] s = ([], s)"
| "run_calls call (t # ts) s =
     (let (g, s) = call t s; (gs, s) = run_calls call ts s in (g # gs, s))"

definition granted_calls :: "bool list \<Rightarrow> nat" where
  "granted_calls gs = count_list gs True"

abbreviation fuzz :: rat where "fuzz \<equiv> 1 / 2 ^ 49"

abbreviation secs :: "int \<Rightarrow> rat" where "secs d \<equiv> of_int d / 1000000000"

section \<open>Errors of the arithmetic\<close>

lemma tiny: "(1 :: rat) / 2 ^ 1075 \<le> 1 / 2 ^ 75 * (1 / 2 ^ 1000)"
  by (simp add: power_add [symmetric] del: power_numeral)

lemma rnd_rel:
  assumes "1 / 2 ^ 1000 \<le> x"
  shows "rnd x \<le> x + x * (1 / 2 ^ 52)" "x - x * (1 / 2 ^ 52) \<le> rnd x"
proof -
  have pos: "0 \<le> x" using assms by (meson divide_nonneg_nonneg order_trans zero_le_numeral zero_le_one zero_le_power)
  have "(1 :: rat) / 2 ^ 1075 \<le> 1 / 2 ^ 75 * x"
    using tiny assms by (meson mult_left_mono order_trans divide_nonneg_nonneg zero_le_numeral zero_le_one zero_le_power)
  also have "\<dots> \<le> 1 / 2 ^ 53 * x" using pos by (intro mult_right_mono) auto
  finally have t: "(1 :: rat) / 2 ^ 1075 \<le> x * (1 / 2 ^ 53)" by (simp only: mult.commute)
  have "x * (1 / 2 ^ 53) + x * (1 / 2 ^ 53) = x * (1 / 2 ^ 52)" by simp
  then show "rnd x \<le> x + x * (1 / 2 ^ 52)" "x - x * (1 / 2 ^ 52) \<le> rnd x"
    using t fl.rd_upper [OF pos] fl.rd_lower [OF pos] by linarith+
qed

lemma tiny_le: "(1 :: rat) / 2 ^ 1075 \<le> 1 / 2 ^ 60"
  by (intro divide_left_mono power_increasing) auto

lemma rnd_abs:
  assumes "0 \<le> x" "x \<le> c" "1 \<le> c"
  shows "rnd x \<le> x + c * (1 / 2 ^ 52)" "x - c * (1 / 2 ^ 52) \<le> rnd x"
proof -
  have "(1 :: rat) / 2 ^ 1075 \<le> 1 / 2 ^ 53" using tiny_le by (rule order_trans) simp
  also have "\<dots> \<le> c * (1 / 2 ^ 53)" using assms(3) by simp
  finally have t: "(1 :: rat) / 2 ^ 1075 \<le> c * (1 / 2 ^ 53)" .
  have "x * (1 / 2 ^ 53) \<le> c * (1 / 2 ^ 53)" using assms by (intro mult_right_mono) auto
  then have "x * (1 / 2 ^ 53) + 1 / 2 ^ 1075 \<le> c * (1 / 2 ^ 52)" using t by simp
  then show "rnd x \<le> x + c * (1 / 2 ^ 52)" "x - c * (1 / 2 ^ 52) \<le> rnd x"
    using fl.rd_upper [OF assms(1)] fl.rd_lower [OF assms(1)] by linarith+
qed

text \<open>\<open>Duration.Seconds\<close> of a non-negative duration: finite, and exact up to a factor.\<close>

lemma factor_up: "0 \<le> x \<Longrightarrow> y \<le> x + x * (1 / 2 ^ 52) \<Longrightarrow> y + y * (1 / 2 ^ 52) \<le> x + x * (1 / 2 ^ 50 :: rat)"
  by (simp add: field_simps)

lemma factor_down: "0 \<le> x \<Longrightarrow> x - x * (1 / 2 ^ 52) \<le> y \<Longrightarrow> x - x * (1 / 2 ^ 50 :: rat) \<le> y - y * (1 / 2 ^ 52)"
  by (simp add: field_simps)

lemma nano_big: "1 \<le> m \<Longrightarrow> 1 / 2 ^ 999 \<le> secs m"
proof -
  assume "1 \<le> m"
  have "(1 :: rat) / 2 ^ 999 \<le> 1 / 2 ^ 30" by (intro divide_left_mono power_increasing) auto
  also have "\<dots> \<le> secs 1" by simp
  also have "\<dots> \<le> secs m" using \<open>1 \<le> m\<close> by (simp add: divide_right_mono)
  finally show ?thesis .
qed

lemma half_le: "0 < c \<Longrightarrow> c \<le> x \<Longrightarrow> x - x * (1 / 2 ^ 52) \<le> y \<Longrightarrow> c / 2 \<le> (y :: rat)"
  by simp

lemma half_big: "(1 :: rat) / 2 ^ 999 \<le> x \<Longrightarrow> x - x * (1 / 2 ^ 52) \<le> y \<Longrightarrow> 1 / 2 ^ 1000 \<le> y"
proof -
  assume x: "(1 :: rat) / 2 ^ 999 \<le> x" and y: "x - x * (1 / 2 ^ 52) \<le> y"
  have "(0 :: rat) < 1 / 2 ^ 999" by simp
  from half_le [OF this x y] have "1 / 2 ^ 999 / 2 \<le> y" .
  moreover have "(1 :: rat) / 2 ^ 1000 = 1 / 2 ^ 999 / 2" by simp
  ultimately show ?thesis by (simp only:)
qed

lemma rnd_secs:
  assumes "0 \<le> m"
  shows "rnd (secs m) \<le> secs m + secs m * (1 / 2 ^ 52)" "secs m - secs m * (1 / 2 ^ 52) \<le> rnd (secs m)"
proof -
  have "1 / 2 ^ 1000 \<le> secs m" if "m \<noteq> 0"
  proof -
    have "(1 :: rat) / 2 ^ 1000 \<le> 1 / 2 ^ 999" by (intro divide_left_mono power_increasing) auto
    moreover have "1 / 2 ^ 999 \<le> secs m" by (rule nano_big) (use that assms in simp)
    ultimately show ?thesis by (rule order_trans)
  qed
  then show "rnd (secs m) \<le> secs m + secs m * (1 / 2 ^ 52)" "secs m - secs m * (1 / 2 ^ 52) \<le> rnd (secs m)"
    using rnd_rel [of "secs m"] by (cases "m = 0"; simp)+
qed

lemma seconds_err:
  assumes "0 < d" "d < 2 ^ 63"
  shows "\<exists>s. seconds d = Fin s \<and> s \<le> secs d + secs d * (1 / 2 ^ 50) \<and> secs d - secs d * (1 / 2 ^ 50) \<le> s \<and> 0 < s \<and> s \<le> 2 ^ 35"
proof -
  let ?q = "d div second" and ?m = "d mod second"
  let ?f = "rnd (secs ?m)" and ?x = "of_int (d div second) + rnd (secs (d mod second))"
  have q: "0 \<le> ?q" "?q \<le> 2 ^ 34" using assms by (auto intro!: div_le_dividend [THEN order_trans] simp: div_le_mono)
  have m: "0 \<le> ?m" "?m < second" by (simp_all add: pos_mod_bound)
  have "(of_int d :: rat) = of_int ?q * 1000000000 + of_int ?m"
    by (metis div_mult_mod_eq of_int_add of_int_mult of_int_numeral)
  then have d: "secs d = of_int ?q + secs ?m" by (simp add: field_simps)
  have f: "?f \<le> secs ?m + secs ?m * (1 / 2 ^ 52)" "secs ?m - secs ?m * (1 / 2 ^ 52) \<le> ?f" "0 \<le> ?f" "?f \<le> 1"
    using rnd_secs [OF m(1)] m fl.rd_nonneg [of "secs ?m"] fl.rd_le_int [of "secs ?m" 1] by simp_all
  have qr: "(0 :: rat) \<le> of_int ?q" using q by simp
  then have x: "?x \<le> secs d + secs d * (1 / 2 ^ 52)" "secs d - secs d * (1 / 2 ^ 52) \<le> ?x" "0 \<le> ?x"
    unfolding d using f by (simp_all add: field_simps)
  have pos: "0 \<le> secs d" using assms by simp
  have "1 / 2 ^ 999 \<le> secs d" by (rule nano_big) (use assms in simp)
  from half_big [OF this x(2)] have big: "1 / 2 ^ 1000 \<le> ?x" .
  have "of_int ?q \<le> (of_int (2 ^ 34) :: rat)" using q by (simp only: of_int_le_iff)
  then have small: "?x \<le> of_int (2 ^ 35)" using f by simp
  have "seconds d = Fin (rnd ?x)"
  proof -
    have "\<bar>secs ?m\<bar> \<le> 2 ^ 0" using m by simp
    then have "\<bar>secs ?m\<bar> \<le> 2 ^ 1000" by (rule le_big) simp
    then have "f_div (Fin (of_int ?m)) (Fin (of_int second)) = Fin ?f" by (simp add: f_div_fin del: f_div.simps)
    moreover have "\<bar>?x\<bar> \<le> 2 ^ 35" using small x(3) by simp
    then have "\<bar>?x\<bar> \<le> 2 ^ 1000" by (rule le_big) simp
    moreover have "f_of_int ?q = Fin (of_int ?q)" "f_of_int ?m = Fin (of_int ?m)" "f_of_int second = Fin (of_int second)"
      using q m by simp_all
    moreover have "go_div d second = ?q" "go_mod d second = ?m"
      using assms by (simp_all add: go_div_nonneg go_mod_nonneg)
    ultimately show ?thesis by (simp only: seconds_def f_add_fin)
  qed
  moreover have "rnd ?x \<le> secs d + secs d * (1 / 2 ^ 50)" "secs d - secs d * (1 / 2 ^ 50) \<le> rnd ?x"
    by (rule order_trans [OF rnd_rel(1) [OF big] factor_up [OF pos x(1)]],
        rule order_trans [OF factor_down [OF pos x(2)] rnd_rel(2) [OF big]])
  moreover have "0 < secs d - secs d * (1 / 2 ^ 50)" using assms(1) by simp
  moreover have "rnd ?x \<le> 2 ^ 35" using fl.rd_le_int [OF small] by simp
  ultimately show ?thesis by auto
qed

lemma seconds_0 [simp]: "seconds 0 = Fin 0"
  by (simp add: seconds_def go_div_def go_mod_def float_of_rat_fin)

section \<open>Refilling and taking a token\<close>

text \<open>
  Both buckets add \<open>elapsed * rate\<close>, cap the sum and subtract one for a granted call. The lemmas
  bound the result against the exact amount \<open>g\<close>, the rate times the elapsed time.
\<close>

lemma rnd_double: "0 \<le> x \<Longrightarrow> rnd x \<le> 2 * x + 1"
proof -
  assume x: "0 \<le> x"
  have "x * (1 / 2 ^ 53) \<le> x" using x by simp
  moreover have "(1 :: rat) / 2 ^ 1075 \<le> 1" by (rule order_trans [OF tiny_le]) simp
  ultimately show ?thesis using fl.rd_upper [OF x] by linarith
qed

lemma refill_big:
  assumes "0 \<le> x" "0 \<le> t" "x \<le> c" "t \<le> c" "1 \<le> c"
  shows "\<bar>t + rnd x\<bar> \<le> 4 * c"
  using assms rnd_double [of x] fl.rd_nonneg [of x] by linarith

lemma refill_fin:
  assumes "0 \<le> t" "t \<le> 2 ^ 53" "0 \<le> r" "r \<le> 2 ^ 900" "0 \<le> s" "s \<le> 2 ^ 35"
  shows "f_add (Fin t) (f_mul (Fin s) (Fin r)) = Fin (rnd (t + rnd (s * r)))"
proof -
  let ?c = "(2 :: rat) ^ 998"
  have sr: "0 \<le> s * r" using assms by simp
  have "s * r \<le> 2 ^ 35 * 2 ^ 900" using assms by (intro mult_mono) auto
  also have "\<dots> = 2 ^ (35 + 900)" by (rule power_add [symmetric])
  also have "\<dots> \<le> ?c" by (rule power_increasing) auto
  finally have c: "s * r \<le> ?c" .
  have p: "?c \<le> 2 ^ 1000" by (rule power_increasing) auto
  have "f_mul (Fin s) (Fin r) = Fin (rnd (s * r))"
    by (rule f_mul_fin) (use sr order_trans [OF c p] in \<open>simp only: abs_of_nonneg\<close>)
  moreover have "t \<le> ?c"
    by (rule order_trans [OF assms(2)]) (rule power_increasing, auto)
  moreover have "(1 :: rat) \<le> ?c" by (rule one_le_power) simp
  ultimately have "\<bar>t + rnd (s * r)\<bar> \<le> 4 * ?c" "f_mul (Fin s) (Fin r) = Fin (rnd (s * r))"
    using refill_big [OF sr assms(1) c] by blast+
  moreover have "4 * ?c = 2 ^ 1000" by simp
  ultimately show ?thesis by (simp only: f_add_fin)
qed

lemma ratio_err: "x \<le> g + g * (1 / 2 ^ 50) \<Longrightarrow> 0 \<le> g \<Longrightarrow> x * (1 / 2 ^ 53) \<le> g * (1 / 2 ^ 52 :: rat)"
  by simp

lemma slack:
  assumes "(1 :: rat) \<le> b"
  shows "b * (1 / 2 ^ 52) + 1 / 2 ^ 60 \<le> b * (1 / 2 ^ 51)" "b * (1 / 2 ^ 51) + 1 / 2 ^ 60 \<le> b * (1 / 2 ^ 50)"
  using assms by (simp_all add: field_simps)

lemma product_err:
  assumes "0 \<le> r" "0 < d" "d < 2 ^ 63" "seconds d = Fin s" "g = r * secs d"
  shows "rnd (s * r) \<le> g + g * fuzz + 1 / 2 ^ 60" "g - g * fuzz - 1 / 2 ^ 60 \<le> rnd (s * r)"
    "0 \<le> rnd (s * r)"
proof -
  have s: "s \<le> secs d + secs d * (1 / 2 ^ 50)" "secs d - secs d * (1 / 2 ^ 50) \<le> s" "0 < s"
    using seconds_err [OF assms(2,3)] assms(4) by auto
  have g: "0 \<le> g" unfolding assms(5) using assms(1,2) by simp
  have up: "s * r \<le> g + g * (1 / 2 ^ 50)"
    using mult_right_mono [OF s(1) assms(1)] unfolding assms(5) by (simp add: algebra_simps)
  have low: "g - g * (1 / 2 ^ 50) \<le> s * r"
    using mult_right_mono [OF s(2) assms(1)] unfolding assms(5) by (simp add: algebra_simps)
  have sr: "0 \<le> s * r" using s assms by simp
  have e: "s * r * (1 / 2 ^ 53) \<le> g * (1 / 2 ^ 52)" using up g by (rule ratio_err)
  have fz: "g * (1 / 2 ^ 50) + g * (1 / 2 ^ 52) \<le> g * fuzz" using g by simp
  show "rnd (s * r) \<le> g + g * fuzz + 1 / 2 ^ 60"
    using fl.rd_upper [OF sr] up e fz tiny_le by linarith
  show "g - g * fuzz - 1 / 2 ^ 60 \<le> rnd (s * r)"
    using fl.rd_lower [OF sr] low e fz tiny_le by linarith
  show "0 \<le> rnd (s * r)" by (rule fl.rd_nonneg [OF sr])
qed

lemma capped_sum:
  fixes B :: int
  assumes "0 \<le> x" "0 \<le> B" "B \<le> 2 ^ 53" "y = min (of_int B) (rnd x)"
  shows "y \<le> x + (of_int B + 1) * (1 / 2 ^ 52)"
    "min (of_int B) (x - (of_int B + 1) * (1 / 2 ^ 51)) \<le> y" "0 \<le> y" "y \<le> of_int B"
proof -
  let ?b = "of_int B + 1 :: rat"
  have b: "1 \<le> ?b" using assms by simp
  have e: "0 \<le> ?b * (1 / 2 ^ 52)" using b by simp
  show "y \<le> x + ?b * (1 / 2 ^ 52)"
  proof (cases "x \<le> ?b")
    case True
    have "y \<le> rnd x" using assms(4) by simp
    also have "\<dots> \<le> x + ?b * (1 / 2 ^ 52)" by (rule rnd_abs(1) [OF assms(1) True b])
    finally show ?thesis .
  next
    case False
    have "y \<le> of_int B" using assms(4) by simp
    then show ?thesis using False e by linarith
  qed
  show "min (of_int B) (x - ?b * (1 / 2 ^ 51)) \<le> y"
  proof (cases "x \<le> ?b")
    case True
    have "?b * (1 / 2 ^ 52) \<le> ?b * (1 / 2 ^ 51)" using b by (intro mult_left_mono) auto
    then have "x - ?b * (1 / 2 ^ 51) \<le> rnd x" using rnd_abs(2) [OF assms(1) True b] by linarith
    then show ?thesis using assms(4) by (auto simp: min_le_iff_disj)
  next
    case False
    then have "of_int B \<le> rnd x" using assms(2,3) by (intro fl.rd_ge_int) auto
    then show ?thesis using assms(4) by simp
  qed
  show "0 \<le> y" "y \<le> of_int B" using assms fl.rd_nonneg [OF assms(1)] by simp_all
qed

lemma take_one:
  fixes B :: int
  assumes "1 \<le> y" "y \<le> of_int B" "B \<le> 2 ^ 53"
  shows "f_sub (Fin y) (Fin 1) = Fin (rnd (y - 1))" "0 \<le> rnd (y - 1)" "rnd (y - 1) \<le> of_int B"
    "rnd (y - 1) \<le> y - 1 + (of_int B + 1) * (1 / 2 ^ 52)" "y - 1 - (of_int B + 1) * (1 / 2 ^ 52) \<le> rnd (y - 1)"
proof -
  have B: "of_int B \<le> (2 :: rat) ^ 53" using assms(3) by (metis of_int_le_iff of_int_numeral of_int_power)
  then have "\<bar>y - 1\<bar> \<le> 2 ^ 53" using assms by linarith
  then have "\<bar>y - 1\<bar> \<le> 2 ^ 1000" by (rule le_big) simp
  then show "f_sub (Fin y) (Fin 1) = Fin (rnd (y - 1))" by (rule f_sub_fin)
  show "0 \<le> rnd (y - 1)" using assms by (intro fl.rd_nonneg) simp
  have "(0 :: rat) < of_int B" using assms(1,2) by linarith
  then have "0 < B" by simp
  then show "rnd (y - 1) \<le> of_int B" using assms by (intro fl.rd_le_int) auto
  show "rnd (y - 1) \<le> y - 1 + (of_int B + 1) * (1 / 2 ^ 52)" "y - 1 - (of_int B + 1) * (1 / 2 ^ 52) \<le> rnd (y - 1)"
    using assms by (intro rnd_abs; simp)+
qed

lemma refill_step:
  fixes B :: int
  assumes "0 \<le> t" "0 \<le> B" "B \<le> 2 ^ 53" "0 \<le> r" "0 < d" "d < 2 ^ 63" "seconds d = Fin s"
    and "y = min (of_int B) (rnd (t + rnd (s * r)))" "g = r * secs d"
  shows "y \<le> t + g + g * fuzz + (of_int B + 1) * (1 / 2 ^ 51)"
    "min (of_int B) (t + g - g * fuzz - (of_int B + 1) * (1 / 2 ^ 50)) \<le> y" "0 \<le> y" "y \<le> of_int B"
proof -
  let ?p = "rnd (s * r)" and ?b = "of_int B + 1 :: rat"
  note p = product_err [OF assms(4-7,9)]
  have x: "0 \<le> t + ?p" using p(3) assms(1) by simp
  note c = capped_sum [OF x assms(2,3,8)]
  have "1 \<le> ?b" using assms(2) by simp
  note e = slack [OF this]
  show "y \<le> t + g + g * fuzz + ?b * (1 / 2 ^ 51)" using c(1) p(1) e(1) by linarith
  have "t + g - g * fuzz - ?b * (1 / 2 ^ 50) \<le> t + ?p - ?b * (1 / 2 ^ 51)" using p(2) e(2) by linarith
  then show "min (of_int B) (t + g - g * fuzz - ?b * (1 / 2 ^ 50)) \<le> y"
    using c(2) by (auto simp: min_le_iff_disj)
  show "0 \<le> y" "y \<le> of_int B" using c(3,4) .
qed

section \<open>The contract of a token bucket\<close>

text \<open>
  A call at time \<open>t\<close> first refills the bucket by what the rate gives for the time since the last
  call, up to the relative error \<open>fuzz\<close>; it is granted exactly when a whole token is there, and then
  takes one. The client lemmas bound what any run of calls is granted from above, and say when a
  call is granted.
\<close>

locale token_source =
  fixes call :: "int \<Rightarrow> 's \<Rightarrow> bool \<times> 's" and level :: "'s \<Rightarrow> rat" and clock :: "'s \<Rightarrow> int"
    and cap :: "'s \<Rightarrow> rat" and rate :: "'s \<Rightarrow> rat" and refilled :: "int \<Rightarrow> 's \<Rightarrow> rat" and ok :: "'s \<Rightarrow> bool"
  assumes ok_call: "ok s \<Longrightarrow> clock s \<le> t \<Longrightarrow> call t s = (g, s') \<Longrightarrow>
      ok s' \<and> cap s' = cap s \<and> rate s' = rate s \<and> clock s' = t"
    and level_range: "ok s \<Longrightarrow> 0 \<le> level s \<and> level s \<le> cap s"
    and refill_upper: "ok s \<Longrightarrow> clock s \<le> t \<Longrightarrow>
      refilled t s \<le> level s + rate s * secs (t - clock s) * (1 + fuzz) + (cap s + 1) * (1 / 2 ^ 51)"
    and refill_lower: "ok s \<Longrightarrow> clock s \<le> t \<Longrightarrow> t - clock s < 2 ^ 63 \<Longrightarrow>
      min (cap s) (level s + rate s * secs (t - clock s) * (1 - fuzz) - (cap s + 1) * fuzz) \<le> refilled t s"
    and granted_iff: "ok s \<Longrightarrow> clock s \<le> t \<Longrightarrow> fst (call t s) \<longleftrightarrow> 1 \<le> refilled t s"
    and level_call: "ok s \<Longrightarrow> clock s \<le> t \<Longrightarrow> call t s = (g, s') \<Longrightarrow>
      level s' + of_bool g \<le> refilled t s + (cap s + 1) * (1 / 2 ^ 52)"
begin

lemma spent:
  assumes "ok s" "clock s \<le> t" "call t s = (g, s')"
  shows "level s' + of_bool g \<le> level s + rate s * secs (t - clock s) * (1 + fuzz) + (cap s + 1) * fuzz"
proof -
  have "0 \<le> cap s" using level_range [OF assms(1)] by linarith
  then have "(cap s + 1) * (1 / 2 ^ 51) + (cap s + 1) * (1 / 2 ^ 52) \<le> (cap s + 1) * fuzz" by simp
  then show ?thesis using refill_upper [OF assms(1,2)] level_call [OF assms] by linarith
qed

lemma run_budget:
  assumes "ok s" "sorted (clock s # ts)" "run_calls call ts s = (gs, s')"
  shows "level s' + of_nat (granted_calls gs) \<le>
     level s + rate s * secs (last (clock s # ts) - clock s) * (1 + fuzz) + of_nat (length ts) * ((cap s + 1) * fuzz)
     \<and> ok s' \<and> cap s' = cap s"
  using assms
proof (induction ts arbitrary: s gs)
  case Nil
  then show ?case by (simp add: granted_calls_def)
next
  case (Cons t ts)
  obtain g s1 where c: "call t s = (g, s1)" by fastforce
  obtain gs1 where r: "run_calls call ts s1 = (gs1, s')" "gs = g # gs1"
    using Cons.prems(3) c by (auto split: prod.splits)
  have at: "clock s \<le> t" using Cons.prems by simp
  note k = ok_call [OF Cons.prems(1) at c]
  have "level s' + of_nat (granted_calls gs1) \<le>
      level s1 + rate s * secs (last (t # ts) - t) * (1 + fuzz) + of_nat (length ts) * ((cap s + 1) * fuzz)
      \<and> ok s' \<and> cap s' = cap s"
    using Cons.IH [of s1 gs1] k r(1) Cons.prems(2) by auto
  moreover have "level s1 + of_bool g \<le> level s + rate s * secs (t - clock s) * (1 + fuzz) + (cap s + 1) * fuzz"
    by (rule spent [OF Cons.prems(1) at c])
  moreover have "of_nat (granted_calls gs) = (of_nat (granted_calls gs1) + of_bool g :: rat)"
    using r(2) by (simp add: granted_calls_def)
  moreover have "rate s * secs (last (clock s # t # ts) - clock s) * (1 + fuzz) =
      rate s * secs (t - clock s) * (1 + fuzz) + rate s * secs (last (t # ts) - t) * (1 + fuzz)"
    by (simp add: field_simps)
  moreover have "of_nat (length (t # ts)) * ((cap s + 1) * fuzz) = of_nat (length ts) * ((cap s + 1) * fuzz) + (cap s + 1) * fuzz"
    by (simp only: list.size(4) of_nat_Suc of_nat_add of_nat_1 distrib_right mult_1_left)
  ultimately show ?case by linarith
qed

lemma run_admitted:
  assumes "ok s" "sorted (clock s # ts)" "run_calls call ts s = (gs, s')"
  shows "of_nat (granted_calls gs) \<le>
     cap s + rate s * secs (last (clock s # ts) - clock s) * (1 + fuzz) + of_nat (length ts) * ((cap s + 1) * fuzz)"
  using run_budget [OF assms] level_range [of s] level_range [of s'] assms(1) by linarith

lemma granted_after:
  assumes "ok s" "clock s \<le> t" "t - clock s < 2 ^ 63" "1 \<le> cap s"
    and "1 + (cap s + 1) * fuzz \<le> level s + rate s * secs (t - clock s) * (1 - fuzz)"
  shows "fst (call t s)"
proof -
  have "1 \<le> min (cap s) (level s + rate s * secs (t - clock s) * (1 - fuzz) - (cap s + 1) * fuzz)"
    using assms(4,5) by (intro min.boundedI) linarith+
  then have "1 \<le> refilled t s" using refill_lower [OF assms(1-3)] by (rule order_trans)
  then show ?thesis using granted_iff [OF assms(1,2)] by simp
qed

end

end
