(* ===== verification/Parse_Float.thy ===== *)
theory Parse_Float
  imports Float64 Go_Strings
begin

text \<open>
  \<open>strconv.ParseFloat(s, 64)\<close>, which the rate rules are read with: the names of the special values,
  decimal and hexadecimal literals with optional fraction, exponent and underscores, and a range
  error for a value that overflows. The result is the correctly rounded value of the literal; the
  exponent is cut at the first value from 10000 on, as in the library.
\<close>

definition lower_char :: "char \<Rightarrow> char" where
  "lower_char c = (let n = of_char c :: nat in if 65 \<le> n \<and> n \<le> 90 then char_of (n + 32) else c)"

definition is_hex_letter :: "char \<Rightarrow> bool" where
  "is_hex_letter c \<longleftrightarrow> (let n = of_char (lower_char c) :: nat in 97 \<le> n \<and> n \<le> 102)"

definition hex_digit_val :: "char \<Rightarrow> int" where
  "hex_digit_val c = (if is_digit c then digit_val c else int (of_char (lower_char c)) - 87)"

text \<open>The sign that may open a number.\<close>

definition strip_sign :: "string \<Rightarrow> bool \<times> string" where
  "strip_sign s = (case s of [] \<Rightarrow> (False, [])
     | c # cs \<Rightarrow> if c = CHR ''-'' then (True, cs) else if c = CHR ''+'' then (False, cs) else (False, s))"

definition special_float :: "string \<Rightarrow> float64 option" where
  "special_float s =
     (let (neg, r) = strip_sign s; l = map lower_char r
      in if l = ''inf'' \<or> l = ''infinity'' then Some (if neg then NInf else PInf)
         else if map lower_char s = ''nan'' then Some NaN else None)"

record mantissa =
  m_val :: int
  m_frac :: nat
  m_dot :: bool
  m_digits :: bool

text \<open>The digits of the mantissa, up to the first character that cannot continue it.\<close>

fun read_mantissa :: "bool \<Rightarrow> string \<Rightarrow> mantissa \<Rightarrow> mantissa \<times> string" where
  "read_mantissa hex [] m = (m, [])"
| "read_mantissa hex (c # cs) m =
     (if c = CHR ''_'' then read_mantissa hex cs m
      else if c = CHR ''.'' then
        (if m_dot m then (m, c # cs) else read_mantissa hex cs (m\<lparr>m_dot := True\<rparr>))
      else if is_digit c \<or> hex \<and> is_hex_letter c then
        read_mantissa hex cs (m\<lparr>m_val := m_val m * (if hex then 16 else 10) + hex_digit_val c,
          m_frac := m_frac m + of_bool (m_dot m), m_digits := True\<rparr>)
      else (m, c # cs))"

fun read_exp_digits :: "string \<Rightarrow> int \<Rightarrow> int \<times> string" where
  "read_exp_digits [] e = (e, [])"
| "read_exp_digits (c # cs) e =
     (if c = CHR ''_'' then read_exp_digits cs e
      else if is_digit c then read_exp_digits cs (if e < 10000 then e * 10 + digit_val c else e)
      else (e, c # cs))"

definition read_exponent :: "string \<Rightarrow> (int \<times> string) option" where
  "read_exponent s =
     (case strip_sign s of (neg, []) \<Rightarrow> None
      | (neg, c # cs) \<Rightarrow>
          (if \<not> is_digit c then None
           else case read_exp_digits (c # cs) 0 of (e, r) \<Rightarrow> Some (if neg then - e else e, r)))"

text \<open>\<open>underscoreOK\<close>: underscores stand between digits, or between the base prefix and a digit.\<close>

datatype seen = SawStart | SawDigit | SawUnderscore | SawOther

fun underscores_between :: "bool \<Rightarrow> seen \<Rightarrow> string \<Rightarrow> bool" where
  "underscores_between hex saw [] \<longleftrightarrow> saw \<noteq> SawUnderscore"
| "underscores_between hex saw (c # cs) \<longleftrightarrow>
     (if is_digit c \<or> hex \<and> is_hex_letter c then underscores_between hex SawDigit cs
      else if c = CHR ''_'' then saw = SawDigit \<and> underscores_between hex SawUnderscore cs
      else saw \<noteq> SawUnderscore \<and> underscores_between hex SawOther cs)"

definition underscore_ok :: "string \<Rightarrow> bool" where
  "underscore_ok s =
     (let r = snd (strip_sign s)
      in case r of
           c # d # cs \<Rightarrow>
             (if c = CHR ''0'' \<and> lower_char d \<in> {CHR ''b'', CHR ''o'', CHR ''x''}
              then underscores_between (lower_char d = CHR ''x'') SawDigit cs
              else underscores_between False SawStart r)
         | _ \<Rightarrow> underscores_between False SawStart r)"

definition start_mantissa :: mantissa where
  "start_mantissa = \<lparr>m_val = 0, m_frac = 0, m_dot = False, m_digits = False\<rparr>"

definition base_prefix :: "string \<Rightarrow> bool \<times> string" where
  "base_prefix s = (case s of
       c # d # e # cs \<Rightarrow> (if c = CHR ''0'' \<and> lower_char d = CHR ''x'' then (True, e # cs) else (False, s))
     | _ \<Rightarrow> (False, s))"

definition scale :: "bool \<Rightarrow> mantissa \<Rightarrow> int \<Rightarrow> rat" where
  "scale hex m e =
     (if hex then of_int (m_val m) / 16 ^ m_frac m * 2 powi e else of_int (m_val m) / 10 ^ m_frac m * 10 powi e)"

text \<open>The exact value of a literal, \<^term>\<open>None\<close> when it is not one.\<close>

definition read_float :: "string \<Rightarrow> rat option" where
  "read_float s =
     (let (neg, r) = strip_sign s; (hex, r) = base_prefix r; (m, r) = read_mantissa hex r start_mantissa;
          expo = (case r of
              c # cs \<Rightarrow> (if lower_char c = (if hex then CHR ''p'' else CHR ''e'') then read_exponent cs
                         else if hex then None else Some (0, r))
            | [] \<Rightarrow> if hex then None else Some (0, []))
      in case expo of
           None \<Rightarrow> None
         | Some (e, rest) \<Rightarrow>
             (if m_digits m \<and> rest = [] \<and> (CHR ''_'' \<in> set s \<longrightarrow> underscore_ok s)
              then Some ((if neg then - 1 else 1) * scale hex m e) else None))"

definition parse_float :: "string \<Rightarrow> float64 option" where
  "parse_float s =
     (case special_float s of
        Some f \<Rightarrow> Some f
      | None \<Rightarrow>
          (case read_float s of
             None \<Rightarrow> None
           | Some x \<Rightarrow> (let f = float_of_rat x in if is_fin f then Some f else None)))"

section \<open>Decimal integers\<close>

lemma lower_digit: "is_digit c \<Longrightarrow> lower_char c = c"
  by (auto simp: is_digit_def lower_char_def)

lemma digit_not: "is_digit c \<Longrightarrow> c \<notin> {CHR ''_'', CHR ''.'', CHR ''-'', CHR ''+'', CHR ''i'', CHR ''n'', CHR ''x'', CHR '':''}"
  by (auto simp: is_digit_def)

lemma strip_sign_digits: "list_all is_digit s \<Longrightarrow> strip_sign s = (False, s)"
  by (cases s) (auto simp: strip_sign_def is_digit_def)

lemma special_digits: "list_all is_digit s \<Longrightarrow> special_float s = None"
proof -
  assume s: "list_all is_digit s"
  then have "map lower_char s = s" by (induction s) (auto simp: lower_digit)
  then show ?thesis using s digit_not [of "hd s"] by (cases s) (auto simp: special_float_def strip_sign_digits)
qed

lemma read_mantissa_digits:
  "list_all is_digit s \<Longrightarrow> \<not> m_dot m \<Longrightarrow> read_mantissa False s m =
     (m\<lparr>m_val := foldl (\<lambda>acc c. acc * 10 + digit_val c) (m_val m) s, m_digits := m_digits m \<or> s \<noteq> []\<rparr>, [])"
proof (induction s arbitrary: m)
  case (Cons c s)
  then have "c \<noteq> CHR ''_''" "c \<noteq> CHR ''.''" using digit_not by auto
  with Cons show ?case by (simp add: hex_digit_val_def)
qed simp

lemma read_float_digits:
  assumes "list_all is_digit s" "s \<noteq> []"
  shows "read_float s = Some (of_int (dec_val s))"
proof -
  have "base_prefix s = (False, s)"
    using assms digit_not lower_digit by (auto simp: base_prefix_def split: list.split)
  moreover have "CHR ''_'' \<notin> set s" using assms(1) digit_not by (auto simp: list_all_iff)
  moreover have "read_mantissa False s start_mantissa = (start_mantissa\<lparr>m_val := dec_val s, m_digits := True\<rparr>, [])"
    using read_mantissa_digits [OF assms(1), of start_mantissa] assms(2)
    by (simp add: start_mantissa_def dec_val_def)
  ultimately show ?thesis
    using assms by (simp add: read_float_def strip_sign_digits scale_def start_mantissa_def)
qed

lemma parse_float_itoa: "0 \<le> n \<Longrightarrow> n \<le> 2 ^ 53 \<Longrightarrow> parse_float (itoa n) = Some (Fin (of_int n))"
proof -
  assume n: "0 \<le> n" "n \<le> 2 ^ 53"
  let ?s = "nat_to_dec (nat n)"
  have s: "itoa n = ?s" "list_all is_digit ?s" "?s \<noteq> []" "dec_val ?s = n"
    using n nat_to_dec_digits [of "nat n"] by (simp_all add: itoa_def)
  have "float_of_rat (of_int n) = Fin (of_int n)" using f_of_int_fin [of n] n by (simp add: f_of_int_def)
  then show ?thesis using s by (simp add: parse_float_def special_digits read_float_digits)
qed

end
