(* ===== verification/Rate_Limit.thy ===== *)
theory Rate_Limit
  imports Token_Bucket Parse_Float
begin

text \<open>
  \<^verbatim>\<open>internal/resilience/ratelimit.go\<close>: the local token buckets, the limiter that selects the
  bucket of a request, and the parser of rate rules. A bucket's \<open>allow\<close> holds the mutex while it
  refills and takes a token, so it is one function on the record; its clock reading is an argument.
  The two counters are atomic and only ever incremented, by one per call.
\<close>

section \<open>Token buckets\<close>

record rate_limit_rule =
  rate_per_second :: float64
  burst :: int

record rate_limit_stats =
  st_allowed :: "64 word"
  st_rejected :: "64 word"

record token_bucket =
  tb_rule :: rate_limit_rule
  tb_tokens :: float64
  tb_last :: int
  tb_allowed :: "64 word"
  tb_rejected :: "64 word"

datatype bucket_error = ErrRate | ErrBurst

definition new_token_bucket :: "rate_limit_rule \<Rightarrow> int \<Rightarrow> bucket_error + token_bucket" where
  "new_token_bucket rule now =
     (if f_le (rate_per_second rule) (Fin 0) then Inl ErrRate
      else if burst rule \<le> 0 then Inl ErrBurst
      else Inr \<lparr>tb_rule = rule, tb_tokens = f_of_int (burst rule), tb_last = now, tb_allowed = 0, tb_rejected = 0\<rparr>)"

definition bucket_refill :: "int \<Rightarrow> token_bucket \<Rightarrow> token_bucket" where
  "bucket_refill now b =
     (let elapsed = seconds (time_sub now (tb_last b))
      in if f_lt (Fin 0) elapsed then
           (let tokens = f_add (tb_tokens b) (f_mul elapsed (rate_per_second (tb_rule b)));
                mx = f_of_int (burst (tb_rule b));
                tokens = (if f_lt mx tokens then mx else tokens)
            in b\<lparr>tb_tokens := tokens, tb_last := now\<rparr>)
         else b)"

definition bucket_allow :: "int \<Rightarrow> token_bucket \<Rightarrow> bool \<times> token_bucket" where
  "bucket_allow now b =
     (let b = bucket_refill now b; ok = f_le (Fin 1) (tb_tokens b);
          b = (if ok then b\<lparr>tb_tokens := f_sub (tb_tokens b) (Fin 1)\<rparr> else b);
          b = (if ok then b\<lparr>tb_allowed := tb_allowed b + 1\<rparr> else b\<lparr>tb_rejected := tb_rejected b + 1\<rparr>)
      in (ok, b))"

definition bucket_stats :: "token_bucket \<Rightarrow> rate_limit_stats" where
  "bucket_stats b = \<lparr>st_allowed = tb_allowed b, st_rejected = tb_rejected b\<rparr>"

section \<open>The limiter\<close>

record local_rate_limiter =
  default_bucket :: "token_bucket option"
  service_buckets :: "(string, token_bucket) gomap"
  route_buckets :: "(string, token_bucket) gomap"

datatype limiter_error =
    ErrDefaultRule bucket_error | ErrEmptyService | ErrServiceRule string bucket_error
  | ErrEmptyRoute | ErrRouteRule string bucket_error

text \<open>
  The loop that builds one map of buckets; \<open>tick n\<close> is the \<open>n\<close>-th reading of the clock during
  construction, and the list is the rule map in the order in which the range visits it.
\<close>

fun build_buckets ::
  "limiter_error \<Rightarrow> (string \<Rightarrow> bucket_error \<Rightarrow> limiter_error) \<Rightarrow> (nat \<Rightarrow> int) \<Rightarrow> nat \<Rightarrow>
   (string \<times> rate_limit_rule) list \<Rightarrow> (string, token_bucket) gomap \<Rightarrow>
   limiter_error + (string, token_bucket) gomap" where
  "build_buckets empty_err rule_err tick n [] m = Inr m"
| "build_buckets empty_err rule_err tick n ((key, rule) # rules) m =
     (if key = [] then Inl empty_err
      else case new_token_bucket rule (tick n) of
             Inl e \<Rightarrow> Inl (rule_err key e)
           | Inr b \<Rightarrow> build_buckets empty_err rule_err tick (n + 1) rules (gm_set key b m))"

definition new_local_rate_limiter ::
  "rate_limit_rule option \<Rightarrow> (string, rate_limit_rule) gomap \<Rightarrow> (string, rate_limit_rule) gomap \<Rightarrow> (nat \<Rightarrow> int) \<Rightarrow>
   limiter_error + local_rate_limiter" where
  "new_local_rate_limiter dflt services routes tick =
     (case (case dflt of
              None \<Rightarrow> Inr None
            | Some r \<Rightarrow> (case new_token_bucket r (tick 0) of Inl e \<Rightarrow> Inl (ErrDefaultRule e) | Inr b \<Rightarrow> Inr (Some b))) of
        Inl e \<Rightarrow> Inl e
      | Inr d \<Rightarrow>
          (case build_buckets ErrEmptyService ErrServiceRule tick 1 services [] of
             Inl e \<Rightarrow> Inl e
           | Inr sb \<Rightarrow>
               (case build_buckets ErrEmptyRoute ErrRouteRule tick (1 + length services) routes [] of
                  Inl e \<Rightarrow> Inl e
                | Inr rb \<Rightarrow> Inr \<lparr>default_bucket = d, service_buckets = sb, route_buckets = rb\<rparr>)))"

definition route_key :: "string \<Rightarrow> string \<Rightarrow> string" where
  "route_key service full_method = service @ ''|'' @ full_method"

text \<open>\<open>Allow\<close> of a possibly nil limiter.\<close>

definition limiter_allow ::
  "string \<Rightarrow> string \<Rightarrow> int \<Rightarrow> local_rate_limiter option \<Rightarrow> bool \<times> local_rate_limiter option" where
  "limiter_allow service full_method now l =
     (case l of
        None \<Rightarrow> (True, None)
      | Some l \<Rightarrow>
          (case gm_get (route_buckets l) (route_key service full_method) of
             Some b \<Rightarrow> (let (ok, b) = bucket_allow now b
                        in (ok, Some (l\<lparr>route_buckets := gm_set (route_key service full_method) b (route_buckets l)\<rparr>)))
           | None \<Rightarrow>
               (case gm_get (service_buckets l) service of
                  Some b \<Rightarrow> (let (ok, b) = bucket_allow now b
                             in (ok, Some (l\<lparr>service_buckets := gm_set service b (service_buckets l)\<rparr>)))
                | None \<Rightarrow>
                    (case default_bucket l of
                       Some b \<Rightarrow> (let (ok, b) = bucket_allow now b in (ok, Some (l\<lparr>default_bucket := Some b\<rparr>)))
                     | None \<Rightarrow> (True, Some l)))))"

definition limiter_stats :: "local_rate_limiter option \<Rightarrow> (string, rate_limit_stats) gomap" where
  "limiter_stats l =
     (case l of
        None \<Rightarrow> []
      | Some l \<Rightarrow>
          (let result = (case default_bucket l of Some b \<Rightarrow> gm_set ''default'' (bucket_stats b) [] | None \<Rightarrow> []);
               result = fold (\<lambda>(k, b). gm_set (''service:'' @ k) (bucket_stats b)) (service_buckets l) result
           in fold (\<lambda>(k, b). gm_set (''route:'' @ k) (bucket_stats b)) (route_buckets l) result))"

section \<open>The rule parser\<close>

datatype rule_error = ErrBadRule string | ErrBadRoute string | ErrNoRateBurst string | ErrBadRate string | ErrBadBurst string

definition parse_rule :: "bool \<Rightarrow> string \<Rightarrow> rule_error + string \<times> rate_limit_rule" where
  "parse_rule route raw =
     (case split_n2 CHR ''='' raw of
        [k, v] \<Rightarrow>
          (if trim_space k = [] then Inl (ErrBadRule raw)
           else let key = trim_space k
                in if route \<and> CHR ''|'' \<notin> set key then Inl (ErrBadRoute raw)
                   else (case split_n2 CHR '':'' (trim_space v) of
                           [r, b] \<Rightarrow>
                             (case parse_float (trim_space r) of
                                None \<Rightarrow> Inl (ErrBadRate raw)
                              | Some rate \<Rightarrow>
                                  (if f_le rate (Fin 0) then Inl (ErrBadRate raw)
                                   else (case atoi (trim_space b) of
                                           None \<Rightarrow> Inl (ErrBadBurst raw)
                                         | Some bst \<Rightarrow>
                                             (if bst \<le> 0 then Inl (ErrBadBurst raw)
                                              else Inr (key, \<lparr>rate_per_second = rate, burst = bst\<rparr>)))))
                         | _ \<Rightarrow> Inl (ErrNoRateBurst raw)))
      | _ \<Rightarrow> Inl (ErrBadRule raw))"

fun parse_rules :: "bool \<Rightarrow> string list \<Rightarrow> (string, rate_limit_rule) gomap \<Rightarrow> rule_error + (string, rate_limit_rule) gomap" where
  "parse_rules route [] result = Inr result"
| "parse_rules route (raw # raws) result =
     (let raw = trim_space raw
      in if raw = [] then parse_rules route raws result
         else case parse_rule route raw of
                Inl e \<Rightarrow> Inl e
              | Inr (key, rule) \<Rightarrow> parse_rules route raws (gm_set key rule result))"

definition parse_named_rate_rules :: "string \<Rightarrow> bool \<Rightarrow> rule_error + (string, rate_limit_rule) gomap" where
  "parse_named_rate_rules text route =
     (let text = trim_space text in if text = [] then Inr [] else parse_rules route (split_on CHR '';'' text) [])"

section \<open>Invariant and the contract\<close>

text \<open>
  The range in which the arithmetic of a bucket stays finite: a positive rate of at most \<open>2\<^sup>9\<^sup>0\<^sup>0\<close>, a
  burst of at most 53 bits, and a level between zero and the burst.
\<close>

definition rule_ok :: "rate_limit_rule \<Rightarrow> bool" where
  "rule_ok r \<longleftrightarrow> is_fin (rate_per_second r) \<and> 0 < fin_val (rate_per_second r) \<and>
     fin_val (rate_per_second r) \<le> 2 ^ 900 \<and> 1 \<le> burst r \<and> burst r \<le> 2 ^ 53"

definition bucket_ok :: "token_bucket \<Rightarrow> bool" where
  "bucket_ok b \<longleftrightarrow> rule_ok (tb_rule b) \<and> is_fin (tb_tokens b) \<and> 0 \<le> fin_val (tb_tokens b) \<and>
     fin_val (tb_tokens b) \<le> of_int (burst (tb_rule b))"

abbreviation tb_level :: "token_bucket \<Rightarrow> rat" where "tb_level b \<equiv> fin_val (tb_tokens b)"
abbreviation tb_cap :: "token_bucket \<Rightarrow> rat" where "tb_cap b \<equiv> of_int (burst (tb_rule b))"
abbreviation tb_rate :: "token_bucket \<Rightarrow> rat" where "tb_rate b \<equiv> fin_val (rate_per_second (tb_rule b))"

lemma is_finE: "is_fin f \<Longrightarrow> f = Fin (fin_val f)"
  by (cases f) auto

lemma burst_float: "rule_ok r \<Longrightarrow> f_of_int (burst r) = Fin (of_int (burst r))"
  by (rule f_of_int_fin) (simp add: rule_ok_def)

lemma bucket_ok_new: "rule_ok r \<Longrightarrow> new_token_bucket r now = Inr b \<Longrightarrow>
   bucket_ok b \<and> tb_last b = now \<and> tb_rule b = r \<and> tb_level b = of_int (burst r)"
  by (auto simp: new_token_bucket_def burst_float bucket_ok_def rule_ok_def split: if_splits)

text \<open>What \<open>bucket_refill\<close> computes in that range.\<close>

lemma time_sub_pos: "u \<le> t \<Longrightarrow> time_sub t u = min (2 ^ 63 - 1) (t - u)"
  by (simp add: time_sub_def)

lemma bucket_refill_later:
  assumes "bucket_ok b" "tb_last b < t" "d = time_sub t (tb_last b)"
  shows "\<exists>s y. seconds d = Fin s \<and> y = min (tb_cap b) (rnd (tb_level b + rnd (s * tb_rate b))) \<and>
     0 < d \<and> d < 2 ^ 63 \<and> bucket_refill t b = b\<lparr>tb_tokens := Fin y, tb_last := t\<rparr>"
proof -
  have d: "0 < d" "d < 2 ^ 63" using assms(2,3) by (simp_all add: time_sub_pos)
  from seconds_err [OF this] obtain s where s: "seconds d = Fin s" "0 < s" "s \<le> 2 ^ 35" by auto
  have rule: "rule_ok (tb_rule b)" using assms(1) by (simp add: bucket_ok_def)
  obtain tv rv where fin: "tb_tokens b = Fin tv" "rate_per_second (tb_rule b) = Fin rv"
    using assms(1) by (metis bucket_ok_def rule_ok_def is_finE)
  have t: "0 \<le> tb_level b" "tb_level b \<le> tb_cap b" using assms(1) by (simp_all add: bucket_ok_def)
  have r: "0 \<le> tb_rate b" "tb_rate b \<le> 2 ^ 900" using rule by (simp_all add: rule_ok_def)
  have "tb_cap b \<le> 2 ^ 53" using rule unfolding rule_ok_def by (metis of_int_le_iff of_int_numeral of_int_power)
  then have "tb_level b \<le> 2 ^ 53" using t(2) by (rule order_trans [rotated])
  then have "f_add (tb_tokens b) (f_mul (seconds d) (rate_per_second (tb_rule b))) =
      Fin (rnd (tb_level b + rnd (s * tb_rate b)))"
    using refill_fin [OF t(1) _ r less_imp_le [OF s(2)] s(3)] by (simp only: s(1) fin fin_val.simps)
  then have "bucket_refill t b = b\<lparr>tb_tokens := Fin (min (tb_cap b) (rnd (tb_level b + rnd (s * tb_rate b)))), tb_last := t\<rparr>"
    unfolding bucket_refill_def Let_def assms(3) [symmetric] using s burst_float [OF rule]
    by (simp add: min_def not_less)
  then show ?thesis using s d by blast
qed

lemma bucket_refill_same: "bucket_refill (tb_last b) b = b"
  by (simp add: bucket_refill_def time_sub_def)

lemma bucket_refill_spec:
  assumes "bucket_ok b" "tb_last b \<le> t" "g = tb_rate b * secs (t - tb_last b)"
  shows "\<exists>y. bucket_refill t b = b\<lparr>tb_tokens := Fin y, tb_last := t\<rparr> \<and> 0 \<le> y \<and> y \<le> tb_cap b \<and>
     y \<le> tb_level b + g * (1 + fuzz) + (tb_cap b + 1) * (1 / 2 ^ 51) \<and>
     (t - tb_last b < 2 ^ 63 \<longrightarrow> min (tb_cap b) (tb_level b + g * (1 - fuzz) - (tb_cap b + 1) * fuzz) \<le> y)"
proof -
  have lv: "0 \<le> tb_level b" "tb_level b \<le> tb_cap b" and fin: "tb_tokens b = Fin (tb_level b)"
    and rule: "0 \<le> tb_rate b" "0 \<le> burst (tb_rule b)" "burst (tb_rule b) \<le> 2 ^ 53"
    using assms(1) is_finE by (auto simp: bucket_ok_def rule_ok_def)
  have cap: "0 \<le> tb_cap b + 1" using rule(2) by simp
  show ?thesis
  proof (cases "tb_last b = t")
    case True
    then have eq: "bucket_refill t b = b\<lparr>tb_tokens := Fin (tb_level b), tb_last := t\<rparr>"
      using fin bucket_refill_same [of b] by simp
    have "g = 0" using True assms(3) by simp
    then have "tb_level b \<le> tb_level b + g * (1 + fuzz) + (tb_cap b + 1) * (1 / 2 ^ 51)"
      "tb_level b + g * (1 - fuzz) - (tb_cap b + 1) * fuzz \<le> tb_level b" using cap by simp_all
    then show ?thesis using eq lv by (intro exI [of _ "tb_level b"]) (auto simp: min_le_iff_disj)
  next
    case False
    define d where "d = time_sub t (tb_last b)"
    have lt: "tb_last b < t" using False assms(2) by simp
    from bucket_refill_later [OF assms(1) lt d_def] obtain s y where
      y: "seconds d = Fin s" "y = min (tb_cap b) (rnd (tb_level b + rnd (s * tb_rate b)))" "0 < d" "d < 2 ^ 63"
        "bucket_refill t b = b\<lparr>tb_tokens := Fin y, tb_last := t\<rparr>" by blast
    let ?g = "tb_rate b * secs d"
    note st = refill_step [OF lv(1) rule(2,3) rule(1) y(3,4,1,2) refl]
    have "d \<le> t - tb_last b" using lt by (simp add: d_def time_sub_pos)
    then have "?g \<le> g" unfolding assms(3) using rule(1) by (intro mult_left_mono divide_right_mono) auto
    then have "?g + ?g * fuzz \<le> g * (1 + fuzz)"
      using mult_right_mono [of ?g g "1 + fuzz"] by (simp only: distrib_left mult_1_right) simp
    then have up: "y \<le> tb_level b + g * (1 + fuzz) + (tb_cap b + 1) * (1 / 2 ^ 51)" using st(1) by linarith
    have low: "min (tb_cap b) (tb_level b + g * (1 - fuzz) - (tb_cap b + 1) * fuzz) \<le> y" if "t - tb_last b < 2 ^ 63"
    proof -
      have "d = t - tb_last b" using that lt by (simp add: d_def time_sub_pos)
      then have "?g = g" unfolding assms(3) by simp
      moreover have "(tb_cap b + 1) * (1 / 2 ^ 50) \<le> (tb_cap b + 1) * fuzz" using cap by (intro mult_left_mono) auto
      ultimately have "tb_level b + g * (1 - fuzz) - (tb_cap b + 1) * fuzz \<le>
          tb_level b + ?g - ?g * fuzz - (tb_cap b + 1) * (1 / 2 ^ 50)"
        by (simp only: right_diff_distrib mult_1_right)
      then show ?thesis using st(2) by (auto simp: min_le_iff_disj)
    qed
    show ?thesis using y(5) st(3,4) up low by blast
  qed
qed

text \<open>The outcome of \<open>allow\<close> on the refilled bucket.\<close>

lemma bucket_allow_spec:
  assumes "bucket_ok b" "tb_last b \<le> t" "bucket_refill t b = b\<lparr>tb_tokens := Fin y, tb_last := t\<rparr>"
    "0 \<le> y" "y \<le> tb_cap b" "bucket_allow t b = (g, b')"
  shows "g \<longleftrightarrow> 1 \<le> y" "tb_last b' = t" "tb_rule b' = tb_rule b" "bucket_ok b'"
    "tb_level b' + of_bool g \<le> y + (tb_cap b + 1) * (1 / 2 ^ 52)"
proof -
  have cap: "burst (tb_rule b) \<le> 2 ^ 53" "0 \<le> tb_cap b + 1" using assms(1) by (simp_all add: bucket_ok_def rule_ok_def)
  show g: "g \<longleftrightarrow> 1 \<le> y" and "tb_last b' = t" and rule: "tb_rule b' = tb_rule b"
    using assms(3,6) by (auto simp: bucket_allow_def Let_def)
  have tok: "tb_tokens b' = (if g then f_sub (Fin y) (Fin 1) else Fin y)"
    using assms(3,6) by (auto simp: bucket_allow_def Let_def)
  show "bucket_ok b'" "tb_level b' + of_bool g \<le> y + (tb_cap b + 1) * (1 / 2 ^ 52)"
  proof -
    show "bucket_ok b'"
    proof (cases g)
      case True
      then show ?thesis using tok take_one(1-3) [OF _ assms(5) cap(1)] g assms(1)
        by (simp add: bucket_ok_def rule)
    next
      case False
      then show ?thesis using tok assms(1,4,5) by (simp add: bucket_ok_def rule)
    qed
    show "tb_level b' + of_bool g \<le> y + (tb_cap b + 1) * (1 / 2 ^ 52)"
    proof (cases g)
      case True
      then show ?thesis using tok take_one(1,4) [OF _ assms(5) cap(1)] g by simp
    next
      case False
      then show ?thesis using tok cap(2) by simp
    qed
  qed
qed

interpretation rate_bucket: token_source bucket_allow tb_level tb_last tb_cap tb_rate
    "\<lambda>t b. fin_val (tb_tokens (bucket_refill t b))" bucket_ok
proof
  fix s t g s'
  assume ok: "bucket_ok s" and t: "tb_last s \<le> t"
  from bucket_refill_spec [OF ok t refl] obtain y where
    y: "bucket_refill t s = s\<lparr>tb_tokens := Fin y, tb_last := t\<rparr>" "0 \<le> y" "y \<le> tb_cap s" by blast
  obtain g0 s0 where c0: "bucket_allow t s = (g0, s0)" by fastforce
  note sp0 = bucket_allow_spec [OF ok t y c0]
  show "fst (bucket_allow t s) \<longleftrightarrow> 1 \<le> fin_val (tb_tokens (bucket_refill t s))"
    using sp0(1) c0 y(1) by simp
  assume c: "bucket_allow t s = (g, s')"
  note sp = bucket_allow_spec [OF ok t y c]
  show "bucket_ok s' \<and> tb_cap s' = tb_cap s \<and> tb_rate s' = tb_rate s \<and> tb_last s' = t" using sp by simp
  show "tb_level s' + of_bool g \<le> fin_val (tb_tokens (bucket_refill t s)) + (tb_cap s + 1) * (1 / 2 ^ 52)"
    using sp(5) y(1) by simp
next
  fix s t
  assume ok: "bucket_ok s" and t: "tb_last s \<le> t"
  from bucket_refill_spec [OF ok t refl]
  show "fin_val (tb_tokens (bucket_refill t s)) \<le> tb_level s + tb_rate s * secs (t - tb_last s) * (1 + fuzz) + (tb_cap s + 1) * (1 / 2 ^ 51)"
    by auto
  assume "t - tb_last s < 2 ^ 63"
  with bucket_refill_spec [OF ok t refl]
  show "min (tb_cap s) (tb_level s + tb_rate s * secs (t - tb_last s) * (1 - fuzz) - (tb_cap s + 1) * fuzz) \<le> fin_val (tb_tokens (bucket_refill t s))"
    by auto
qed (simp add: bucket_ok_def)

section \<open>The buckets of a limiter\<close>

datatype rule_id = RouteRule string | ServiceRule string | DefaultRule

definition limiter_bucket :: "local_rate_limiter \<Rightarrow> rule_id \<Rightarrow> token_bucket option" where
  "limiter_bucket l i = (case i of RouteRule k \<Rightarrow> gm_get (route_buckets l) k
     | ServiceRule k \<Rightarrow> gm_get (service_buckets l) k | DefaultRule \<Rightarrow> default_bucket l)"

text \<open>The most specific rule there is for a request: route before service before default.\<close>

definition governing :: "local_rate_limiter \<Rightarrow> string \<Rightarrow> string \<Rightarrow> rule_id option" where
  "governing l service full_method =
     List.find (\<lambda>i. limiter_bucket l i \<noteq> None)
       [RouteRule (route_key service full_method), ServiceRule service, DefaultRule]"

lemma limiter_allow_governed:
  assumes "governing l s m = Some i" "limiter_allow s m t (Some l) = (ok, l')"
  shows "\<exists>l1 b b'. l' = Some l1 \<and> limiter_bucket l i = Some b \<and> bucket_allow t b = (ok, b') \<and>
     limiter_bucket l1 = (limiter_bucket l)(i := Some b')"
  using assms
  by (auto simp: limiter_allow_def governing_def limiter_bucket_def fun_eq_iff
      split: option.splits if_splits prod.splits rule_id.splits)

lemma limiter_allow_ungoverned:
  "governing l s m = None \<Longrightarrow> limiter_allow s m t (Some l) = (True, Some l)"
  by (auto simp: limiter_allow_def governing_def limiter_bucket_def split: option.splits if_splits)

lemma governing_cong:
  "(\<And>i. limiter_bucket l i = None \<longleftrightarrow> limiter_bucket l' i = None) \<Longrightarrow> governing l s m = governing l' s m"
  by (simp add: governing_def)

text \<open>A run of requests, each a service, a method and a time; what one rule sees of it.\<close>

type_synonym request = "string \<times> string \<times> int"

fun run_requests :: "request list \<Rightarrow> local_rate_limiter option \<Rightarrow> bool list \<times> local_rate_limiter option" where
  "run_requests [] l = ([], l)"
| "run_requests ((s, m, t) # rs) l =
     (let (ok, l) = limiter_allow s m t l; (oks, l) = run_requests rs l in (ok # oks, l))"

definition governed_times :: "local_rate_limiter \<Rightarrow> rule_id \<Rightarrow> request list \<Rightarrow> int list" where
  "governed_times l i rs = map (\<lambda>(s, m, t). t) (filter (\<lambda>(s, m, t). governing l s m = Some i) rs)"

definition governed_answers :: "local_rate_limiter \<Rightarrow> rule_id \<Rightarrow> request list \<Rightarrow> bool list \<Rightarrow> bool list" where
  "governed_answers l i rs oks = map snd (filter (\<lambda>((s, m, t), ok). governing l s m = Some i) (zip rs oks))"

lemma run_requests_bucket:
  assumes "run_requests rs (Some l) = (oks, l')" "limiter_bucket l i = Some b"
  shows "\<exists>l1 b'. l' = Some l1 \<and> limiter_bucket l1 i = Some b' \<and>
     run_calls bucket_allow (governed_times l i rs) b = (governed_answers l i rs oks, b')"
  using assms
proof (induction rs arbitrary: l oks b)
  case Nil
  then show ?case by (auto simp: governed_times_def governed_answers_def)
next
  case (Cons r rs)
  obtain s m t where r: "r = (s, m, t)" by (cases r)
  obtain ok l0 where a: "limiter_allow s m t (Some l) = (ok, l0)" by fastforce
  obtain oks1 where run: "run_requests rs l0 = (oks1, l')" "oks = ok # oks1"
    using Cons.prems(1) a r by (auto split: prod.splits)
  show ?case
  proof (cases "governing l s m")
    case None
    then have l0: "l0 = Some l" using limiter_allow_ungoverned [of l s m t] a by simp
    show ?thesis using Cons.IH [of l oks1 b] run l0 Cons.prems(2) r None
      by (simp add: governed_times_def governed_answers_def)
  next
    case (Some j)
    from limiter_allow_governed [OF Some a] obtain l2 c c' where
      l2: "l0 = Some l2" "limiter_bucket l j = Some c" "bucket_allow t c = (ok, c')"
        "limiter_bucket l2 = (limiter_bucket l)(j := Some c')" by blast
    have gov: "governing l2 s' m' = governing l s' m'" for s' m'
      by (rule governing_cong) (use l2 in auto)
    have same: "governed_times l2 i rs = governed_times l i rs" "governed_answers l2 i rs oks1 = governed_answers l i rs oks1"
      by (simp_all add: governed_times_def governed_answers_def gov)
    show ?thesis
    proof (cases "j = i")
      case True
      have "limiter_bucket l2 i = Some c'" using l2(4) True by simp
      from Cons.IH [OF run(1) [unfolded l2(1)] this] show ?thesis
        using Some True l2(2,3) Cons.prems(2) run(2) r same
        by (auto simp: governed_times_def governed_answers_def)
    next
      case False
      have "limiter_bucket l2 i = Some b" using l2(4) False Cons.prems(2) by simp
      from Cons.IH [OF run(1) [unfolded l2(1)] this] show ?thesis
        using Some False run(2) r same
        by (auto simp: governed_times_def governed_answers_def)
    qed
  qed
qed

section \<open>Lemmas on the parser\<close>

lemma plain_itoa: "0 \<le> n \<Longrightarrow> list_all plain (itoa n)"
  unfolding list_all_iff by (rule ballI, drule itoa_chars) (auto simp: plain_def is_digit_def)

definition rule_text :: "string \<times> int \<times> int \<Rightarrow> string" where
  "rule_text = (\<lambda>(k, r, b). k @ ''='' @ itoa r @ '':'' @ itoa b)"

definition key_ok :: "bool \<Rightarrow> string \<Rightarrow> bool" where
  "key_ok route k \<longleftrightarrow> k \<noteq> [] \<and> list_all plain k \<and> CHR '';'' \<notin> set k \<and> CHR ''='' \<notin> set k \<and> (route \<longrightarrow> CHR ''|'' \<in> set k)"

lemma itoa_no: "0 \<le> n \<Longrightarrow> c \<in> {CHR '':'', CHR '';'', CHR ''=''} \<Longrightarrow> c \<notin> set (itoa n)"
  using itoa_chars [of c n] by (auto simp: is_digit_def)

lemma parse_rule_text:
  assumes "key_ok route k" "1 \<le> r" "r \<le> 2 ^ 53" "1 \<le> b" "b < 2 ^ 63"
  shows "parse_rule route (rule_text (k, r, b)) = Inr (k, \<lparr>rate_per_second = Fin (of_int r), burst = b\<rparr>)"
proof -
  let ?v = "itoa r @ CHR '':'' # itoa b"
  have v: "list_all plain ?v" using plain_itoa [of r] plain_itoa [of b] assms by (simp add: plain_def)
  have "split_n2 CHR ''='' (rule_text (k, r, b)) = [k, ?v]"
    using assms(1) by (simp add: split_n2_def rule_text_def cut_append key_ok_def)
  moreover have "split_n2 CHR '':'' ?v = [itoa r, itoa b]"
    using itoa_no [of r] assms by (simp add: split_n2_def cut_append)
  moreover have "trim_space k = k" "k \<noteq> []" "route \<longrightarrow> CHR ''|'' \<in> set k" using assms(1) by (simp_all add: key_ok_def trim_space_plain)
  moreover have "parse_float (itoa r) = Some (Fin (of_int r))" "atoi (itoa b) = Some b"
    using assms parse_float_itoa [of r] by (simp_all add: in64_def)
  ultimately show ?thesis using assms v plain_itoa [of r] plain_itoa [of b]
    by (simp add: parse_rule_def trim_space_plain)
qed

lemma parse_rules_text:
  assumes "\<And>k r b. (k, r, b) \<in> set rules \<Longrightarrow> key_ok route k \<and> 1 \<le> r \<and> r \<le> 2 ^ 53 \<and> 1 \<le> b \<and> b < 2 ^ 63"
  shows "parse_rules route (map rule_text rules) res =
     Inr (fold (\<lambda>(k, v). gm_set k v) (map (\<lambda>(k, r, b). (k, \<lparr>rate_per_second = Fin (of_int r), burst = b\<rparr>)) rules) res)"
  using assms
proof (induction rules arbitrary: res)
  case (Cons x rules)
  obtain k r b where x: "x = (k, r, b)" by (cases x)
  then have ok: "key_ok route k" "1 \<le> r" "r \<le> 2 ^ 53" "1 \<le> b" "b < 2 ^ 63" using Cons.prems [of k r b] by auto
  have "list_all plain (rule_text (k, r, b))"
    using ok plain_itoa [of r] plain_itoa [of b] by (simp add: rule_text_def key_ok_def plain_def)
  then have "trim_space (rule_text (k, r, b)) = rule_text (k, r, b)" by (rule trim_space_plain)
  moreover have "rule_text (k, r, b) \<noteq> []" by (simp add: rule_text_def)
  moreover have "parse_rules route (map rule_text rules) res' =
     Inr (fold (\<lambda>(k, v). gm_set k v) (map (\<lambda>(k, r, b). (k, \<lparr>rate_per_second = Fin (of_int r), burst = b\<rparr>)) rules) res')" for res'
    by (rule Cons.IH) (use Cons.prems in auto)
  ultimately show ?case using parse_rule_text [OF ok] x by (simp add: Let_def)
qed simp

lemma parse_rule_valid:
  "parse_rule route raw = Inr (k, rule) \<Longrightarrow>
   k \<noteq> [] \<and> \<not> f_le (rate_per_second rule) (Fin 0) \<and> 1 \<le> burst rule \<and> (route \<longrightarrow> CHR ''|'' \<in> set k)"
  by (auto simp: parse_rule_def Let_def split: list.splits if_splits option.splits)

lemma parse_rules_valid:
  assumes "parse_rules route raws res = Inr rules" "gm_wf res"
    "\<And>k rule. gm_get res k = Some rule \<Longrightarrow> k \<noteq> [] \<and> \<not> f_le (rate_per_second rule) (Fin 0) \<and> 1 \<le> burst rule"
  shows "gm_wf rules \<and>
    (\<forall>k rule. gm_get rules k = Some rule \<longrightarrow> k \<noteq> [] \<and> \<not> f_le (rate_per_second rule) (Fin 0) \<and> 1 \<le> burst rule)"
  using assms
proof (induction raws arbitrary: res)
  case (Cons raw raws)
  show ?case
  proof (cases "trim_space raw = []")
    case True
    with Cons.prems(1) have "parse_rules route raws res = Inr rules" by (simp add: Let_def)
    from Cons.IH [OF this Cons.prems(2,3)] show ?thesis by blast
  next
    case False
    then obtain k rule where pr: "parse_rule route (trim_space raw) = Inr (k, rule)"
        "parse_rules route raws (gm_set k rule res) = Inr rules"
      using Cons.prems(1) by (auto simp: Let_def split: sum.splits prod.splits)
    show ?thesis
      by (rule Cons.IH [OF pr(2)])
        (use Cons.prems(2,3) parse_rule_valid [OF pr(1)] in \<open>auto split: if_splits\<close>)
  qed
qed auto

lemma parsed_valid:
  assumes "parse_named_rate_rules text route = Inr rules"
  shows "gm_wf rules"
    "(k, rule) \<in> set rules \<Longrightarrow> k \<noteq> [] \<and> \<not> f_le (rate_per_second rule) (Fin 0) \<and> 1 \<le> burst rule"
proof -
  have "gm_wf rules \<and>
    (\<forall>k rule. gm_get rules k = Some rule \<longrightarrow> k \<noteq> [] \<and> \<not> f_le (rate_per_second rule) (Fin 0) \<and> 1 \<le> burst rule)"
    using assms parse_rules_valid [of route "split_on CHR '';'' (trim_space text)" "[]" rules]
    by (auto simp: parse_named_rate_rules_def Let_def split: if_splits)
  then show "gm_wf rules"
    "(k, rule) \<in> set rules \<Longrightarrow> k \<noteq> [] \<and> \<not> f_le (rate_per_second rule) (Fin 0) \<and> 1 \<le> burst rule"
    by (simp_all add: gm_mem_get)
qed

definition full_buckets ::
  "(nat \<Rightarrow> int) \<Rightarrow> (string, rate_limit_rule) gomap \<Rightarrow> (string \<Rightarrow> token_bucket option) \<Rightarrow> bool" where
  "full_buckets tick rules get \<longleftrightarrow>
     (\<forall>k. case gm_get rules k of
            None \<Rightarrow> get k = None
          | Some rule \<Rightarrow> \<exists>j b. get k = Some b \<and> new_token_bucket rule (tick j) = Inr b)"

text \<open>Building the buckets of valid rules succeeds and gives each key a full bucket of its rule.\<close>

lemma build_buckets_valid:
  assumes "\<And>k rule. (k, rule) \<in> set rules \<Longrightarrow> k \<noteq> [] \<and> \<not> f_le (rate_per_second rule) (Fin 0) \<and> 1 \<le> burst rule"
    "gm_wf rules"
  shows "\<exists>m'. build_buckets e1 e2 tick n rules m = Inr m' \<and>
     (\<forall>k. case gm_get rules k of
            None \<Rightarrow> gm_get m' k = gm_get m k
          | Some rule \<Rightarrow> \<exists>j. \<exists>b. gm_get m' k = Some b \<and> new_token_bucket rule (tick j) = Inr b)"
  using assms
proof (induction rules arbitrary: n m)
  case (Cons x rules)
  obtain k rule where x: "x = (k, rule)" by fastforce
  then have v: "k \<noteq> []" "\<not> f_le (rate_per_second rule) (Fin 0)" "1 \<le> burst rule" using Cons.prems(1) [of k rule] by auto
  then obtain b where b: "new_token_bucket rule (tick n) = Inr b" by (simp add: new_token_bucket_def)
  have wf: "gm_wf rules" "gm_get rules k = None"
    using Cons.prems(2) x by (auto simp: gm_wf_def gm_get_def map_of_eq_None_iff)
  obtain m' where m': "build_buckets e1 e2 tick (n + 1) rules (gm_set k b m) = Inr m'"
     "\<forall>q. case gm_get rules q of None \<Rightarrow> gm_get m' q = gm_get (gm_set k b m) q
          | Some rule \<Rightarrow> \<exists>j. \<exists>b. gm_get m' q = Some b \<and> new_token_bucket rule (tick j) = Inr b"
    using Cons.IH [OF _ wf(1), of "n + 1" "gm_set k b m"] Cons.prems(1) by auto
  have "build_buckets e1 e2 tick n (x # rules) m = Inr m'" using x v b m'(1) by simp
  moreover have "case gm_get (x # rules) q of None \<Rightarrow> gm_get m' q = gm_get m q
      | Some rule \<Rightarrow> \<exists>j. \<exists>b. gm_get m' q = Some b \<and> new_token_bucket rule (tick j) = Inr b" for q
    using m'(2) [rule_format, of q] wf(2) b x
    by (cases "q = k") (auto simp: gm_get_Cons split: option.splits)
  ultimately show ?case by blast
qed simp

lemma build_buckets_full:
  assumes "parse_named_rate_rules text route = Inr rules"
  shows "\<exists>m. build_buckets e1 e2 tick n rules [] = Inr m \<and> full_buckets tick rules (gm_get m)"
  using build_buckets_valid [OF parsed_valid(2,1) [OF assms], of e1 e2 tick n "[]"]
  unfolding full_buckets_def gm_get_Nil .

text \<open>A bucket whose rate is not a number.\<close>

lemma nan_bucket_rejects:
  assumes "rate_per_second (tb_rule b) = NaN" "tb_tokens b = NaN \<or> tb_last b < t"
  shows "\<exists>b'. bucket_allow t b = (False, b') \<and> tb_tokens b' = NaN \<and> tb_rule b' = tb_rule b"
proof -
  have "tb_tokens (bucket_refill t b) = NaN \<and> tb_rule (bucket_refill t b) = tb_rule b"
  proof (cases "tb_last b < t")
    case True
    then have "0 < time_sub t (tb_last b)" "time_sub t (tb_last b) < 2 ^ 63" by (simp_all add: time_sub_pos)
    from seconds_err [OF this] obtain s where "seconds (time_sub t (tb_last b)) = Fin s" "0 < s" by auto
    then show ?thesis using assms(1) by (cases "tb_tokens b") (simp_all add: bucket_refill_def Let_def)
  next
    case False
    with assms show ?thesis by (simp add: bucket_refill_def Let_def)
  qed
  then show ?thesis by (simp add: bucket_allow_def Let_def)
qed

lemma nan_bucket_run:
  assumes "rate_per_second (tb_rule b) = NaN" "tb_tokens b = NaN"
  shows "fst (run_calls bucket_allow ts b) = replicate (length ts) False"
  using assms
proof (induction ts arbitrary: b)
  case (Cons t ts)
  from nan_bucket_rejects [of b t] Cons.prems obtain b' where
    b': "bucket_allow t b = (False, b')" "tb_tokens b' = NaN" "tb_rule b' = tb_rule b" by auto
  then show ?case using Cons.IH [of b'] Cons.prems by (auto split: prod.split)
qed simp

section \<open>Properties\<close>

definition demo_rule :: rate_limit_rule where
  "demo_rule = \<lparr>rate_per_second = Fin 2, burst = 3\<rparr>"

definition demo_bucket :: "float64 \<Rightarrow> int \<Rightarrow> token_bucket" where
  "demo_bucket tok t = \<lparr>tb_rule = demo_rule, tb_tokens = tok, tb_last = t, tb_allowed = 0, tb_rejected = 0\<rparr>"

lemma demo_rule_ok: "rule_ok demo_rule"
proof -
  have "(2 :: rat) \<le> 2 ^ 900" using power_increasing [of 1 900 "2 :: rat"] by simp
  then show ?thesis by (simp only: rule_ok_def demo_rule_def rate_limit_rule.simps is_fin.simps fin_val.simps) simp
qed

text \<open>
  C15: admission bound. Whatever requests arrive, the number a rule admits between two instants is at
  most its burst plus its rate times the elapsed time, up to the rounding of the binary64
  arithmetic: a relative \<open>2\<^sup>-\<^sup>4\<^sup>9\<close> on the refill and \<open>(burst + 1) * 2\<^sup>-\<^sup>4\<^sup>9\<close> per request. The rule is the
  one that governs the requests, route before service before default, and requests governed by
  other rules do not enter the bound.
\<close>

theorem limiter_rate_bound:
  assumes "run_requests rs (Some l) = (oks, l')" "limiter_bucket l i = Some b" "bucket_ok b"
    and "ts = governed_times l i rs" "sorted (tb_last b # ts)"
  shows "of_nat (granted_calls (governed_answers l i rs oks)) \<le>
     tb_cap b + tb_rate b * secs (last (tb_last b # ts) - tb_last b) * (1 + fuzz) +
     of_nat (length ts) * ((tb_cap b + 1) * fuzz)"
proof -
  from run_requests_bucket [OF assms(1,2)] obtain b' where
    "run_calls bucket_allow ts b = (governed_answers l i rs oks, b')" using assms(4) by blast
  from rate_bucket.run_admitted [OF assms(3,5) this] show ?thesis .
qed

theorem limiter_rate_bound_witness:
  "of_nat (granted_calls (governed_answers \<lparr>default_bucket = Some (demo_bucket (Fin 3) 0), service_buckets = [], route_buckets = []\<rparr>
       DefaultRule [(''a'', ''m'', 5), (''b'', ''m'', 9)]
       (fst (run_requests [(''a'', ''m'', 5), (''b'', ''m'', 9)]
          (Some \<lparr>default_bucket = Some (demo_bucket (Fin 3) 0), service_buckets = [], route_buckets = []\<rparr>))))) \<le>
     (3 :: rat) + 2 * secs 9 * (1 + fuzz) + 2 * (4 * fuzz)"
proof -
  let ?l = "\<lparr>default_bucket = Some (demo_bucket (Fin 3) 0), service_buckets = [], route_buckets = []\<rparr>"
  let ?rs = "[(''a'', ''m'', 5), (''b'', ''m'', 9 :: int)]"
  let ?b = "demo_bucket (Fin 3) 0"
  obtain oks l' where run: "run_requests ?rs (Some ?l) = (oks, l')" by fastforce
  have b: "limiter_bucket ?l DefaultRule = Some ?b" "bucket_ok ?b"
    using demo_rule_ok by (simp_all add: limiter_bucket_def bucket_ok_def demo_bucket_def demo_rule_def)
  have ts: "governed_times ?l DefaultRule ?rs = [5, 9]"
    by (simp add: governed_times_def governing_def limiter_bucket_def)
  have "sorted (tb_last ?b # [5, 9])" by (simp add: demo_bucket_def)
  from limiter_rate_bound [OF run b ts [symmetric] this] run show ?thesis
    by (simp add: demo_bucket_def demo_rule_def)
qed

text \<open>
  No starvation. A bucket admits a request as soon as the tokens left and the tokens the rate
  has added since the last request reach one, up to the same rounding; so after an idle time of
  slightly more than \<open>1 / rate\<close> seconds the next request is admitted whatever came before.
\<close>

theorem bucket_admits_after_idle:
  assumes "bucket_ok b" "tb_last b \<le> t" "t - tb_last b < 2 ^ 63"
    and "1 + (tb_cap b + 1) * fuzz \<le> tb_level b + tb_rate b * secs (t - tb_last b) * (1 - fuzz)"
  shows "fst (bucket_allow t b) \<and> bucket_ok (snd (bucket_allow t b)) \<and> tb_last (snd (bucket_allow t b)) = t"
proof -
  have "1 \<le> tb_cap b" using assms(1) by (simp add: bucket_ok_def rule_ok_def)
  from rate_bucket.granted_after [OF assms(1-3) this assms(4)]
  show ?thesis using rate_bucket.ok_call [OF assms(1,2) prod.collapse [symmetric]] by simp
qed

theorem bucket_admits_after_idle_witness:
  "fst (bucket_allow (7 * second) (demo_bucket (Fin 0) (6 * second)))"
proof -
  have "bucket_ok (demo_bucket (Fin 0) (6 * second))"
    using demo_rule_ok by (simp add: bucket_ok_def demo_bucket_def demo_rule_def)
  then show ?thesis
    using bucket_admits_after_idle [of "demo_bucket (Fin 0) (6 * second)" "7 * second"]
    by (simp add: demo_bucket_def demo_rule_def)
qed

text \<open>
  Rule round trip. A list of rules with distinct printable keys, whole rates and bursts in the
  range of Go's \<open>int\<close>, written as \<open>key=rate:burst\<close> and separated by semicolons, is parsed back to
  exactly these rules; a route key needs its separator.
\<close>

theorem rate_rules_roundtrip:
  assumes "rules \<noteq> []" "distinct (map fst rules)"
    and "\<forall>(k, r, b) \<in> set rules. key_ok route k \<and> 1 \<le> r \<and> r \<le> 2 ^ 53 \<and> 1 \<le> b \<and> b < 2 ^ 63"
  shows "parse_named_rate_rules (join_with CHR '';'' (map rule_text rules)) route =
     Inr (map (\<lambda>(k, r, b). (k, \<lparr>rate_per_second = Fin (of_int r), burst = b\<rparr>)) rules)"
proof -
  let ?ws = "map rule_text rules" and ?out = "map (\<lambda>(k, r, b). (k, \<lparr>rate_per_second = Fin (of_int r), burst = b\<rparr>)) rules"
  have ws: "list_all plain w \<and> CHR '';'' \<notin> set w \<and> w \<noteq> []" if "w \<in> set ?ws" for w
    using that assms(3) plain_itoa itoa_no by (fastforce simp: rule_text_def key_ok_def plain_def)
  have semi: "plain CHR '';''" by (simp add: plain_def)
  have plain: "list_all plain (join_with CHR '';'' ws)" if "\<forall>w \<in> set ws. list_all plain w" for ws
    using that semi by (induction "CHR '';''" ws rule: join_with.induct) auto
  have "join_with CHR '';'' ?ws \<noteq> []"
    using assms(1) ws by (cases rules; cases "tl rules") (auto simp: rule_text_def)
  moreover have "trim_space (join_with CHR '';'' ?ws) = join_with CHR '';'' ?ws"
    by (rule trim_space_plain [OF plain]) (use ws in blast)
  moreover have "split_on CHR '';'' (join_with CHR '';'' ?ws) = ?ws"
    by (rule split_join) (use ws assms(1) in auto)
  moreover have "parse_rules route ?ws [] = Inr (fold (\<lambda>(k, v). gm_set k v) ?out [])"
    by (rule parse_rules_text) (use assms(3) in auto)
  moreover have "fold (\<lambda>(k, v). gm_set k v) ?out [] = ?out"
  proof -
    have "map fst ?out = map fst rules" by auto
    then have "distinct (map fst ([] @ ?out))" using assms(2) by (simp only: append_Nil)
    from fold_gm_set_fresh [OF this] show ?thesis by simp
  qed
  ultimately show ?thesis by (simp add: parse_named_rate_rules_def Let_def)
qed

theorem rate_rules_roundtrip_witness:
  "parse_named_rate_rules (join_with CHR '';'' (map rule_text [(''echo'', 10, 5), (''pay'', 2, 1)])) False =
     Inr [(''echo'', \<lparr>rate_per_second = Fin 10, burst = 5\<rparr>), (''pay'', \<lparr>rate_per_second = Fin 2, burst = 1\<rparr>)]"
  using rate_rules_roundtrip [of "[(''echo'', 10, 5), (''pay'', 2, 1)]" False]
  by (simp add: key_ok_def plain_def)

text \<open>
  every rule text that parses builds a limiter. The limiter has exactly the parsed keys as its
  service and route rules, each with a bucket of its own that starts full.
\<close>

theorem parsed_rules_build:
  assumes "parse_named_rate_rules stext False = Inr S" "parse_named_rate_rules rtext True = Inr R"
  shows "\<exists>l. new_local_rate_limiter None S R tick = Inr l \<and> limiter_bucket l DefaultRule = None \<and>
     full_buckets tick S (\<lambda>k. limiter_bucket l (ServiceRule k)) \<and> full_buckets tick R (\<lambda>k. limiter_bucket l (RouteRule k))"
proof -
  from build_buckets_full [OF assms(1)]
  obtain sb where sb: "build_buckets ErrEmptyService ErrServiceRule tick 1 S [] = Inr sb" "full_buckets tick S (gm_get sb)" by blast
  from build_buckets_full [OF assms(2)]
  obtain rb where rb: "build_buckets ErrEmptyRoute ErrRouteRule tick (1 + length S) R [] = Inr rb" "full_buckets tick R (gm_get rb)" by blast
  let ?l = "\<lparr>default_bucket = None, service_buckets = sb, route_buckets = rb\<rparr>"
  have "new_local_rate_limiter None S R tick = Inr ?l"
    using sb(1) rb(1) by (simp add: new_local_rate_limiter_def)
  then show ?thesis using sb(2) rb(2) by (intro exI [of _ ?l]) (simp add: limiter_bucket_def)
qed

theorem parsed_rules_build_witness:
  "\<exists>l. new_local_rate_limiter None [(''echo'', \<lparr>rate_per_second = Fin 10, burst = 5\<rparr>)] [] (\<lambda>_. 0) = Inr l \<and>
     full_buckets (\<lambda>_. 0) [(''echo'', \<lparr>rate_per_second = Fin 10, burst = 5\<rparr>)] (\<lambda>k. limiter_bucket l (ServiceRule k))"
proof -
  let ?w = "rule_text (''echo'', 10, 5)" and ?r = "(''echo'', \<lparr>rate_per_second = Fin 10, burst = 5\<rparr>)"
  have ok: "key_ok False ''echo''" by (simp add: key_ok_def plain_def)
  have "list_all plain ?w" using plain_itoa [of 10] plain_itoa [of 5] by (simp add: rule_text_def plain_def)
  then have "trim_space ?w = ?w" by (rule trim_space_plain)
  moreover have "CHR '';'' \<notin> set ?w" using itoa_no [of 10] itoa_no [of 5] by (simp add: rule_text_def)
  then have "split_on CHR '';'' ?w = [?w]" by (rule split_on_free)
  moreover have "?w \<noteq> []" by (simp add: rule_text_def)
  moreover have "parse_rule False ?w = Inr ?r" using parse_rule_text [OF ok, of 10 5] by simp
  ultimately have "parse_named_rate_rules ?w False = Inr [?r]" by (simp add: parse_named_rate_rules_def gm_set_fresh)
  moreover have "parse_named_rate_rules [] True = Inr []" by (simp add: parse_named_rate_rules_def)
  ultimately show ?thesis using parsed_rules_build [of ?w "[?r]" "[]" "[]" "\<lambda>_. 0"] by blast
qed

text \<open>
  Finding: a rate that is not a number. The rule text \<open>echo=nan:5\<close> is accepted, since a NaN is not \<open><= 0\<close>,
  and a bucket with such a rate rejects every request from the first one after its creation on.
\<close>

theorem nan_rate_blocks:
  assumes "new_token_bucket \<lparr>rate_per_second = NaN, burst = n\<rparr> t0 = Inr b" "t0 < t"
  shows "parse_rule False ''echo=nan:5'' = Inr (''echo'', \<lparr>rate_per_second = NaN, burst = 5\<rparr>) \<and>
     fst (run_calls bucket_allow (t # ts) b) = replicate (Suc (length ts)) False"
proof
  have "split_n2 CHR ''='' ''echo=nan:5'' = [''echo'', ''nan:5'']" "split_n2 CHR '':'' ''nan:5'' = [''nan'', ''5'']"
    by (simp_all add: split_n2_def)
  moreover have "parse_float ''nan'' = Some NaN" by code_simp
  moreover have "atoi ''5'' = Some 5" by code_simp
  moreover have "trim_space ''echo'' = ''echo''" "trim_space ''nan:5'' = ''nan:5''" "trim_space ''nan'' = ''nan''" "trim_space ''5'' = ''5''"
    by (rule trim_space_plain, simp add: plain_def)+
  ultimately show "parse_rule False ''echo=nan:5'' = Inr (''echo'', \<lparr>rate_per_second = NaN, burst = 5\<rparr>)"
    by (simp add: parse_rule_def)
  have b: "rate_per_second (tb_rule b) = NaN" "tb_last b = t0"
    using assms(1) by (auto simp: new_token_bucket_def split: if_splits)
  from nan_bucket_rejects [of b t] b assms(2) obtain b' where
    b': "bucket_allow t b = (False, b')" "tb_tokens b' = NaN" "tb_rule b' = tb_rule b" by auto
  then show "fst (run_calls bucket_allow (t # ts) b) = replicate (Suc (length ts)) False"
    using nan_bucket_run [of b' ts] b(1) by (auto split: prod.split)
qed

theorem nan_rate_blocks_witness:
  "fst (run_calls bucket_allow [1, 5, 9]
     \<lparr>tb_rule = \<lparr>rate_per_second = NaN, burst = 5\<rparr>, tb_tokens = Fin 5, tb_last = 0, tb_allowed = 0, tb_rejected = 0\<rparr>) =
   [False, False, False]"
  using nan_rate_blocks [of 5 0 "\<lparr>tb_rule = \<lparr>rate_per_second = NaN, burst = 5\<rparr>, tb_tokens = Fin 5, tb_last = 0,
      tb_allowed = 0, tb_rejected = 0\<rparr>" 1 "[5, 9]"]
  by (simp add: new_token_bucket_def)

end
