(* ===== verification/Retry.thy ===== *)
theory Retry
  imports Token_Bucket
begin

text \<open>
  \<^verbatim>\<open>internal/resilience/retry.go\<close>: the backoff schedule, the retry budget and the retry loop \<open>Do\<close>.
  A context is the instant at which it is done, if any, with the error it then reports. The state
  that a call threads through the loop is the clock, the shared budget and the world of the called
  function, which may change all three: time passes in a call and other callers use the budget.
\<close>

section \<open>Backoff\<close>

record retry_config =
  max_attempts :: int
  initial_backoff :: int
  max_backoff :: int

definition retry_normalized :: "retry_config \<Rightarrow> retry_config" where
  "retry_normalized c =
     (let c = (if max_attempts c \<le> 0 then c\<lparr>max_attempts := 1\<rparr> else c);
          c = (if initial_backoff c < 0 then c\<lparr>initial_backoff := 0\<rparr> else c)
      in if max_backoff c \<le> 0 \<or> max_backoff c < initial_backoff c
         then c\<lparr>max_backoff := initial_backoff c\<rparr> else c)"

text \<open>The loop of \<open>Backoff\<close>, run once for each retry index from 1 up to the given one.\<close>

fun backoff_loop :: "int \<Rightarrow> nat \<Rightarrow> int \<Rightarrow> int" where
  "backoff_loop mx 0 d = (if mx < d then mx else d)"
| "backoff_loop mx (Suc n) d =
     (if mx \<le> d \<or> go_div mx 2 < d then mx else backoff_loop mx n (wrap64 (d * 2)))"

definition backoff :: "retry_config \<Rightarrow> int \<Rightarrow> int" where
  "backoff cfg retry_index =
     (let cfg = retry_normalized cfg
      in if retry_index \<le> 0 \<or> initial_backoff cfg \<le> 0 then 0
         else backoff_loop (max_backoff cfg) (nat (retry_index - 1)) (initial_backoff cfg))"

section \<open>Contexts and sleeping\<close>

datatype ctx_error = Canceled | DeadlineExceeded

record go_context =
  done_at :: "int option"
  done_err :: ctx_error

definition ctx_err :: "go_context \<Rightarrow> int \<Rightarrow> ctx_error option" where
  "ctx_err ctx t = (case done_at ctx of None \<Rightarrow> None | Some c \<Rightarrow> if c \<le> t then Some (done_err ctx) else None)"

text \<open>
  \<open>Sleep\<close> at time \<open>t\<close>: the error and the time at which it returns. When the context is done at the very
  instant the timer fires, the select may take either case, which \<open>timer_first\<close> decides.
\<close>

definition sleep_ctx :: "go_context \<Rightarrow> bool \<Rightarrow> int \<Rightarrow> int \<Rightarrow> ctx_error option \<times> int" where
  "sleep_ctx ctx timer_first d t =
     (if d \<le> 0 then (ctx_err ctx t, t)
      else case done_at ctx of
             None \<Rightarrow> (None, t + d)
           | Some c \<Rightarrow>
               (if c < t + d \<or> c = t + d \<and> \<not> timer_first then (Some (done_err ctx), max t c)
                else (None, t + d)))"

section \<open>The retry budget\<close>

record budget =
  bg_rate :: float64
  bg_capacity :: float64
  bg_tokens :: float64
  bg_last :: int

record budget_config =
  bc_rate :: float64
  bc_burst :: int

definition new_budget :: "budget_config \<Rightarrow> int \<Rightarrow> budget" where
  "new_budget cfg now =
     (let cfg = (if f_lt (bc_rate cfg) (Fin 0) then cfg\<lparr>bc_rate := Fin 0\<rparr> else cfg);
          cfg = (if bc_burst cfg < 0 then cfg\<lparr>bc_burst := 0\<rparr> else cfg)
      in \<lparr>bg_rate = bc_rate cfg, bg_capacity = f_of_int (bc_burst cfg), bg_tokens = f_of_int (bc_burst cfg),
          bg_last = now\<rparr>)"

definition budget_refill :: "int \<Rightarrow> budget \<Rightarrow> budget" where
  "budget_refill now b =
     (let elapsed = seconds (time_sub now (bg_last b));
          b = (if f_lt (Fin 0) elapsed \<and> f_lt (Fin 0) (bg_rate b)
               then let tokens = f_add (bg_tokens b) (f_mul elapsed (bg_rate b))
                    in b\<lparr>bg_tokens := (if f_lt (bg_capacity b) tokens then bg_capacity b else tokens)\<rparr>
               else b)
      in b\<lparr>bg_last := now\<rparr>)"

definition budget_allow :: "int \<Rightarrow> budget \<Rightarrow> bool \<times> budget" where
  "budget_allow now b =
     (let b = budget_refill now b
      in if f_lt (bg_tokens b) (Fin 1) then (False, b)
         else (True, b\<lparr>bg_tokens := f_sub (bg_tokens b) (Fin 1)\<rparr>))"

text \<open>\<open>Allow\<close> of a possibly nil budget, as \<open>Do\<close> calls it.\<close>

definition take_budget :: "int \<Rightarrow> budget option \<Rightarrow> bool \<times> budget option" where
  "take_budget now b = (case b of None \<Rightarrow> (True, None) | Some b \<Rightarrow> (let (ok, b) = budget_allow now b in (ok, Some b)))"

section \<open>The retry loop\<close>

datatype 'e do_error = FnErr 'e | CtxErr ctx_error

record 'w do_state =
  ds_now :: int
  ds_budget :: "budget option"
  ds_world :: 'w

type_synonym ('e, 'a, 'w) attempt_fn = "int \<Rightarrow> 'w do_state \<Rightarrow> ('e + 'a) \<times> 'w do_state"

record 'e do_config =
  dc_retry :: retry_config
  dc_retryable :: "('e \<Rightarrow> bool) option"

text \<open>What precedes an attempt: nothing for the first, a token of the budget and the backoff for a retry.\<close>

definition before_attempt ::
  "go_context \<Rightarrow> retry_config \<Rightarrow> bool \<Rightarrow> int \<Rightarrow> 'e option \<Rightarrow> 'w do_state \<Rightarrow> ('e do_error option + unit) \<times> 'w do_state" where
  "before_attempt ctx cfg tie attempt last_err st =
     (if 1 < attempt then
        (let (ok, b) = take_budget (ds_now st) (ds_budget st); st = st\<lparr>ds_budget := b\<rparr>
         in if \<not> ok then (Inl (map_option FnErr last_err), st)
            else let (e, t) = sleep_ctx ctx tie (backoff cfg (attempt - 1)) (ds_now st); st = st\<lparr>ds_now := t\<rparr>
                 in case e of Some e \<Rightarrow> (Inl (Some (CtxErr e)), st) | None \<Rightarrow> (Inr (), st))
      else (Inr (), st))"

text \<open>
  The loop with \<open>n\<close> attempts left, from attempt \<open>max_attempts - n + 1\<close> on; \<open>last_err\<close> is the error of the
  attempt before and \<open>ties\<close> decides the select of each sleep.
\<close>

fun do_loop ::
  "go_context \<Rightarrow> retry_config \<Rightarrow> ('e \<Rightarrow> bool) \<Rightarrow> (int \<Rightarrow> bool) \<Rightarrow> ('e, 'a, 'w) attempt_fn \<Rightarrow> nat \<Rightarrow> 'e option \<Rightarrow>
   'w do_state \<Rightarrow> ('e do_error option + 'a) \<times> 'w do_state" where
  "do_loop ctx cfg retryable ties fn 0 last_err st = (Inl (map_option FnErr last_err), st)"
| "do_loop ctx cfg retryable ties fn (Suc n) last_err st =
     (let attempt = max_attempts cfg - int n
      in case before_attempt ctx cfg (ties attempt) attempt last_err st of
           (Inl e, st) \<Rightarrow> (Inl e, st)
         | (Inr _, st) \<Rightarrow>
             (case fn attempt st of
                (Inr v, st) \<Rightarrow> (Inr v, st)
              | (Inl e, st) \<Rightarrow>
                  (if attempt = max_attempts cfg \<or> \<not> retryable e \<or> ctx_err ctx (ds_now st) \<noteq> None
                   then (case ctx_err ctx (ds_now st) of
                           Some c \<Rightarrow> (Inl (Some (CtxErr c)), st)
                         | None \<Rightarrow> (Inl (Some (FnErr e)), st))
                   else do_loop ctx cfg retryable ties fn n (Some e) st)))"

definition retry_do ::
  "go_context \<Rightarrow> 'e do_config \<Rightarrow> (int \<Rightarrow> bool) \<Rightarrow> ('e, 'a, 'w) attempt_fn \<Rightarrow> 'w do_state \<Rightarrow>
   ('e do_error option + 'a) \<times> 'w do_state" where
  "retry_do ctx cfg ties fn st =
     (let rc = retry_normalized (dc_retry cfg);
          retryable = (case dc_retryable cfg of None \<Rightarrow> (\<lambda>_. False) | Some f \<Rightarrow> f)
      in do_loop ctx rc retryable ties fn (nat (max_attempts rc)) None st)"

section \<open>Lemmas on the backoff\<close>

lemma backoff_loop_exact:
  assumes "0 < d" "d \<le> mx" "mx < 2 ^ 63"
  shows "backoff_loop mx n d = min mx (d * 2 ^ n)"
  using assms
proof (induction n arbitrary: d)
  case (Suc n)
  show ?case
  proof (cases "mx \<le> d \<or> go_div mx 2 < d")
    case True
    have "mx \<le> d * 2"
    proof (cases "mx \<le> d")
      case False
      then have "mx div 2 < d" using True Suc.prems by (simp add: go_div_nonneg)
      then show ?thesis by linarith
    qed (use Suc.prems in simp)
    moreover have "d * 2 \<le> d * 2 ^ Suc n" using Suc.prems by simp
    ultimately have "mx \<le> d * 2 ^ Suc n" by (rule order_trans)
    then show ?thesis using True by (auto simp: min_def)
  next
    case False
    then have "d \<le> mx div 2" using Suc.prems by (simp add: go_div_nonneg)
    then have le: "d * 2 \<le> mx" by linarith
    then have "wrap64 (d * 2) = d * 2" using Suc.prems by (intro wrap64_id) (simp add: in64_def)
    then show ?thesis using Suc.IH [of "d * 2"] False le Suc.prems by (simp add: mult.assoc)
  qed
qed simp

section \<open>The budget as a token source\<close>

definition budget_ok :: "budget \<Rightarrow> bool" where
  "budget_ok b \<longleftrightarrow> is_fin (bg_rate b) \<and> 0 \<le> fin_val (bg_rate b) \<and> fin_val (bg_rate b) \<le> 2 ^ 900 \<and>
     bg_capacity b = Fin (of_int \<lfloor>fin_val (bg_capacity b)\<rfloor>) \<and> 0 \<le> \<lfloor>fin_val (bg_capacity b)\<rfloor> \<and>
     \<lfloor>fin_val (bg_capacity b)\<rfloor> \<le> 2 ^ 53 \<and> is_fin (bg_tokens b) \<and> 0 \<le> fin_val (bg_tokens b) \<and>
     fin_val (bg_tokens b) \<le> fin_val (bg_capacity b)"

abbreviation bg_level :: "budget \<Rightarrow> rat" where "bg_level b \<equiv> fin_val (bg_tokens b)"
abbreviation bg_cap :: "budget \<Rightarrow> rat" where "bg_cap b \<equiv> fin_val (bg_capacity b)"
abbreviation bg_rate_val :: "budget \<Rightarrow> rat" where "bg_rate_val b \<equiv> fin_val (bg_rate b)"

lemma budget_okE:
  assumes "budget_ok b"
  obtains r B t where "bg_rate b = Fin r" "bg_capacity b = Fin (of_int B)" "bg_tokens b = Fin t"
    "0 \<le> r" "r \<le> 2 ^ 900" "0 \<le> B" "B \<le> 2 ^ 53" "0 \<le> t" "t \<le> of_int B"
proof -
  have "is_fin (bg_rate b)" "is_fin (bg_tokens b)" using assms by (simp_all add: budget_ok_def)
  then obtain r t where rt: "bg_rate b = Fin r" "bg_tokens b = Fin t" by (cases "bg_rate b"; cases "bg_tokens b") auto
  define B where "B = \<lfloor>fin_val (bg_capacity b)\<rfloor>"
  have "bg_capacity b = Fin (of_int B)" "0 \<le> B" "B \<le> 2 ^ 53" using assms by (simp_all add: budget_ok_def B_def)
  moreover from this have "fin_val (bg_capacity b) = of_int B" by simp
  ultimately show ?thesis using that [OF rt(1) _ rt(2)] assms rt by (simp add: budget_ok_def)
qed

lemma budget_okI:
  "bg_rate b = Fin r \<Longrightarrow> bg_capacity b = Fin (of_int B) \<Longrightarrow> bg_tokens b = Fin t \<Longrightarrow> 0 \<le> r \<Longrightarrow> r \<le> 2 ^ 900 \<Longrightarrow>
   0 \<le> B \<Longrightarrow> B \<le> 2 ^ 53 \<Longrightarrow> 0 \<le> t \<Longrightarrow> t \<le> of_int B \<Longrightarrow> budget_ok b"
  by (simp add: budget_ok_def)

lemma budget_ok_new:
  assumes "bc_rate cfg = Fin r" "r \<le> 2 ^ 900" "bc_burst cfg \<le> 2 ^ 53"
  shows "budget_ok (new_budget cfg now) \<and> bg_last (new_budget cfg now) = now \<and>
     bg_cap (new_budget cfg now) = of_int (max 0 (bc_burst cfg)) \<and> bg_rate_val (new_budget cfg now) = max 0 r"
proof -
  let ?B = "max 0 (bc_burst cfg)"
  have "f_of_int ?B = Fin (of_int ?B)" by (rule f_of_int_fin) (use assms in auto)
  then have eq: "new_budget cfg now = \<lparr>bg_rate = Fin (max 0 r), bg_capacity = Fin (of_int ?B), bg_tokens = Fin (of_int ?B), bg_last = now\<rparr>"
    using assms(1) by (auto simp: new_budget_def max_def Let_def)
  have "(0 :: rat) \<le> 2 ^ 900" by simp
  then have "budget_ok (new_budget cfg now)" unfolding eq
    by (intro budget_okI [of _ "max 0 r" ?B "of_int ?B"]) (use assms in auto)
  then show ?thesis by (simp add: eq)
qed

lemma budget_refill_spec:
  assumes "budget_ok b" "bg_last b \<le> t" "g = bg_rate_val b * secs (t - bg_last b)"
  shows "\<exists>y. budget_refill t b = b\<lparr>bg_tokens := Fin y, bg_last := t\<rparr> \<and> 0 \<le> y \<and> y \<le> bg_cap b \<and>
     y \<le> bg_level b + g * (1 + fuzz) + (bg_cap b + 1) * (1 / 2 ^ 51) \<and>
     (t - bg_last b < 2 ^ 63 \<longrightarrow> min (bg_cap b) (bg_level b + g * (1 - fuzz) - (bg_cap b + 1) * fuzz) \<le> y)"
proof -
  from assms(1) obtain r B tv where v: "bg_rate b = Fin r" "bg_capacity b = Fin (of_int B)" "bg_tokens b = Fin tv"
    "0 \<le> r" "r \<le> 2 ^ 900" "0 \<le> B" "B \<le> 2 ^ 53" "0 \<le> tv" "tv \<le> of_int B" by (rule budget_okE)
  have cap: "(0 :: rat) \<le> of_int B + 1" using v(6) by simp
  show ?thesis
  proof (cases "bg_last b < t \<and> 0 < r")
    case False
    have "budget_refill t b = b\<lparr>bg_tokens := Fin tv, bg_last := t\<rparr>"
    proof (cases "bg_last b = t")
      case True
      then show ?thesis using v(3) by (simp add: budget_refill_def time_sub_def)
    next
      case no: False
      then show ?thesis using False assms(2) v(1,3,4) by (simp add: budget_refill_def Let_def)
    qed
    moreover have "g = 0" using False assms(2,3) v(1,4) by auto
    then have "tv \<le> bg_level b + g * (1 + fuzz) + (bg_cap b + 1) * (1 / 2 ^ 51)"
      "bg_level b + g * (1 - fuzz) - (bg_cap b + 1) * fuzz \<le> tv" using cap v(2,3) by simp_all
    ultimately show ?thesis using v by (intro exI [of _ tv]) (auto simp: min_le_iff_disj)
  next
    case True
    define d where "d = time_sub t (bg_last b)"
    have d: "0 < d" "d < 2 ^ 63" "d \<le> t - bg_last b" "t - bg_last b < 2 ^ 63 \<Longrightarrow> d = t - bg_last b"
      using True by (simp_all add: d_def time_sub_def)
    from seconds_err [OF d(1,2)] obtain s where s: "seconds d = Fin s" "0 < s" "s \<le> 2 ^ 35" by auto
    define y where "y = min (of_int B) (rnd (tv + rnd (s * r)))"
    have "tv \<le> 2 ^ 53" using v(7,9) by (metis of_int_le_iff of_int_numeral of_int_power order_trans)
    from refill_fin [OF v(8) this v(4,5) less_imp_le [OF s(2)] s(3)]
    have "f_add (bg_tokens b) (f_mul (seconds d) (bg_rate b)) = Fin (rnd (tv + rnd (s * r)))"
      by (simp only: v(1,3) s(1))
    then have eq: "budget_refill t b = b\<lparr>bg_tokens := Fin y, bg_last := t\<rparr>"
      unfolding budget_refill_def Let_def d_def [symmetric] using s True v(1,2)
      by (simp add: y_def min_def not_less)
    let ?g = "r * secs d"
    note st = refill_step [OF v(8,6,7,4) d(1,2) s(1) y_def refl]
    have g: "g = r * secs (t - bg_last b)" using assms(3) v(1) by simp
    have "?g \<le> g" unfolding g using d(3) v(4) by (intro mult_left_mono divide_right_mono) auto
    then have "?g + ?g * fuzz \<le> g * (1 + fuzz)"
      using mult_right_mono [of ?g g "1 + fuzz"] by (simp only: distrib_left mult_1_right) simp
    then have up: "y \<le> tv + g * (1 + fuzz) + (of_int B + 1) * (1 / 2 ^ 51)" using st(1) by linarith
    have low: "min (of_int B) (tv + g * (1 - fuzz) - (of_int B + 1) * fuzz) \<le> y" if "t - bg_last b < 2 ^ 63"
    proof -
      have "?g = g" unfolding g using d(4) [OF that] by simp
      moreover have "(of_int B + 1) * (1 / 2 ^ 50) \<le> (of_int B + 1) * fuzz" using cap by (intro mult_left_mono) auto
      ultimately have "tv + g * (1 - fuzz) - (of_int B + 1) * fuzz \<le> tv + ?g - ?g * fuzz - (of_int B + 1) * (1 / 2 ^ 50)"
        by (simp only: right_diff_distrib mult_1_right)
      then show ?thesis using st(2) by (auto simp: min_le_iff_disj)
    qed
    show ?thesis using eq st(3,4) up low v(2,3) by (intro exI [of _ y]) simp
  qed
qed

lemma budget_allow_spec:
  assumes "budget_ok b" "budget_refill t b = b\<lparr>bg_tokens := Fin y, bg_last := t\<rparr>"
    "0 \<le> y" "y \<le> bg_cap b" "budget_allow t b = (g, b')"
  shows "g \<longleftrightarrow> 1 \<le> y" "bg_last b' = t" "bg_rate b' = bg_rate b" "bg_capacity b' = bg_capacity b" "budget_ok b'"
    "bg_level b' + of_bool g \<le> y + (bg_cap b + 1) * (1 / 2 ^ 52)"
proof -
  from assms(1) obtain r B tv where v: "bg_rate b = Fin r" "bg_capacity b = Fin (of_int B)" "bg_tokens b = Fin tv"
    "0 \<le> r" "r \<le> 2 ^ 900" "0 \<le> B" "B \<le> 2 ^ 53" "0 \<le> tv" "tv \<le> of_int B" by (rule budget_okE)
  have "budget_allow t b = (1 \<le> y, b\<lparr>bg_tokens := (if 1 \<le> y then f_sub (Fin y) (Fin 1) else Fin y), bg_last := t\<rparr>)"
    by (simp add: budget_allow_def assms(2) Let_def)
  then have eq: "b' = b\<lparr>bg_tokens := (if 1 \<le> y then f_sub (Fin y) (Fin 1) else Fin y), bg_last := t\<rparr>" and g: "g \<longleftrightarrow> 1 \<le> y"
    using assms(5) by auto
  show "g \<longleftrightarrow> 1 \<le> y" and "bg_last b' = t" and sel: "bg_rate b' = bg_rate b" "bg_capacity b' = bg_capacity b"
    using g by (simp_all add: eq)
  have tok: "bg_tokens b' = (if g then f_sub (Fin y) (Fin 1) else Fin y)" using g by (simp add: eq)
  have y: "y \<le> of_int B" using assms(4) v(2) by simp
  note one = take_one [OF _ y v(7)]
  show "budget_ok b'"
  proof (cases g)
    case True
    then show ?thesis using tok one(1-3) g v sel by (intro budget_okI [of b' r B "rnd (y - 1)"]) auto
  next
    case False
    then show ?thesis using tok y assms(3) v sel by (intro budget_okI [of b' r B y]) auto
  qed
  show "bg_level b' + of_bool g \<le> y + (bg_cap b + 1) * (1 / 2 ^ 52)"
  proof (cases g)
    case True
    then show ?thesis using tok one(1,4) g v(2) by simp
  next
    case False
    then show ?thesis using tok v(2,6) by simp
  qed
qed

interpretation retry_budget: token_source budget_allow bg_level bg_last bg_cap bg_rate_val
    "\<lambda>t b. fin_val (bg_tokens (budget_refill t b))" budget_ok
proof
  fix s t g s'
  assume ok: "budget_ok s" and t: "bg_last s \<le> t"
  from budget_refill_spec [OF ok t refl] obtain y where
    y: "budget_refill t s = s\<lparr>bg_tokens := Fin y, bg_last := t\<rparr>" "0 \<le> y" "y \<le> bg_cap s" by blast
  obtain g0 s0 where c0: "budget_allow t s = (g0, s0)" by fastforce
  show "fst (budget_allow t s) \<longleftrightarrow> 1 \<le> fin_val (bg_tokens (budget_refill t s))"
    using budget_allow_spec(1) [OF ok y c0] c0 y(1) by simp
  assume c: "budget_allow t s = (g, s')"
  note sp = budget_allow_spec [OF ok y c]
  show "budget_ok s' \<and> bg_cap s' = bg_cap s \<and> bg_rate_val s' = bg_rate_val s \<and> bg_last s' = t" using sp by simp
  show "bg_level s' + of_bool g \<le> fin_val (bg_tokens (budget_refill t s)) + (bg_cap s + 1) * (1 / 2 ^ 52)"
    using sp(6) y(1) by simp
next
  fix s t
  assume ok: "budget_ok s" and t: "bg_last s \<le> t"
  from budget_refill_spec [OF ok t refl]
  show "fin_val (bg_tokens (budget_refill t s)) \<le> bg_level s + bg_rate_val s * secs (t - bg_last s) * (1 + fuzz) + (bg_cap s + 1) * (1 / 2 ^ 51)"
    by auto
  assume "t - bg_last s < 2 ^ 63"
  with budget_refill_spec [OF ok t refl]
  show "min (bg_cap s) (bg_level s + bg_rate_val s * secs (t - bg_last s) * (1 - fuzz) - (bg_cap s + 1) * fuzz) \<le> fin_val (bg_tokens (budget_refill t s))"
    by auto
qed (simp add: budget_ok_def)

section \<open>What the loop calls\<close>

text \<open>
  The called function with a log of its calls: attempt number, start, result and end of each, the
  most recent first.
\<close>

record ('e, 'a) call_log =
  cl_attempt :: int
  cl_start :: int
  cl_result :: "'e + 'a"
  cl_end :: int

definition logged ::
  "('e, 'a, 'w) attempt_fn \<Rightarrow> ('e, 'a, ('e, 'a) call_log list \<times> 'w) attempt_fn" where
  "logged fn attempt st =
     (let (r, st') = fn attempt \<lparr>ds_now = ds_now st, ds_budget = ds_budget st, ds_world = snd (ds_world st)\<rparr>
      in (r, \<lparr>ds_now = ds_now st', ds_budget = ds_budget st',
              ds_world = (\<lparr>cl_attempt = attempt, cl_start = ds_now st, cl_result = r, cl_end = ds_now st'\<rparr> # fst (ds_world st),
                          ds_world st')\<rparr>))"

text \<open>
  The log of one loop is well formed: the attempts are numbered from \<open>k\<close> down to one; each earlier one
  ended in a retryable error with the context not yet done, and was followed by its backoff, at the
  end of which the context was not past its end.
\<close>

fun log_ok :: "go_context \<Rightarrow> retry_config \<Rightarrow> ('e \<Rightarrow> bool) \<Rightarrow> int \<Rightarrow> ('e, 'a) call_log list \<Rightarrow> bool" where
  "log_ok ctx cfg retryable k [] \<longleftrightarrow> k = 0"
| "log_ok ctx cfg retryable k [c] \<longleftrightarrow> k = 1 \<and> cl_attempt c = 1"
| "log_ok ctx cfg retryable k (c # p # cs) \<longleftrightarrow>
     cl_attempt c = k \<and> (case cl_result p of Inl e \<Rightarrow> retryable e | Inr _ \<Rightarrow> False) \<and>
     ctx_err ctx (cl_end p) = None \<and> cl_start c = cl_end p + backoff cfg (k - 1) \<and>
     (case done_at ctx of None \<Rightarrow> True | Some d \<Rightarrow> cl_start c \<le> d) \<and> log_ok ctx cfg retryable (k - 1) (p # cs)"

lemma backoff_exact_aux:
  assumes "in64 (initial_backoff cfg)" "in64 (max_backoff cfg)"
  shows "backoff cfg k =
     (let c = retry_normalized cfg in if k \<le> 0 then 0 else min (max_backoff c) (initial_backoff c * 2 ^ nat (k - 1)))"
proof -
  let ?c = "retry_normalized cfg"
  have c: "0 \<le> initial_backoff ?c" "initial_backoff ?c \<le> max_backoff ?c" "max_backoff ?c < 2 ^ 63"
    using assms by (auto simp: retry_normalized_def Let_def in64_def)
  show ?thesis
  proof (cases "initial_backoff ?c = 0")
    case True
    then show ?thesis using c by (simp add: backoff_def Let_def)
  next
    case False
    then show ?thesis using c backoff_loop_exact [of "initial_backoff ?c" "max_backoff ?c" "nat (k - 1)"]
      by (simp add: backoff_def Let_def)
  qed
qed

lemma backoff_nonneg: "in64 (initial_backoff cfg) \<Longrightarrow> in64 (max_backoff cfg) \<Longrightarrow> 0 \<le> backoff cfg k"
  by (auto simp: backoff_exact_aux retry_normalized_def Let_def)

section \<open>Lemmas on the loop\<close>

lemma sleep_none:
  assumes "sleep_ctx ctx tie d t = (None, t')" "0 \<le> d"
  shows "t' = t + d" "case done_at ctx of None \<Rightarrow> True | Some c \<Rightarrow> t' \<le> c"
  using assms by (auto simp: sleep_ctx_def ctx_err_def split: if_splits option.splits)

lemma sleep_some: "sleep_ctx ctx tie d t = (Some e, t') \<Longrightarrow> ctx_err ctx t' = Some e"
  by (auto simp: sleep_ctx_def ctx_err_def split: if_splits option.splits)

text \<open>
  What one call of the loop leaves: a log that extends the given one, and an outcome explained by
  its most recent entry or by the context.
\<close>

definition outcome_ok ::
  "go_context \<Rightarrow> ('e do_error option + 'a) \<Rightarrow> ('e, 'a) call_log list \<Rightarrow> int \<Rightarrow> bool" where
  "outcome_ok ctx out lg t \<longleftrightarrow>
     (case out of
        Inr v \<Rightarrow> lg \<noteq> [] \<and> cl_result (hd lg) = Inr v
      | Inl None \<Rightarrow> False
      | Inl (Some (FnErr e)) \<Rightarrow> lg \<noteq> [] \<and> cl_result (hd lg) = Inl e
      | Inl (Some (CtxErr c)) \<Rightarrow> ctx_err ctx t = Some c)"

text \<open>The state at the head of the loop before attempt \<open>k + 1\<close>.\<close>

definition loop_head ::
  "go_context \<Rightarrow> retry_config \<Rightarrow> ('e \<Rightarrow> bool) \<Rightarrow> int \<Rightarrow> 'e option \<Rightarrow> (('e, 'a) call_log list \<times> 'w) do_state \<Rightarrow> bool" where
  "loop_head ctx cfg retryable k last_err st \<longleftrightarrow>
     (let lg = fst (ds_world st)
      in log_ok ctx cfg retryable k lg \<and> 0 \<le> k \<and>
         (case lg of [] \<Rightarrow> last_err = None
          | c # _ \<Rightarrow> cl_end c = ds_now st \<and> ctx_err ctx (ds_now st) = None \<and>
              (\<exists>e. cl_result c = Inl e \<and> last_err = Some e \<and> retryable e)))"

lemma log_ok_nonneg: "log_ok ctx cfg retryable k lg \<Longrightarrow> k = int (length lg)"
proof (induction lg arbitrary: k rule: induct_list012)
  case (3 x y zs)
  from "3.prems" have "log_ok ctx cfg retryable (k - 1) (y # zs)" by simp
  from "3.IH"(2) [OF this] show ?case by simp
qed simp_all

lemma logged_eq:
  "logged fn k st = (r, st') \<Longrightarrow>
   fst (ds_world st') = \<lparr>cl_attempt = k, cl_start = ds_now st, cl_result = r, cl_end = ds_now st'\<rparr> # fst (ds_world st)"
  by (auto simp: logged_def split: prod.splits)

lemma before_attempt_spec:
  assumes "loop_head ctx cfg R k last_err st" "in64 (initial_backoff cfg)" "in64 (max_backoff cfg)"
    and "before_attempt ctx cfg tie (k + 1) last_err st = (r, st')"
  shows "ds_world st' = ds_world st"
    "r = Inl e \<Longrightarrow> outcome_ok ctx (Inl e) (fst (ds_world st)) (ds_now st') \<and> 0 < k"
    "r = Inr u \<Longrightarrow> log_ok ctx cfg R (k + 1)
       (\<lparr>cl_attempt = k + 1, cl_start = ds_now st', cl_result = x, cl_end = y\<rparr> # fst (ds_world st))"
proof -
  let ?lg = "fst (ds_world st)"
  have len: "k = int (length ?lg)" and lg: "log_ok ctx cfg R k ?lg"
    using assms(1) log_ok_nonneg by (auto simp: loop_head_def Let_def)
  show "ds_world st' = ds_world st"
    using assms(4) by (auto simp: before_attempt_def Let_def split: if_splits prod.splits option.splits)
  show "outcome_ok ctx (Inl e) ?lg (ds_now st') \<and> 0 < k" if "r = Inl e"
  proof -
    have "0 < k" using assms(4) that by (simp add: before_attempt_def split: if_splits)
    then obtain c cs where "?lg = c # cs" using len by (cases ?lg) auto
    then show ?thesis using assms(1,4) that \<open>0 < k\<close> sleep_some
      by (auto simp: before_attempt_def Let_def outcome_ok_def loop_head_def
          split: if_splits prod.splits option.splits)
  qed
  show "log_ok ctx cfg R (k + 1) (\<lparr>cl_attempt = k + 1, cl_start = ds_now st', cl_result = x, cl_end = y\<rparr> # ?lg)" if r: "r = Inr u"
  proof (cases ?lg)
    case Nil
    then show ?thesis using len by simp
  next
    case (Cons c cs)
    then have "0 < k" using len by simp
    then obtain tie' where "sleep_ctx ctx tie' (backoff cfg k) (ds_now st) = (None, ds_now st')"
      using assms(4) r by (auto simp: before_attempt_def Let_def split: if_splits prod.splits option.splits)
    from sleep_none [OF this backoff_nonneg [OF assms(2,3)]]
    show ?thesis using assms(1) Cons by (auto simp: loop_head_def split: option.splits)
  qed
qed

lemma do_loop_log:
  assumes "loop_head ctx cfg R (max_attempts cfg - int n) last_err st" "int n \<le> max_attempts cfg" "0 < max_attempts cfg"
    and "in64 (initial_backoff cfg)" "in64 (max_backoff cfg)"
    and "do_loop ctx cfg R ties (logged fn) n last_err st = (out, st')"
  shows "\<exists>k. log_ok ctx cfg R k (fst (ds_world st')) \<and> 1 \<le> k \<and> k \<le> max_attempts cfg \<and>
     outcome_ok ctx out (fst (ds_world st')) (ds_now st')"
  using assms
proof (induction n arbitrary: last_err st)
  case 0
  then have lg: "log_ok ctx cfg R (max_attempts cfg) (fst (ds_world st))" by (simp add: loop_head_def Let_def)
  then obtain c cs where "fst (ds_world st) = c # cs" using log_ok_nonneg [OF lg] "0.prems"(3) by (cases "fst (ds_world st)") auto
  then show ?case using "0.prems" lg by (auto simp: outcome_ok_def loop_head_def)
next
  case (Suc n)
  let ?k = "max_attempts cfg - int (Suc n)"
  have k: "max_attempts cfg - int n = ?k + 1" "0 \<le> ?k" using Suc.prems(2) by simp_all
  obtain r st1 where b: "before_attempt ctx cfg (ties (?k + 1)) (?k + 1) last_err st = (r, st1)" by fastforce
  note pre = before_attempt_spec [OF Suc.prems(1,4,5) b]
  show ?case
  proof (cases r)
    case (Inl e)
    then have "out = Inl e" "st' = st1"
      using Suc.prems(6) unfolding do_loop.simps Let_def k(1) b by simp_all
    moreover have "log_ok ctx cfg R ?k (fst (ds_world st))" using Suc.prems(1) by (simp only: loop_head_def Let_def)
    moreover have "1 \<le> ?k" "?k \<le> max_attempts cfg" using pre(2) [OF Inl] by simp_all
    moreover have "outcome_ok ctx (Inl e) (fst (ds_world st)) (ds_now st1)" using pre(2) [OF Inl] by blast
    ultimately show ?thesis using pre(1) by metis
  next
    case (Inr u)
    obtain x st2 where f: "logged fn (?k + 1) st1 = (x, st2)" by fastforce
    have w: "fst (ds_world st2) =
        \<lparr>cl_attempt = ?k + 1, cl_start = ds_now st1, cl_result = x, cl_end = ds_now st2\<rparr> # fst (ds_world st)"
      using logged_eq [OF f] pre(1) by simp
    have lg: "log_ok ctx cfg R (?k + 1) (fst (ds_world st2))" unfolding w by (rule pre(3) [OF Inr])
    have le: "1 \<le> ?k + 1" "?k + 1 \<le> max_attempts cfg" using k Suc.prems(2) by simp_all
    show ?thesis
    proof (cases "\<exists>e. x = Inl e \<and> R e \<and> ctx_err ctx (ds_now st2) = None \<and> ?k + 1 \<noteq> max_attempts cfg")
      case True
      then obtain e where e: "x = Inl e" "R e" "ctx_err ctx (ds_now st2) = None" "?k + 1 \<noteq> max_attempts cfg" by blast
      then have "do_loop ctx cfg R ties (logged fn) n (Some e) st2 = (out, st')"
        using Suc.prems(6) unfolding do_loop.simps Let_def k(1) b Inr prod.case sum.case f by simp
      moreover have "loop_head ctx cfg R (max_attempts cfg - int n) (Some e) st2"
        unfolding k(1) using lg e k(2) unfolding loop_head_def Let_def w by simp
      ultimately show ?thesis using Suc.IH [of "Some e" st2] Suc.prems(2-5) by simp
    next
      case False
      have "st' = st2 \<and> outcome_ok ctx out (fst (ds_world st2)) (ds_now st2)"
      proof (cases x)
        case (Inr v)
        then show ?thesis using Suc.prems(6) w unfolding do_loop.simps Let_def k(1) b \<open>r = Inr u\<close> prod.case sum.case f
          by (auto simp: outcome_ok_def)
      next
        case (Inl e)
        then have "?k + 1 = max_attempts cfg \<or> \<not> R e \<or> ctx_err ctx (ds_now st2) \<noteq> None"
          using False by auto
        then show ?thesis using Inl Suc.prems(6) w unfolding do_loop.simps Let_def k(1) b \<open>r = Inr u\<close> prod.case sum.case f
          by (auto simp: outcome_ok_def split: option.splits if_splits)
      qed
      then show ?thesis using lg le by (intro exI [of _ "?k + 1"]) auto
    qed
  qed
qed

section \<open>What a caller of the loop may rely on\<close>

text \<open>
  A client of \<open>Do\<close> gives an attempt function with an invariant \<open>P\<close> of its world, indexed by the number of
  attempts made, and a predicate \<open>good\<close> of every outcome; the loop keeps both.
\<close>

definition outcome_good :: "('e + 'a \<Rightarrow> bool) \<Rightarrow> go_context \<Rightarrow> ('e do_error option + 'a) \<Rightarrow> 'w do_state \<Rightarrow> bool" where
  "outcome_good good ctx out st \<longleftrightarrow>
     (case out of Inr v \<Rightarrow> good (Inr v) | Inl None \<Rightarrow> False | Inl (Some (FnErr e)) \<Rightarrow> good (Inl e)
      | Inl (Some (CtxErr c)) \<Rightarrow> ctx_err ctx (ds_now st) = Some c)"

locale retried =
  fixes P :: "nat \<Rightarrow> 'w do_state \<Rightarrow> bool"
    and good :: "'e + 'a \<Rightarrow> bool"
    and fn :: "('e, 'a, 'w) attempt_fn"
  assumes attempt: "P k st \<Longrightarrow> fn (int k + 1) st = (r, st') \<Longrightarrow> P (Suc k) st' \<and> good r"
    and stable: "P k st \<Longrightarrow> ds_world st' = ds_world st \<Longrightarrow> P k st'"
begin

lemma before_world: "before_attempt ctx cfg tie m last_err st = (x, st') \<Longrightarrow> ds_world st' = ds_world st"
  by (auto simp: before_attempt_def Let_def split: if_splits prod.splits option.splits)

lemma before_stop:
  assumes "before_attempt ctx cfg tie m last_err st = (Inl x, st')" "last_err = None \<Longrightarrow> m \<le> 1"
    and "\<And>e. last_err = Some e \<Longrightarrow> good (Inl e)"
  shows "outcome_good good ctx (Inl x) st'"
  using assms sleep_some
  by (auto simp: before_attempt_def outcome_good_def Let_def split: if_splits prod.splits option.splits)

lemma loop_keeps:
  assumes "P k st" "\<And>e. last_err = Some e \<Longrightarrow> good (Inl e)" "last_err = None \<Longrightarrow> int n = max_attempts cfg \<and> 0 < n"
    and "do_loop ctx cfg R ties fn n last_err st = (out, st')" "int k + int n = max_attempts cfg"
  shows "\<exists>j \<le> k + n. P j st' \<and> outcome_good good ctx out st'"
  using assms
proof (induction n arbitrary: k last_err st)
  case 0
  then show ?case by (cases last_err) (auto simp: outcome_good_def)
next
  case (Suc n)
  let ?m = "max_attempts cfg - int n"
  obtain x st1 where b: "before_attempt ctx cfg (ties ?m) ?m last_err st = (x, st1)" by fastforce
  have P1: "P k st1" using stable [OF Suc.prems(1) before_world [OF b]] .
  show ?case
  proof (cases x)
    case (Inl stop)
    have "last_err = None \<Longrightarrow> ?m \<le> 1" using Suc.prems(3) by simp
    then have "outcome_good good ctx (Inl stop) st1" using before_stop [OF b [unfolded Inl]] Suc.prems(2) by blast
    then show ?thesis using Suc.prems(4) P1 b Inl by (auto simp: Let_def intro!: exI [of _ k])
  next
    case (Inr u)
    obtain r st2 where f: "fn ?m st1 = (r, st2)" by fastforce
    have "?m = int k + 1" using Suc.prems(5) by simp
    with f have P2: "P (Suc k) st2" and r: "good r" using attempt [OF P1] by auto
    show ?thesis
    proof (cases r)
      case (Inr v)
      then show ?thesis using Suc.prems(4) b f r P2 \<open>x = Inr u\<close> by (auto simp: Let_def outcome_good_def intro!: exI [of _ "Suc k"])
    next
      case (Inl e)
      show ?thesis
      proof (cases "?m = max_attempts cfg \<or> \<not> R e \<or> ctx_err ctx (ds_now st2) \<noteq> None")
        case True
        have "out = (case ctx_err ctx (ds_now st2) of Some c \<Rightarrow> Inl (Some (CtxErr c)) | None \<Rightarrow> Inl (Some (FnErr e)))" "st' = st2"
          using Suc.prems(4) True unfolding do_loop.simps Let_def b \<open>x = Inr u\<close> prod.case sum.case f Inl
          by (auto split: option.splits)
        then show ?thesis using P2 r Inl
          by (intro exI [of _ "Suc k"]) (auto simp: outcome_good_def split: option.splits)
      next
        case False
        then have "do_loop ctx cfg R ties fn n (Some e) st2 = (out, st')"
          using Suc.prems(4) unfolding do_loop.simps Let_def b \<open>x = Inr u\<close> prod.case sum.case f Inl by simp
        then obtain j where "j \<le> Suc k + n" "P j st'" "outcome_good good ctx out st'"
          using Suc.IH [OF P2, of "Some e"] r Inl Suc.prems(5) by auto
        then show ?thesis by (intro exI [of _ j]) simp
      qed
    qed
  qed
qed

lemma retry_do_keeps:
  assumes "P 0 st" "retry_do ctx cfg ties fn st = (out, st')"
  shows "\<exists>j. int j \<le> max_attempts (retry_normalized (dc_retry cfg)) \<and> P j st' \<and> outcome_good good ctx out st'"
proof -
  let ?c = "retry_normalized (dc_retry cfg)"
  have "0 < max_attempts ?c" by (simp add: retry_normalized_def Let_def)
  then show ?thesis
    using loop_keeps [OF assms(1), of None "nat (max_attempts ?c)" ?c ctx _ ties out st'] assms(2)
    by (auto simp: retry_do_def Let_def le_nat_iff)
qed

end

section \<open>Properties\<close>

text \<open>
  The backoff schedule. For every configuration within the range of Go's durations the backoff
  before retry \<open>k\<close> is the initial backoff doubled \<open>k - 1\<close> times and capped at the maximum, with no
  overflow on the way, so it never decreases and never exceeds the maximum.
\<close>

theorem backoff_exact:
  assumes "in64 (initial_backoff cfg)" "in64 (max_backoff cfg)" "c = retry_normalized cfg"
  shows "backoff cfg k = (if k \<le> 0 then 0 else min (max_backoff c) (initial_backoff c * 2 ^ nat (k - 1))) \<and>
     backoff cfg k \<le> backoff cfg (k + 1) \<and> 0 \<le> backoff cfg k \<and> backoff cfg k \<le> max_backoff c"
proof -
  have c: "0 \<le> initial_backoff c" "initial_backoff c \<le> max_backoff c"
    unfolding assms(3) by (auto simp: retry_normalized_def Let_def)
  have eq: "backoff cfg k = (if k \<le> 0 then 0 else min (max_backoff c) (initial_backoff c * 2 ^ nat (k - 1)))" for k
    unfolding assms(3) using backoff_exact_aux [OF assms(1,2)] by (simp only: Let_def)
  have "initial_backoff c * 2 ^ nat (k - 1) \<le> initial_backoff c * 2 ^ nat k"
    using c(1) by (intro mult_left_mono power_increasing) auto
  then have "backoff cfg k \<le> backoff cfg (k + 1)" using c by (auto simp: eq)
  moreover have "backoff cfg k \<le> max_backoff c" using c by (simp add: eq)
  ultimately show ?thesis using eq [of k] backoff_nonneg [OF assms(1,2), of k] by simp
qed

theorem backoff_exact_witness:
  "backoff \<lparr>max_attempts = 5, initial_backoff = 100 * millisecond, max_backoff = second\<rparr> 3 = 400 * millisecond"
  using backoff_exact [of "\<lparr>max_attempts = 5, initial_backoff = 100 * millisecond, max_backoff = second\<rparr>" _ 3, OF _ _ refl]
  by (simp add: in64_def retry_normalized_def Let_def)

lemma in64_normalized:
  "in64 (initial_backoff c) \<Longrightarrow> in64 (max_backoff c) \<Longrightarrow>
   in64 (initial_backoff (retry_normalized c)) \<and> in64 (max_backoff (retry_normalized c)) \<and> 0 < max_attempts (retry_normalized c)"
  by (auto simp: retry_normalized_def Let_def in64_def)

text \<open>
  C14: the retry loop. For every function, context, budget and schedule, \<open>Do\<close> returns, after at least
  one and at most \<open>MaxAttempts\<close> calls, numbered 1, 2, and so on. Each call but the last ended in a
  retryable error while the context was not done; the next one started exactly its backoff later,
  and not after the end of the context. The result is the value or the error of the last call, or
  the error of the context, which is then done; it is never a nil error without a value.
\<close>

theorem retry_do_log:
  assumes "in64 (initial_backoff (dc_retry cfg))" "in64 (max_backoff (dc_retry cfg))"
    and "rc = retry_normalized (dc_retry cfg)" "R = (case dc_retryable cfg of None \<Rightarrow> (\<lambda>_. False) | Some f \<Rightarrow> f)"
    and "fst (ds_world st) = []" "retry_do ctx cfg ties (logged fn) st = (out, st')"
  shows "\<exists>k. log_ok ctx rc R k (fst (ds_world st')) \<and> 1 \<le> k \<and> k \<le> max_attempts rc \<and>
     outcome_ok ctx out (fst (ds_world st')) (ds_now st')"
proof -
  have rc: "in64 (initial_backoff rc)" "in64 (max_backoff rc)" "0 < max_attempts rc"
    using in64_normalized [OF assms(1,2)] assms(3) by simp_all
  have "loop_head ctx rc R (max_attempts rc - int (nat (max_attempts rc))) None st"
    using assms(5) rc(3) by (simp add: loop_head_def Let_def)
  moreover have "do_loop ctx rc R ties (logged fn) (nat (max_attempts rc)) None st = (out, st')"
    using assms(3,4,6) by (simp only: retry_do_def Let_def)
  moreover have "int (nat (max_attempts rc)) \<le> max_attempts rc" using rc(3) by simp
  ultimately show ?thesis using do_loop_log rc by blast
qed

text \<open>In the witness the function fails twice with a retryable error and then succeeds.\<close>

theorem retry_do_log_witness:
  "let fn = (\<lambda>k st. (if k < 3 then Inl ''unavailable'' else Inr ''ok'', st\<lparr>ds_now := ds_now st + 7\<rparr>));
       cfg = \<lparr>dc_retry = \<lparr>max_attempts = 4, initial_backoff = 10, max_backoff = 15\<rparr>, dc_retryable = Some (\<lambda>e. e = ''unavailable'')\<rparr>;
       st' = snd (retry_do \<lparr>done_at = Some 100, done_err = DeadlineExceeded\<rparr> cfg (\<lambda>_. True) (logged fn)
         \<lparr>ds_now = 0, ds_budget = None, ds_world = ([], ())\<rparr>)
   in map cl_attempt (fst (ds_world st')) = [3, 2, 1] \<and>
      (\<exists>k. log_ok \<lparr>done_at = Some 100, done_err = DeadlineExceeded\<rparr> \<lparr>max_attempts = 4, initial_backoff = 10, max_backoff = 15\<rparr>
         (\<lambda>e. e = ''unavailable'') k (fst (ds_world st')))"
proof -
  let ?fn = "\<lambda>k st. (if k < 3 then Inl ''unavailable'' else Inr ''ok'', st\<lparr>ds_now := ds_now st + 7\<rparr>)"
  let ?rc = "\<lparr>max_attempts = 4, initial_backoff = 10, max_backoff = 15\<rparr>"
  let ?cfg = "\<lparr>dc_retry = ?rc, dc_retryable = Some (\<lambda>e. e = ''unavailable'')\<rparr>"
  let ?ctx = "\<lparr>done_at = Some 100, done_err = DeadlineExceeded\<rparr>"
  let ?st = "\<lparr>ds_now = 0, ds_budget = None, ds_world = ([], ())\<rparr>"
  have rc: "retry_normalized ?rc = ?rc" by (simp add: retry_normalized_def Let_def)
  have b: "backoff ?rc 1 = 10" "backoff ?rc 2 = 15"
    by (simp_all add: backoff_def rc go_div_def wrap64_def numeral_2_eq_2)
  have "map cl_attempt (fst (ds_world (snd (retry_do ?ctx ?cfg (\<lambda>_. True) (logged ?fn) ?st)))) = [3, 2, 1]"
    by (simp add: retry_do_def rc b before_attempt_def take_budget_def sleep_ctx_def ctx_err_def logged_def Let_def
        numeral_eq_Suc [of "num.Bit0 num.One"] eval_nat_numeral)
  moreover obtain out st' where run: "retry_do ?ctx ?cfg (\<lambda>_. True) (logged ?fn) ?st = (out, st')" by fastforce
  moreover have "\<exists>k. log_ok ?ctx ?rc (\<lambda>e. e = ''unavailable'') k (fst (ds_world st')) \<and> 1 \<le> k \<and> k \<le> max_attempts ?rc \<and>
      outcome_ok ?ctx out (fst (ds_world st')) (ds_now st')"
    by (rule retry_do_log [OF _ _ _ _ _ run]) (simp_all add: rc in64_def)
  ultimately show ?thesis by (auto simp: Let_def)
qed

text \<open>
  C26: the retry budget bounds the retries of all callers together. Whatever the calls, a budget of
  burst \<open>B\<close> and rate \<open>r\<close> grants at most \<open>B + r T\<close> retries in \<open>T\<close> seconds, up to the rounding of the binary64
  arithmetic; a negative burst or rate counts as zero.
\<close>

theorem budget_bounds_retries:
  assumes "bc_rate cfg = Fin r" "r \<le> 2 ^ 900" "bc_burst cfg \<le> 2 ^ 53" "B = of_int (max 0 (bc_burst cfg))"
    and "sorted (t0 # ts)" "run_calls budget_allow ts (new_budget cfg t0) = (gs, b')"
  shows "of_nat (granted_calls gs) \<le>
     B + max 0 r * secs (last (t0 # ts) - t0) * (1 + fuzz) + of_nat (length ts) * ((B + 1) * fuzz)"
proof -
  note ok = budget_ok_new [OF assms(1-3), of t0]
  have "sorted (bg_last (new_budget cfg t0) # ts)" using ok assms(5) by simp
  from retry_budget.run_admitted [OF conjunct1 [OF ok] this assms(6)] show ?thesis
    using ok assms(4) by simp
qed

theorem budget_bounds_retries_witness:
  "of_nat (granted_calls (fst (run_calls budget_allow [1, 5] (new_budget \<lparr>bc_rate = Fin 1, bc_burst = 1\<rparr> 0)))) \<le>
     (1 :: rat) + 1 * secs 5 * (1 + fuzz) + 2 * (2 * fuzz)"
proof -
  obtain gs b' where run: "run_calls budget_allow [1, 5] (new_budget \<lparr>bc_rate = Fin 1, bc_burst = 1\<rparr> 0) = (gs, b')" by fastforce
  have "(1 :: rat) \<le> 2 ^ 900" by (rule one_le_power) simp
  then have "of_nat (granted_calls gs) \<le> (1 :: rat) + max 0 1 * secs (last [0, 1, 5] - 0) * (1 + fuzz) + of_nat (length [1 :: int, 5]) * ((1 + 1) * fuzz)"
    by (intro budget_bounds_retries [OF _ _ _ _ _ run]) simp_all
  then show ?thesis using run by simp
qed

end
