(* ===== verification/Circuit_Breaker.thy ===== *)
theory Circuit_Breaker
  imports Float64
begin

text \<open>
  \<^verbatim>\<open>internal/resilience/circuitbreaker.go\<close>: the three-state circuit breaker with a ring buffer of
  outcomes, permits tied to a generation, and the set of breakers per upstream. Each method holds
  the mutex for its whole body, so it is one function on the record; the injected clock is the
  argument \<open>now\<close>, read once per call as in the code. The interleaving of callers is the step
  relation \<open>cb_step\<close> on a breaker and the permits handed out and not yet completed.
\<close>

section \<open>Data\<close>

datatype circuit_state = CircuitClosed | CircuitOpen | CircuitHalfOpen

definition circuit_state_string :: "circuit_state \<Rightarrow> string" where
  "circuit_state_string s =
     (case s of CircuitClosed \<Rightarrow> ''closed'' | CircuitOpen \<Rightarrow> ''open'' | CircuitHalfOpen \<Rightarrow> ''half-open'')"

datatype circuit_error = ErrCircuitOpen | ErrEmptyBreakerKey

record cb_config =
  window_size :: int
  minimum_requests :: int
  failure_threshold :: float64
  cooldown :: int
  half_open_max :: int

record circuit_permit =
  p_breaker :: "string option"
  p_generation :: "64 word"
  p_state :: circuit_state
  p_once :: bool

record circuit_breaker =
  cb_cfg :: cb_config
  cb_state :: circuit_state
  generation :: "64 word"
  opened_at :: int
  window :: "bool list"
  next_slot :: nat
  cb_count :: nat
  failures :: int
  ho_permitted :: int
  ho_in_flight :: int
  ho_successes :: int
  rejected_total :: "64 word"
  opened_total :: "64 word"

record circuit_snapshot =
  cs_state :: circuit_state
  cs_window_requests :: nat
  cs_window_failures :: int
  cs_failure_rate :: float64
  cs_in_flight :: int
  cs_successes :: int
  cs_rejected :: "64 word"
  cs_opened :: "64 word"

section \<open>Operations\<close>

definition cb_normalized :: "cb_config \<Rightarrow> cb_config" where
  "cb_normalized c =
     (let c = (if window_size c \<le> 0 then c\<lparr>window_size := 20\<rparr> else c);
          c = (if minimum_requests c \<le> 0 then c\<lparr>minimum_requests := window_size c\<rparr> else c);
          c = (if window_size c < minimum_requests c then c\<lparr>minimum_requests := window_size c\<rparr> else c);
          c = (if f_le (failure_threshold c) (Fin 0) \<or> f_lt (Fin 1) (failure_threshold c)
               then c\<lparr>failure_threshold := Fin (1 / 2)\<rparr> else c);
          c = (if cooldown c \<le> 0 then c\<lparr>cooldown := 5 * second\<rparr> else c)
      in if half_open_max c \<le> 0 then c\<lparr>half_open_max := 1\<rparr> else c)"

definition new_circuit_breaker :: "cb_config \<Rightarrow> circuit_breaker" where
  "new_circuit_breaker cfg =
     (let cfg = cb_normalized cfg
      in \<lparr>cb_cfg = cfg, cb_state = CircuitClosed, generation = 0, opened_at = 0,
          window = replicate (nat (window_size cfg)) False, next_slot = 0, cb_count = 0, failures = 0,
          ho_permitted = 0, ho_in_flight = 0, ho_successes = 0, rejected_total = 0, opened_total = 0\<rparr>)"

definition transition_open :: "int \<Rightarrow> circuit_breaker \<Rightarrow> circuit_breaker" where
  "transition_open now b =
     b\<lparr>cb_state := CircuitOpen, generation := generation b + 1, opened_at := now,
       ho_permitted := 0, ho_in_flight := 0, ho_successes := 0, opened_total := opened_total b + 1\<rparr>"

definition transition_half_open :: "circuit_breaker \<Rightarrow> circuit_breaker" where
  "transition_half_open b =
     b\<lparr>cb_state := CircuitHalfOpen, generation := generation b + 1,
       ho_permitted := 0, ho_in_flight := 0, ho_successes := 0\<rparr>"

definition transition_closed :: "circuit_breaker \<Rightarrow> circuit_breaker" where
  "transition_closed b =
     b\<lparr>cb_state := CircuitClosed, generation := generation b + 1, next_slot := 0, cb_count := 0,
       failures := 0, window := map (\<lambda>_. False) (window b),
       ho_permitted := 0, ho_in_flight := 0, ho_successes := 0\<rparr>"

definition record_closed :: "bool \<Rightarrow> circuit_breaker \<Rightarrow> circuit_breaker" where
  "record_closed failure b =
     (let n = length (window b);
          b1 = (if cb_count b < n then b\<lparr>cb_count := cb_count b + 1\<rparr>
                else if window b ! next_slot b then b\<lparr>failures := failures b - 1\<rparr> else b);
          b2 = b1\<lparr>window := (window b1)[next_slot b1 := failure]\<rparr>;
          b3 = (if failure then b2\<lparr>failures := failures b2 + 1\<rparr> else b2)
      in b3\<lparr>next_slot := (next_slot b3 + 1) mod n\<rparr>)"

definition cb_allow ::
  "string \<Rightarrow> int \<Rightarrow> circuit_breaker \<Rightarrow> (circuit_error + circuit_permit) \<times> circuit_breaker" where
  "cb_allow key now b =
     (if cb_state b = CircuitOpen \<and> time_sub now (opened_at b) < cooldown (cb_cfg b)
      then (Inl ErrCircuitOpen, b\<lparr>rejected_total := rejected_total b + 1\<rparr>)
      else
        (let b = (if cb_state b = CircuitOpen then transition_half_open b else b)
         in if cb_state b = CircuitHalfOpen then
              (if half_open_max (cb_cfg b) \<le> ho_permitted b
               then (Inl ErrCircuitOpen, b\<lparr>rejected_total := rejected_total b + 1\<rparr>)
               else
                 (let b = b\<lparr>ho_permitted := ho_permitted b + 1, ho_in_flight := ho_in_flight b + 1\<rparr>
                  in (Inr \<lparr>p_breaker = Some key, p_generation = generation b, p_state = cb_state b,
                           p_once = False\<rparr>, b)))
            else (Inr \<lparr>p_breaker = Some key, p_generation = generation b, p_state = cb_state b,
                       p_once = False\<rparr>, b)))"

definition failure_rate :: "circuit_breaker \<Rightarrow> float64" where
  "failure_rate b = f_div (f_of_int (failures b)) (f_of_int (int (cb_count b)))"

definition cb_complete :: "64 word \<Rightarrow> circuit_state \<Rightarrow> bool \<Rightarrow> int \<Rightarrow> circuit_breaker \<Rightarrow> circuit_breaker" where
  "cb_complete gen permit_state success now b =
     (if gen \<noteq> generation b then b
      else case permit_state of
        CircuitClosed \<Rightarrow>
          (if cb_state b \<noteq> CircuitClosed then b
           else let b = record_closed (\<not> success) b
                in if minimum_requests (cb_cfg b) \<le> int (cb_count b) \<and>
                      f_le (failure_threshold (cb_cfg b)) (failure_rate b)
                   then transition_open now b else b)
      | CircuitHalfOpen \<Rightarrow>
          (if cb_state b \<noteq> CircuitHalfOpen then b
           else let b = (if 0 < ho_in_flight b then b\<lparr>ho_in_flight := ho_in_flight b - 1\<rparr> else b)
                in if \<not> success then transition_open now b
                   else let b = b\<lparr>ho_successes := ho_successes b + 1\<rparr>
                        in if half_open_max (cb_cfg b) \<le> ho_successes b then transition_closed b else b)
      | CircuitOpen \<Rightarrow> b)"

definition cb_snapshot :: "circuit_breaker \<Rightarrow> circuit_snapshot" where
  "cb_snapshot b =
     \<lparr>cs_state = cb_state b, cs_window_requests = cb_count b, cs_window_failures = failures b,
      cs_failure_rate = (if 0 < cb_count b then failure_rate b else Fin 0),
      cs_in_flight = ho_in_flight b, cs_successes = ho_successes b,
      cs_rejected = rejected_total b, cs_opened = opened_total b\<rparr>"

section \<open>The set of breakers\<close>

record breaker_set =
  bs_cfg :: cb_config
  breakers :: "(string, circuit_breaker) gomap"

definition new_breaker_set :: "cb_config \<Rightarrow> breaker_set" where
  "new_breaker_set cfg = \<lparr>bs_cfg = cb_normalized cfg, breakers = []\<rparr>"

definition set_breaker :: "string \<Rightarrow> breaker_set \<Rightarrow> circuit_breaker \<times> breaker_set" where
  "set_breaker key s =
     (case gm_get (breakers s) key of
        Some b \<Rightarrow> (b, s)
      | None \<Rightarrow> (let b = new_circuit_breaker (bs_cfg s)
                in (b, s\<lparr>breakers := gm_set key b (breakers s)\<rparr>)))"

text \<open>\<open>Allow\<close> of a possibly nil set: a nil set grants a permit without a breaker.\<close>

definition set_allow ::
  "string \<Rightarrow> int \<Rightarrow> breaker_set option \<Rightarrow> (circuit_error + circuit_permit) \<times> breaker_set option" where
  "set_allow key now s =
     (case s of
        None \<Rightarrow> (Inr \<lparr>p_breaker = None, p_generation = 0, p_state = CircuitClosed, p_once = False\<rparr>, None)
      | Some s \<Rightarrow>
          (if key = [] then (Inl ErrEmptyBreakerKey, Some s)
           else (let (b, s) = set_breaker key s; (r, b) = cb_allow key now b
                 in (r, Some (s\<lparr>breakers := gm_set key b (breakers s)\<rparr>)))))"

text \<open>\<open>CircuitPermit.Done\<close>: the breaker of a permit is reached through its key, since breakers are never removed.\<close>

definition permit_done ::
  "circuit_permit \<Rightarrow> bool \<Rightarrow> int \<Rightarrow> breaker_set \<Rightarrow> circuit_permit \<times> breaker_set" where
  "permit_done p success now s =
     (case p_breaker p of
        None \<Rightarrow> (p, s)
      | Some key \<Rightarrow>
          (if p_once p then (p, s)
           else (p\<lparr>p_once := True\<rparr>,
                 (case gm_get (breakers s) key of
                    None \<Rightarrow> s
                  | Some b \<Rightarrow> s\<lparr>breakers :=
                      gm_set key (cb_complete (p_generation p) (p_state p) success now b) (breakers s)\<rparr>))))"

definition set_snapshot :: "string \<Rightarrow> breaker_set \<Rightarrow> circuit_snapshot \<times> breaker_set" where
  "set_snapshot key s = (let (b, s) = set_breaker key s in (cb_snapshot b, s))"

section \<open>Invariant and abstraction\<close>

definition cfg_ok :: "cb_config \<Rightarrow> bool" where
  "cfg_ok c \<longleftrightarrow> 1 \<le> window_size c \<and> 1 \<le> minimum_requests c \<and> minimum_requests c \<le> window_size c \<and>
     0 < cooldown c \<and> 1 \<le> half_open_max c"

text \<open>The ring buffer: slots not yet written are false, and the failure counter counts the true ones.\<close>

definition ring_ok :: "circuit_breaker \<Rightarrow> bool" where
  "ring_ok b \<longleftrightarrow> next_slot b < length (window b) \<and> cb_count b \<le> length (window b) \<and>
     (cb_count b < length (window b) \<longrightarrow> next_slot b = cb_count b) \<and>
     (\<forall>i < length (window b). cb_count b \<le> i \<longrightarrow> \<not> window b ! i) \<and>
     failures b = int (count_list (window b) True)"

definition half_open_ok :: "circuit_breaker \<Rightarrow> bool" where
  "half_open_ok b \<longleftrightarrow>
     (if cb_state b = CircuitHalfOpen
      then 0 \<le> ho_in_flight b \<and> 0 \<le> ho_successes b \<and> ho_in_flight b + ho_successes b = ho_permitted b \<and>
           ho_permitted b \<le> half_open_max (cb_cfg b) \<and> ho_successes b < half_open_max (cb_cfg b)
      else ho_permitted b = 0 \<and> ho_in_flight b = 0 \<and> ho_successes b = 0)"

definition cb_inv :: "circuit_breaker \<Rightarrow> bool" where
  "cb_inv b \<longleftrightarrow> cfg_ok (cb_cfg b) \<and> length (window b) = nat (window_size (cb_cfg b)) \<and>
     ring_ok b \<and> half_open_ok b"

text \<open>The abstract window: the recorded outcomes, oldest first.\<close>

definition history :: "circuit_breaker \<Rightarrow> bool list" where
  "history b = (if cb_count b < length (window b) then take (cb_count b) (window b)
     else drop (next_slot b) (window b) @ take (next_slot b) (window b))"

definition last_n :: "nat \<Rightarrow> 'a list \<Rightarrow> 'a list" where
  "last_n n xs = drop (length xs - n) xs"

section \<open>The interleaving of callers\<close>

text \<open>
  One step is one method call by some caller: a permit granted, a request rejected, or a permit
  completed. The generation counter is a 64-bit word; a step is taken only before it reaches its
  last value, so that no generation is used twice.
\<close>

inductive cb_step ::
  "circuit_breaker \<times> circuit_permit multiset \<Rightarrow> circuit_breaker \<times> circuit_permit multiset \<Rightarrow> bool" where
  granted: "generation b \<noteq> - 1 \<Longrightarrow> cb_allow key now b = (Inr p, b') \<Longrightarrow> cb_step (b, P) (b', add_mset p P)"
| rejected: "generation b \<noteq> - 1 \<Longrightarrow> cb_allow key now b = (Inl e, b') \<Longrightarrow> cb_step (b, P) (b', P)"
| completed: "generation b \<noteq> - 1 \<Longrightarrow> p \<in># P \<Longrightarrow>
     cb_step (b, P) (cb_complete (p_generation p) (p_state p) success now b, P - {#p#})"

inductive cb_reachable :: "cb_config \<Rightarrow> circuit_breaker \<times> circuit_permit multiset \<Rightarrow> bool" for cfg where
  start: "cb_reachable cfg (new_circuit_breaker cfg, {#})"
| step: "cb_reachable cfg s \<Longrightarrow> cb_step s t \<Longrightarrow> cb_reachable cfg t"

definition current_permits :: "circuit_breaker \<Rightarrow> circuit_permit multiset \<Rightarrow> circuit_permit multiset" where
  "current_permits b P = filter_mset (\<lambda>p. p_generation p = generation b) P"

definition permits_ok :: "circuit_breaker \<Rightarrow> circuit_permit multiset \<Rightarrow> bool" where
  "permits_ok b P \<longleftrightarrow>
     (\<forall>p \<in># P. p_generation p \<le> generation b \<and> (p_generation p = generation b \<longrightarrow> p_state p = cb_state b)) \<and>
     (cb_state b = CircuitOpen \<longrightarrow> current_permits b P = {#}) \<and>
     (cb_state b = CircuitHalfOpen \<longrightarrow> int (size (current_permits b P)) = ho_in_flight b)"

text \<open>A run of calls on one breaker, with the answers given to the \<open>Allow\<close> calls.\<close>

datatype cb_event = AllowAt int | CompleteAt circuit_permit bool int

fun cb_run :: "string \<Rightarrow> cb_event list \<Rightarrow> circuit_breaker \<Rightarrow> (circuit_error + circuit_permit) list \<times> circuit_breaker" where
  "cb_run key [] b = ([], b)"
| "cb_run key (AllowAt now # es) b =
     (let (r, b) = cb_allow key now b; (rs, b) = cb_run key es b in (r # rs, b))"
| "cb_run key (CompleteAt p ok now # es) b =
     cb_run key es (cb_complete (p_generation p) (p_state p) ok now b)"

text \<open>One request admitted and completed successfully, if it is admitted.\<close>

definition probe_ok :: "string \<Rightarrow> int \<Rightarrow> circuit_breaker \<Rightarrow> circuit_breaker" where
  "probe_ok key now b =
     (case cb_allow key now b of
        (Inl _, b) \<Rightarrow> b
      | (Inr p, b) \<Rightarrow> cb_complete (p_generation p) (p_state p) True now b)"

text \<open>The set seen as a total function from keys to breakers: a key not yet used stands for a new breaker.\<close>

definition abs_set :: "breaker_set \<Rightarrow> string \<Rightarrow> circuit_breaker" where
  "abs_set s key = (case gm_get (breakers s) key of Some b \<Rightarrow> b | None \<Rightarrow> new_circuit_breaker (bs_cfg s))"

section \<open>The window interface\<close>

text \<open>
  A bounded window of outcomes: recording one keeps the last \<open>cap\<close> of them. The client lemma says
  what any number of recordings leave.
\<close>

locale outcome_window =
  fixes rec :: "bool \<Rightarrow> 's \<Rightarrow> 's" and hist :: "'s \<Rightarrow> bool list" and cap :: "'s \<Rightarrow> nat" and ok :: "'s \<Rightarrow> bool"
  assumes hist_rec: "ok s \<Longrightarrow> hist (rec f s) = last_n (cap s) (hist s @ [f])"
    and cap_rec: "ok s \<Longrightarrow> cap (rec f s) = cap s"
    and ok_rec: "ok s \<Longrightarrow> ok (rec f s)"
    and hist_len: "ok s \<Longrightarrow> length (hist s) \<le> cap s"
begin

lemma last_n_last_n: "last_n n (last_n n xs @ ys) = last_n n (xs @ ys)"
  by (cases "length xs \<le> n") (auto simp: last_n_def add.commute)

lemma hist_fold: "ok s \<Longrightarrow> hist (fold rec fs s) = last_n (cap s) (hist s @ fs)"
proof (induction fs arbitrary: s)
  case Nil
  then show ?case using hist_len by (simp add: last_n_def)
next
  case (Cons f fs)
  then have "hist (fold rec (f # fs) s) = last_n (cap s) (last_n (cap s) (hist s @ [f]) @ fs)"
    by (simp add: ok_rec hist_rec cap_rec)
  then show ?case by (simp add: last_n_last_n)
qed

lemma ok_fold: "ok s \<Longrightarrow> ok (fold rec fs s)"
  by (induction fs arbitrary: s) (auto simp: ok_rec)

end

section \<open>Lemmas on the ring buffer\<close>

lemma record_closed_sel [simp]:
  "cb_cfg (record_closed f b) = cb_cfg b" "cb_state (record_closed f b) = cb_state b"
  "generation (record_closed f b) = generation b" "ho_permitted (record_closed f b) = ho_permitted b"
  "ho_in_flight (record_closed f b) = ho_in_flight b" "ho_successes (record_closed f b) = ho_successes b"
  "window (record_closed f b) = (window b)[next_slot b := f]"
  "next_slot (record_closed f b) = (next_slot b + 1) mod length (window b)"
  "cb_count (record_closed f b) = (if cb_count b < length (window b) then cb_count b + 1 else cb_count b)"
  "failures (record_closed f b) = failures b - (if cb_count b < length (window b) then 0 else of_bool (window b ! next_slot b)) + of_bool f"
  "opened_at (record_closed f b) = opened_at b" "rejected_total (record_closed f b) = rejected_total b"
  "opened_total (record_closed f b) = opened_total b"
  by (simp_all add: record_closed_def Let_def)

lemma count_list_update:
  "i < length xs \<Longrightarrow> int (count_list (xs[i := x]) y) = int (count_list xs y) - of_bool (xs ! i = y) + of_bool (x = y)"
proof (induction xs arbitrary: i)
  case (Cons z zs)
  then show ?case by (cases i) auto
qed simp

lemma ring_ok_record: "ring_ok b \<Longrightarrow> ring_ok (record_closed f b)"
proof -
  assume b: "ring_ok b"
  let ?n = "length (window b)" and ?i = "next_slot b"
  have i: "?i < ?n" using b by (simp add: ring_ok_def)
  have old: "cb_count b < ?n \<Longrightarrow> \<not> window b ! ?i" using b by (auto simp: ring_ok_def)
  have cnt: "failures (record_closed f b) = int (count_list (window (record_closed f b)) True)"
    using b i old by (auto simp: ring_ok_def count_list_update)
  have m: "Suc k mod ?n < ?n" for k using i by (intro mod_less_divisor) auto
  show ?thesis
    using b i cnt m by (auto simp: ring_ok_def nth_list_update)
qed

lemma history_record:
  assumes "ring_ok b"
  shows "history (record_closed f b) = last_n (length (window b)) (history b @ [f])"
proof -
  let ?n = "length (window b)" and ?i = "next_slot b" and ?w = "window b"
  have i: "?i < ?n" using assms by (simp add: ring_ok_def)
  consider (filling) "cb_count b + 1 < ?n" | (last) "cb_count b + 1 = ?n" | (full) "cb_count b = ?n"
    using assms by (fastforce simp: ring_ok_def)
  then show ?thesis
  proof cases
    case filling
    then have "?i = cb_count b" using assms by (simp add: ring_ok_def)
    with filling i show ?thesis
      by (simp add: history_def last_n_def take_Suc_conv_app_nth take_update_swap list_update_append)
  next
    case last
    then have "?i = cb_count b" using assms by (simp add: ring_ok_def)
    with last i show ?thesis
      by (simp add: history_def last_n_def upd_conv_take_nth_drop)
  next
    case full
    have h: "history b = drop ?i ?w @ take ?i ?w" using full by (simp add: history_def)
    have "drop ?i ?w = ?w ! ?i # drop (Suc ?i) ?w" using i by (simp add: Cons_nth_drop_Suc)
    then have "history b @ [f] = ?w ! ?i # (drop (Suc ?i) ?w @ take ?i ?w @ [f])" using h by simp
    moreover have "length (history b @ [f]) - ?n = Suc 0" using h by simp
    ultimately have r: "last_n ?n (history b @ [f]) = drop (Suc ?i) ?w @ take ?i ?w @ [f]"
      unfolding last_n_def by (simp only: drop_Suc_Cons drop_0)
    show ?thesis
    proof (cases "Suc ?i = ?n")
      case True
      then show ?thesis using full r i by (simp add: history_def upd_conv_take_nth_drop)
    next
      case False
      then have "(?i + 1) mod ?n = Suc ?i" using i by simp
      with full r i show ?thesis
        by (simp add: history_def take_Suc_conv_app_nth take_update_swap list_update_append)
    qed
  qed
qed

lemma history_length: "ring_ok b \<Longrightarrow> length (history b) = cb_count b"
  by (auto simp: history_def ring_ok_def)

lemma history_failures: "ring_ok b \<Longrightarrow> failures b = int (count_list (history b) True)"
proof -
  assume b: "ring_ok b"
  have split: "count_list (take k xs) True + count_list (drop k xs) True = count_list xs True" for k and xs :: "bool list"
    by (metis append_take_drop_id count_list_append)
  have "count_list (drop (cb_count b) (window b)) True = 0"
  proof -
    have "True \<notin> set (drop (cb_count b) (window b))"
      using b by (auto simp: ring_ok_def in_set_conv_nth)
    then show ?thesis by (simp add: count_list_0_iff)
  qed
  then have "count_list (history b) True = count_list (window b) True"
    using split [of "cb_count b" "window b"] split [of "next_slot b" "window b"]
    by (simp add: history_def)
  then show ?thesis using b by (simp add: ring_ok_def)
qed

interpretation ring: outcome_window record_closed history "\<lambda>b. length (window b)" ring_ok
  by unfold_locales
    (auto simp: history_record ring_ok_record history_length, auto simp: ring_ok_def)

section \<open>Lemmas on the invariant\<close>

lemmas transition_defs = transition_open_def transition_half_open_def transition_closed_def

lemma cfg_ok_normalized [simp]: "cfg_ok (cb_normalized c)"
  by (simp add: cb_normalized_def cfg_ok_def Let_def)

lemma cb_inv_new [wf_intros]: "cb_inv (new_circuit_breaker cfg)"
proof -
  have ok: "cfg_ok (cb_normalized cfg)" by simp
  then have "0 < nat (window_size (cb_normalized cfg))" by (simp add: cfg_ok_def)
  moreover have "count_list (replicate n False) True = 0" for n by (induction n) auto
  ultimately show ?thesis using ok
    by (simp add: new_circuit_breaker_def Let_def cb_inv_def ring_ok_def half_open_ok_def)
qed

lemma ring_ok_transition [simp]:
  "ring_ok (transition_open now b) = ring_ok b" "ring_ok (transition_half_open b) = ring_ok b"
  by (auto simp: transition_defs ring_ok_def)

lemma ring_ok_upd [simp]:
  "ring_ok (b\<lparr>ho_in_flight := k\<rparr>) = ring_ok b" "ring_ok (b\<lparr>ho_successes := k\<rparr>) = ring_ok b"
  "ring_ok (b\<lparr>ho_permitted := k\<rparr>) = ring_ok b" "ring_ok (b\<lparr>rejected_total := w\<rparr>) = ring_ok b"
  by (simp_all add: ring_ok_def)

lemma ring_ok_closed: "ring_ok b \<Longrightarrow> ring_ok (transition_closed b)"
proof -
  have "count_list (map (\<lambda>_. False) xs) True = 0" for xs :: "bool list" by (induction xs) auto
  moreover assume "ring_ok b"
  ultimately show ?thesis by (auto simp: transition_defs ring_ok_def)
qed

text \<open>The outcomes of \<open>Allow\<close>.\<close>

lemma cb_allow_cases [consumes 1, case_names cooling reopen full probe closed]:
  assumes "cb_allow key now b = (r, b')"
  obtains
    "cb_state b = CircuitOpen" "time_sub now (opened_at b) < cooldown (cb_cfg b)"
      "r = Inl ErrCircuitOpen" "b' = b\<lparr>rejected_total := rejected_total b + 1\<rparr>"
  | "cb_state b = CircuitOpen" "cooldown (cb_cfg b) \<le> time_sub now (opened_at b)"
      "cb_allow key now (transition_half_open b) = (r, b')"
  | "cb_state b = CircuitHalfOpen" "half_open_max (cb_cfg b) \<le> ho_permitted b"
      "r = Inl ErrCircuitOpen" "b' = b\<lparr>rejected_total := rejected_total b + 1\<rparr>"
  | "cb_state b = CircuitHalfOpen" "ho_permitted b < half_open_max (cb_cfg b)"
      "r = Inr \<lparr>p_breaker = Some key, p_generation = generation b, p_state = CircuitHalfOpen, p_once = False\<rparr>"
      "b' = b\<lparr>ho_permitted := ho_permitted b + 1, ho_in_flight := ho_in_flight b + 1\<rparr>"
  | "cb_state b = CircuitClosed" "b' = b"
      "r = Inr \<lparr>p_breaker = Some key, p_generation = generation b, p_state = CircuitClosed, p_once = False\<rparr>"
proof (cases "cb_state b")
  case CircuitClosed
  moreover from this assms have "b' = b"
    "r = Inr \<lparr>p_breaker = Some key, p_generation = generation b, p_state = CircuitClosed, p_once = False\<rparr>"
    by (auto simp: cb_allow_def)
  ultimately show ?thesis by (rule that(5))
next
  case CircuitOpen
  show ?thesis
  proof (cases "time_sub now (opened_at b) < cooldown (cb_cfg b)")
    case True
    moreover from this CircuitOpen assms have "r = Inl ErrCircuitOpen"
      "b' = b\<lparr>rejected_total := rejected_total b + 1\<rparr>" by (auto simp: cb_allow_def)
    ultimately show ?thesis using CircuitOpen by (intro that(1))
  next
    case False
    then have "cb_allow key now (transition_half_open b) = (r, b')"
      using CircuitOpen assms by (simp add: cb_allow_def transition_half_open_def)
    moreover have "cooldown (cb_cfg b) \<le> time_sub now (opened_at b)" using False by simp
    ultimately show ?thesis using CircuitOpen by (intro that(2))
  qed
next
  case CircuitHalfOpen
  show ?thesis
  proof (cases "half_open_max (cb_cfg b) \<le> ho_permitted b")
    case True
    moreover from this CircuitHalfOpen assms have "r = Inl ErrCircuitOpen"
      "b' = b\<lparr>rejected_total := rejected_total b + 1\<rparr>" by (auto simp: cb_allow_def)
    ultimately show ?thesis using CircuitHalfOpen by (intro that(3))
  next
    case False
    then have "ho_permitted b < half_open_max (cb_cfg b)"
      "r = Inr \<lparr>p_breaker = Some key, p_generation = generation b, p_state = CircuitHalfOpen, p_once = False\<rparr>"
      "b' = b\<lparr>ho_permitted := ho_permitted b + 1, ho_in_flight := ho_in_flight b + 1\<rparr>"
      using CircuitHalfOpen assms by (auto simp: cb_allow_def Let_def)
    then show ?thesis using CircuitHalfOpen by (intro that(4))
  qed
qed

lemma half_open_ok_transition [simp]:
  "half_open_ok (transition_open now b)" "half_open_ok (transition_closed b)"
  "cfg_ok (cb_cfg b) \<Longrightarrow> half_open_ok (transition_half_open b)"
  by (auto simp: half_open_ok_def transition_defs cfg_ok_def)

lemma transition_sel [simp]:
  "cb_cfg (transition_open now b) = cb_cfg b" "window (transition_open now b) = window b"
  "cb_cfg (transition_half_open b) = cb_cfg b" "window (transition_half_open b) = window b"
  "cb_cfg (transition_closed b) = cb_cfg b" "length (window (transition_closed b)) = length (window b)"
  "cb_state (transition_open now b) = CircuitOpen" "cb_state (transition_half_open b) = CircuitHalfOpen"
  "cb_state (transition_closed b) = CircuitClosed"
  "generation (transition_open now b) = generation b + 1" "generation (transition_half_open b) = generation b + 1"
  "generation (transition_closed b) = generation b + 1"
  "ho_permitted (transition_half_open b) = 0" "ho_in_flight (transition_half_open b) = 0"
  "ho_successes (transition_half_open b) = 0"
  by (simp_all add: transition_defs)

lemma cb_inv_half_open: "cb_inv b \<Longrightarrow> cb_inv (transition_half_open b)"
  by (simp add: cb_inv_def)

lemma cb_inv_allow_half_open:
  assumes "cb_inv b" "cb_state b = CircuitHalfOpen" "cb_allow key now b = (r, b')"
  shows "cb_inv b'"
  using assms(3,1,2)
  by (cases rule: cb_allow_cases) (auto simp: cb_inv_def half_open_ok_def)

lemma cb_inv_allow [wf_intros]:
  assumes "cb_inv b" "cb_allow key now b = (r, b')"
  shows "cb_inv b'"
  using assms(2)
proof (cases rule: cb_allow_cases)
  case reopen
  then show ?thesis
    using cb_inv_allow_half_open [OF cb_inv_half_open [OF assms(1)], of key now r b'] by simp
qed (use assms in \<open>auto simp: cb_inv_def half_open_ok_def\<close>)

lemma cb_complete_half_open:
  "cb_state b = CircuitHalfOpen \<Longrightarrow> gen = generation b \<Longrightarrow> 0 < ho_in_flight b \<Longrightarrow>
   cb_complete gen CircuitHalfOpen ok now b =
     (if \<not> ok then transition_open now (b\<lparr>ho_in_flight := ho_in_flight b - 1\<rparr>)
      else if half_open_max (cb_cfg b) \<le> ho_successes b + 1
      then transition_closed (b\<lparr>ho_in_flight := ho_in_flight b - 1, ho_successes := ho_successes b + 1\<rparr>)
      else b\<lparr>ho_in_flight := ho_in_flight b - 1, ho_successes := ho_successes b + 1\<rparr>)"
  by (simp add: cb_complete_def Let_def)

lemma cb_complete_closed:
  "cb_state b = CircuitClosed \<Longrightarrow> gen = generation b \<Longrightarrow>
   cb_complete gen CircuitClosed ok now b =
     (let b' = record_closed (\<not> ok) b
      in if minimum_requests (cb_cfg b) \<le> int (cb_count b') \<and> f_le (failure_threshold (cb_cfg b)) (failure_rate b')
         then transition_open now b' else b')"
  by (simp add: cb_complete_def Let_def)

lemma cb_complete_closed_or:
  "cb_state b = CircuitClosed \<Longrightarrow> gen = generation b \<Longrightarrow>
   cb_complete gen CircuitClosed ok now b = transition_open now (record_closed (\<not> ok) b) \<or>
   cb_complete gen CircuitClosed ok now b = record_closed (\<not> ok) b"
  by (simp add: cb_complete_closed Let_def)

lemma cb_complete_stale: "gen \<noteq> generation b \<Longrightarrow> cb_complete gen st ok now b = b"
  by (simp add: cb_complete_def)

lemma cb_complete_mismatch: "st \<noteq> cb_state b \<Longrightarrow> cb_complete gen st ok now b = b"
  by (cases st) (auto simp: cb_complete_def)

lemma cb_complete_open: "cb_complete gen CircuitOpen ok now b = b"
  by (simp add: cb_complete_def)

lemma cb_inv_complete_closed:
  "cb_inv b \<Longrightarrow> cb_state b = CircuitClosed \<Longrightarrow> gen = generation b \<Longrightarrow> cb_inv (cb_complete gen CircuitClosed ok now b)"
  by (simp add: cb_complete_closed Let_def cb_inv_def ring_ok_record half_open_ok_def [of "record_closed f b" for f b]
      half_open_ok_def [of b])

lemma cb_inv_complete_half_open:
  "cb_inv b \<Longrightarrow> cb_state b = CircuitHalfOpen \<Longrightarrow> gen = generation b \<Longrightarrow> 0 < ho_in_flight b \<Longrightarrow>
   cb_inv (cb_complete gen CircuitHalfOpen ok now b)"
  by (auto simp: cb_complete_half_open cb_inv_def ring_ok_closed)
    (auto simp: half_open_ok_def)

lemma cb_inv_complete [wf_intros]:
  assumes "cb_inv b" "gen = generation b \<Longrightarrow> st = CircuitHalfOpen \<Longrightarrow> cb_state b = CircuitHalfOpen \<Longrightarrow> 0 < ho_in_flight b"
  shows "cb_inv (cb_complete gen st ok now b)"
proof (cases "gen = generation b \<and> st = cb_state b")
  case True
  then show ?thesis using assms
    by (cases st) (auto simp: cb_inv_complete_closed cb_inv_complete_half_open cb_complete_open)
next
  case False
  then have "cb_complete gen st ok now b = b" using cb_complete_stale cb_complete_mismatch by blast
  then show ?thesis using assms by simp
qed

section \<open>Lemmas on the interleaving\<close>

lemma gen_step: "(g :: 64 word) \<noteq> - 1 \<Longrightarrow> h \<le> g \<Longrightarrow> h < g + 1"
proof -
  assume g: "g \<noteq> - 1" and h: "h \<le> g"
  have "1 + g \<noteq> 0" using g by (metis add.commute eq_neg_iff_add_eq_0)
  then have "unat (1 + g) = Suc (unat g)" by (rule unatSuc)
  then have "unat (g + 1) = Suc (unat g)" by (simp only: add.commute)
  with h show ?thesis by (simp only: word_less_nat_alt word_le_nat_alt less_Suc_eq_le)
qed

lemma permits_after_transition:
  assumes "permits_ok b P" "generation b \<noteq> - 1" "generation b' = generation b + 1" "Q \<subseteq># P"
  shows "current_permits b' Q = {#}" "\<forall>p \<in># Q. p_generation p < generation b'"
proof -
  show lt: "\<forall>p \<in># Q. p_generation p < generation b'"
    using assms gen_step by (auto simp: permits_ok_def dest!: mset_subset_eqD)
  then show "current_permits b' Q = {#}"
    by (auto simp: current_permits_def)
qed

lemma permits_ok_transition:
  assumes "permits_ok b P" "generation b \<noteq> - 1" "generation b' = generation b + 1" "Q \<subseteq># P"
    "cb_state b' = CircuitHalfOpen \<Longrightarrow> ho_in_flight b' = 0"
  shows "permits_ok b' Q"
  using permits_after_transition [OF assms(1-4)] assms(5)
  by (auto simp: permits_ok_def)

lemma permits_ok_cong:
  "permits_ok b P \<Longrightarrow> generation b' = generation b \<Longrightarrow> cb_state b' = cb_state b \<Longrightarrow> ho_in_flight b' = ho_in_flight b
   \<Longrightarrow> permits_ok b' P"
  by (auto simp: permits_ok_def current_permits_def)

lemma permits_ok_allow_half_open:
  assumes "permits_ok b P" "cb_state b = CircuitHalfOpen" "cb_allow key now b = (Inr p, b')"
  shows "permits_ok b' (add_mset p P)"
  using assms(3,1,2)
  by (cases rule: cb_allow_cases) (auto simp: permits_ok_def current_permits_def)

lemma permits_ok_reject_half_open:
  assumes "permits_ok b P" "cb_state b = CircuitHalfOpen" "cb_allow key now b = (Inl e, b')"
  shows "permits_ok b' P"
  using assms(3,1,2)
  by (cases rule: cb_allow_cases) (auto intro: permits_ok_cong)

lemma permits_ok_granted:
  assumes "permits_ok b P" "generation b \<noteq> - 1" "cb_allow key now b = (Inr p, b')"
  shows "permits_ok b' (add_mset p P)"
  using assms(3)
proof (cases rule: cb_allow_cases)
  case reopen
  have "permits_ok (transition_half_open b) P"
    by (rule permits_ok_transition [OF assms(1,2)]) auto
  then show ?thesis by (rule permits_ok_allow_half_open [OF _ _ reopen(3)]) simp
next
  case probe
  then show ?thesis using assms permits_ok_allow_half_open by blast
next
  case closed
  then show ?thesis using assms by (auto simp: permits_ok_def current_permits_def)
qed auto

lemma permits_ok_rejected:
  assumes "permits_ok b P" "generation b \<noteq> - 1" "cb_allow key now b = (Inl e, b')"
  shows "permits_ok b' P"
  using assms(3)
proof (cases rule: cb_allow_cases)
  case reopen
  have "permits_ok (transition_half_open b) P"
    by (rule permits_ok_transition [OF assms(1,2)]) auto
  then show ?thesis by (rule permits_ok_reject_half_open [OF _ _ reopen(3)]) simp
qed (use assms in \<open>auto intro: permits_ok_cong\<close>)

lemma current_permits_remove:
  "p \<in># P \<Longrightarrow> p_generation p = generation b \<Longrightarrow> size (current_permits b P) = Suc (size (current_permits b (P - {#p#})))"
  unfolding current_permits_def
  by (metis (mono_tags, lifting) filter_mset_add_mset insert_DiffM size_add_mset)

lemma current_permits_remove_old:
  "p_generation p \<noteq> generation b \<Longrightarrow> current_permits b (P - {#p#}) = current_permits b P"
  unfolding current_permits_def
  by (metis (mono_tags, lifting) filter_mset_add_mset insert_DiffM diff_single_trivial)

lemma permit_in_flight:
  "permits_ok b P \<Longrightarrow> p \<in># P \<Longrightarrow> p_generation p = generation b \<Longrightarrow> cb_state b = CircuitHalfOpen \<Longrightarrow> 0 < ho_in_flight b"
  using current_permits_remove [of p P b] by (auto simp: permits_ok_def)

lemma permits_ok_remove:
  assumes "permits_ok b P" "p \<in># P" "generation b' = generation b" "cb_state b' = cb_state b"
    "cb_state b = CircuitHalfOpen \<Longrightarrow> ho_in_flight b' = ho_in_flight b - of_bool (p_generation p = generation b)"
  shows "permits_ok b' (P - {#p#})"
proof -
  have cur: "current_permits b' Q = current_permits b Q" for Q using assms by (simp add: current_permits_def)
  show ?thesis
  proof (cases "p_generation p = generation b")
    case True
    with assms current_permits_remove [OF assms(2) True] show ?thesis
      by (auto simp: permits_ok_def cur dest: in_diffD)
  next
    case False
    with assms show ?thesis
      by (auto simp: permits_ok_def cur current_permits_remove_old dest: in_diffD)
  qed
qed

lemma permits_ok_completed:
  assumes "permits_ok b P" "generation b \<noteq> - 1" "p \<in># P"
  shows "permits_ok (cb_complete (p_generation p) (p_state p) ok now b) (P - {#p#})"
proof (cases "p_generation p = generation b")
  case False
  then show ?thesis using assms by (auto simp: cb_complete_stale intro: permits_ok_remove)
next
  case True
  then have st: "p_state p = cb_state b" using assms by (auto simp: permits_ok_def)
  note leave = permits_ok_transition [OF assms(1,2) _ diff_subset_eq_self [of P "{#p#}"]]
  show ?thesis
  proof (cases "cb_state b")
    case CircuitClosed
    let ?r = "record_closed (\<not> ok) b"
    have "cb_complete (p_generation p) (p_state p) ok now b = transition_open now ?r \<or>
        cb_complete (p_generation p) (p_state p) ok now b = ?r"
      using cb_complete_closed_or [OF CircuitClosed True] st CircuitClosed by simp
    moreover have "permits_ok (transition_open now ?r) (P - {#p#})" by (rule leave) simp_all
    moreover have "permits_ok ?r (P - {#p#})"
      by (rule permits_ok_remove [OF assms(1,3)]) (simp_all add: CircuitClosed)
    ultimately show ?thesis by (elim disjE) (simp_all only:)
  next
    case CircuitHalfOpen
    then have fl: "0 < ho_in_flight b" using assms True permit_in_flight by blast
    let ?f = "b\<lparr>ho_in_flight := ho_in_flight b - 1\<rparr>"
    let ?s = "b\<lparr>ho_in_flight := ho_in_flight b - 1, ho_successes := ho_successes b + 1\<rparr>"
    have "permits_ok (transition_open now ?f) (P - {#p#})" "permits_ok (transition_closed ?s) (P - {#p#})"
      by (rule leave; simp)+
    moreover have "permits_ok ?s (P - {#p#})"
      by (rule permits_ok_remove [OF assms(1,3)]) (simp_all add: True)
    ultimately show ?thesis using CircuitHalfOpen True st fl by (simp add: cb_complete_half_open)
  next
    case CircuitOpen
    then show ?thesis using assms True st by (auto simp: cb_complete_open intro: permits_ok_remove)
  qed
qed

lemma cb_reachable_inv:
  assumes "cb_reachable cfg (b, P)"
  shows "cb_inv b \<and> permits_ok b P"
proof -
  have "cb_reachable cfg s \<Longrightarrow> cb_inv (fst s) \<and> permits_ok (fst s) (snd s)" for s
  proof (induction rule: cb_reachable.induct)
    case start
    have "permits_ok (new_circuit_breaker cfg) {#}"
      by (simp add: permits_ok_def current_permits_def new_circuit_breaker_def Let_def)
    then show ?case by (simp add: cb_inv_new)
  next
    case (step s t)
    from step.hyps(2) step.IH show ?case
    proof cases
      case (granted b key now p b' P)
      with step.IH show ?thesis using cb_inv_allow permits_ok_granted by fastforce
    next
      case (rejected b key now e b' P)
      with step.IH show ?thesis using cb_inv_allow permits_ok_rejected by fastforce
    next
      case (completed b p P ok now)
      with step.IH have "cb_inv (cb_complete (p_generation p) (p_state p) ok now b)"
        by (intro cb_inv_complete) (auto intro: permit_in_flight)
      with completed step.IH show ?thesis using permits_ok_completed by fastforce
    qed
  qed
  from this [OF assms] show ?thesis by simp
qed

section \<open>Lemmas on runs\<close>

lemma cb_complete_when_open: "cb_state b = CircuitOpen \<Longrightarrow> cb_complete gen st ok now b = b"
  using cb_complete_mismatch cb_complete_open by (cases "st = CircuitOpen") auto

lemma cb_run_open:
  assumes "cb_state b = CircuitOpen" "\<And>t. AllowAt t \<in> set es \<Longrightarrow> time_sub t (opened_at b) < cooldown (cb_cfg b)"
  shows "\<exists>n. cb_run key es b = (replicate n (Inl ErrCircuitOpen), b\<lparr>rejected_total := rejected_total b + of_nat n\<rparr>) \<and>
     n = length (filter (\<lambda>e. case e of AllowAt _ \<Rightarrow> True | _ \<Rightarrow> False) es)"
  using assms
proof (induction es arbitrary: b)
  case (Cons e es)
  show ?case
  proof (cases e)
    case (AllowAt t)
    let ?b = "b\<lparr>rejected_total := rejected_total b + 1\<rparr>"
    have "cb_allow key t b = (Inl ErrCircuitOpen, ?b)" using Cons.prems AllowAt by (simp add: cb_allow_def)
    moreover obtain n where "cb_run key es ?b =
        (replicate n (Inl ErrCircuitOpen), ?b\<lparr>rejected_total := rejected_total ?b + of_nat n\<rparr>)"
      "n = length (filter (\<lambda>e. case e of AllowAt _ \<Rightarrow> True | _ \<Rightarrow> False) es)"
      using Cons.IH [of ?b] Cons.prems by auto
    ultimately show ?thesis using AllowAt by (auto simp: add.assoc)
  next
    case (CompleteAt p ok t)
    then show ?thesis using Cons.IH [of b] Cons.prems by (simp add: cb_complete_when_open)
  qed
qed simp

text \<open>Completions of permits of the current generation record exactly their outcomes while the breaker stays closed.\<close>

lemma complete_fold_stale:
  "generation b \<noteq> gen \<Longrightarrow> fold (\<lambda>(ok, now). cb_complete gen st ok now) oks b = b"
  by (induction oks arbitrary: b) (auto simp: cb_complete_stale)

lemma complete_fold_closed:
  assumes "cb_state b = CircuitClosed" "generation b = gen"
    "generation (fold (\<lambda>(ok, now). cb_complete gen CircuitClosed ok now) oks b) = gen"
  shows "fold (\<lambda>(ok, now). cb_complete gen CircuitClosed ok now) oks b = fold record_closed (map (Not \<circ> fst) oks) b"
  using assms
proof (induction oks arbitrary: b)
  case (Cons c oks)
  obtain ok now where c: "c = (ok, now)" by fastforce
  let ?r = "record_closed (\<not> ok) b" and ?c = "cb_complete gen CircuitClosed ok now b"
  have "?c = transition_open now ?r \<or> ?c = ?r"
    using Cons.prems by (intro cb_complete_closed_or) auto
  moreover have False if "?c = transition_open now ?r"
  proof -
    have "generation ?c \<noteq> gen" using that Cons.prems by simp
    then show False using Cons.prems complete_fold_stale [of ?c gen CircuitClosed oks] c by simp
  qed
  ultimately have "?c = ?r" by blast
  then show ?case using Cons.IH [of ?r] Cons.prems c by simp
qed simp

lemma cb_step_shape:
  assumes "cb_step (b, P) (b', P')"
  shows "generation b' = generation b \<and> cb_state b' = cb_state b \<or>
     generation b' = generation b + 1 \<and>
       (cb_state b, cb_state b') \<in>
         {(CircuitClosed, CircuitOpen), (CircuitOpen, CircuitHalfOpen), (CircuitHalfOpen, CircuitOpen),
          (CircuitHalfOpen, CircuitClosed)}"
  using assms
proof cases
  case (granted key now p)
  from granted(3) show ?thesis
    by (cases rule: cb_allow_cases) (auto simp: cb_allow_def Let_def split: if_splits)
next
  case (rejected key now e)
  from rejected(3) show ?thesis
    by (cases rule: cb_allow_cases) (auto simp: cb_allow_def Let_def split: if_splits)
next
  case (completed p ok now)
  then show ?thesis
    by (cases "cb_state b"; cases "p_state p"; auto simp: cb_complete_def Let_def)
qed

lemma half_open_full_in_flight:
  "cb_inv b \<Longrightarrow> cb_state b = CircuitHalfOpen \<Longrightarrow> half_open_max (cb_cfg b) \<le> ho_permitted b \<Longrightarrow> 0 < ho_in_flight b"
  by (auto simp: cb_inv_def half_open_ok_def)

text \<open>The threshold test against the exact ratio.\<close>

lemma failure_rate_exact:
  assumes "ring_ok b" "0 < cb_count b" "int (cb_count b) \<le> 2 ^ 53"
  shows "failure_rate b = Fin (rnd (of_nat (count_list (history b) True) / of_nat (cb_count b)))"
    "of_nat (count_list (history b) True) / of_nat (cb_count b) \<le> (1 :: rat)"
proof -
  let ?f = "count_list (history b) True" and ?n = "cb_count b"
  have le: "?f \<le> ?n" using history_length [OF assms(1)] count_le_length [of "history b" True] by simp
  show q: "of_nat ?f / of_nat ?n \<le> (1 :: rat)" using le assms(2) by simp
  have "\<bar>of_nat ?f / of_nat ?n\<bar> \<le> (2 :: rat) ^ 0" using q by simp
  then have "\<bar>of_nat ?f / of_nat ?n\<bar> \<le> (2 :: rat) ^ 1000" by (rule le_big) simp
  moreover have "f_of_int (failures b) = Fin (of_nat ?f)" "f_of_int (int ?n) = Fin (of_nat ?n)"
    using le assms history_failures [OF assms(1)] by simp_all
  moreover have "(of_nat ?n :: rat) \<noteq> 0" using assms(2) by simp
  ultimately show "failure_rate b = Fin (rnd (of_nat ?f / of_nat ?n))"
    by (simp only: failure_rate_def f_div_fin not_False_eq_True)
qed

lemma complete_closed_state:
  assumes "cb_inv b" "cb_state b = CircuitClosed" "window_size (cb_cfg b) \<le> 2 ^ 53"
    and "failure_threshold (cb_cfg b) = Fin t"
    and h: "h = last_n (nat (window_size (cb_cfg b))) (history b @ [\<not> ok])"
  shows "cb_state (cb_complete (generation b) CircuitClosed ok now b) =
     (if minimum_requests (cb_cfg b) \<le> int (length h) \<and> t \<le> rnd (of_nat (count_list h True) / of_nat (length h))
      then CircuitOpen else CircuitClosed)"
proof -
  let ?r = "record_closed (\<not> ok) b"
  have ring: "ring_ok b" "ring_ok ?r" using assms(1) by (simp_all add: cb_inv_def ring_ok_record)
  have hist: "history ?r = h" using history_record [OF ring(1)] assms(1) h by (simp add: cb_inv_def)
  then have len: "cb_count ?r = length h" using history_length [OF ring(2)] by simp
  have pos: "0 < cb_count ?r" using ring by (auto simp: ring_ok_def)
  have "cb_count ?r \<le> nat (window_size (cb_cfg b))" using ring(2) assms(1) by (simp add: ring_ok_def cb_inv_def)
  then have "int (cb_count ?r) \<le> 2 ^ 53" using assms(3) pos by linarith
  from failure_rate_exact(1) [OF ring(2) pos this]
  have "failure_rate ?r = Fin (rnd (of_nat (count_list h True) / of_nat (length h)))"
    by (simp only: hist len)
  then show ?thesis using assms(2,4) len
    by (simp add: cb_complete_closed Let_def del: record_closed_sel(9))
qed

text \<open>Recovery: in the half-open state each successful probe counts, and the last one closes the breaker.\<close>

lemma probe_ok_half_open:
  assumes "cb_state b = CircuitHalfOpen" "ho_permitted b = ho_successes b" "ho_in_flight b = 0"
    "ho_successes b < half_open_max (cb_cfg b)"
  shows "probe_ok key now b =
     (let b' = b\<lparr>ho_permitted := ho_successes b + 1, ho_in_flight := 0, ho_successes := ho_successes b + 1\<rparr>
      in if half_open_max (cb_cfg b) \<le> ho_successes b + 1 then transition_closed b' else b')"
  using assms by (simp add: probe_ok_def cb_allow_def cb_complete_def Let_def)

lemma probes_half_open:
  assumes "cb_state b = CircuitHalfOpen" "ho_permitted b = ho_successes b" "ho_in_flight b = 0"
    "ho_successes b + int (Suc n) = half_open_max (cb_cfg b)"
  shows "\<exists>x. (probe_ok key now ^^ Suc n) b = transition_closed (b\<lparr>ho_permitted := x, ho_in_flight := 0, ho_successes := x\<rparr>)"
  using assms
proof (induction n arbitrary: b)
  case 0
  then show ?case by (auto simp: probe_ok_half_open Let_def)
next
  case (Suc n)
  let ?b = "b\<lparr>ho_permitted := ho_successes b + 1, ho_in_flight := 0, ho_successes := ho_successes b + 1\<rparr>"
  have "probe_ok key now b = ?b" using Suc.prems by (simp add: probe_ok_half_open Let_def)
  moreover have "\<exists>x. (probe_ok key now ^^ Suc n) ?b = transition_closed (?b\<lparr>ho_permitted := x, ho_in_flight := 0, ho_successes := x\<rparr>)"
    using Suc.prems by (intro Suc.IH) auto
  ultimately show ?case by (simp only: funpow_Suc_right o_apply) simp
qed

lemma probe_ok_reopen:
  "cb_state b = CircuitOpen \<Longrightarrow> cooldown (cb_cfg b) \<le> time_sub now (opened_at b) \<Longrightarrow>
   probe_ok key now b = probe_ok key now (transition_half_open b)"
  by (simp add: probe_ok_def cb_allow_def transition_half_open_def)

lemma abs_set_breaker:
  "set_breaker key s = (b, s') \<Longrightarrow> b = abs_set s key \<and> abs_set s' = abs_set s \<and> bs_cfg s' = bs_cfg s"
  by (auto simp: set_breaker_def abs_set_def fun_eq_iff Let_def split: option.splits if_splits)

lemma abs_set_upd: "abs_set (s\<lparr>breakers := gm_set key b (breakers s)\<rparr>) = (abs_set s)(key := b)"
  by (auto simp: abs_set_def fun_eq_iff split: option.split)

section \<open>Properties\<close>

text \<open>The breaker of the witnesses: it opens at the first failure and closes after one good probe.\<close>

definition demo_cfg :: cb_config where
  "demo_cfg = \<lparr>window_size = 2, minimum_requests = 1, failure_threshold = Fin (1 / 2), cooldown = 5, half_open_max = 1\<rparr>"

definition demo_breaker :: circuit_breaker where
  "demo_breaker = \<lparr>cb_cfg = demo_cfg, cb_state = CircuitClosed, generation = 0, opened_at = 0,
     window = [False, False], next_slot = 0, cb_count = 0, failures = 0, ho_permitted = 0, ho_in_flight = 0,
     ho_successes = 0, rejected_total = 0, opened_total = 0\<rparr>"

definition demo_permit :: "64 word \<Rightarrow> circuit_state \<Rightarrow> circuit_permit" where
  "demo_permit g st = \<lparr>p_breaker = Some ''k'', p_generation = g, p_state = st, p_once = False\<rparr>"

definition demo_open :: circuit_breaker where
  "demo_open = demo_breaker\<lparr>cb_state := CircuitOpen, generation := 1, opened_at := 3, window := [True, False],
     next_slot := 1, cb_count := 1, failures := 1, opened_total := 1\<rparr>"

definition demo_half_open :: circuit_breaker where
  "demo_half_open = demo_open\<lparr>cb_state := CircuitHalfOpen, generation := 2, ho_permitted := 1, ho_in_flight := 1\<rparr>"

lemmas demo_defs = demo_cfg_def demo_breaker_def demo_permit_def demo_open_def demo_half_open_def

lemma demo_new: "new_circuit_breaker demo_cfg = demo_breaker"
  by (simp add: new_circuit_breaker_def cb_normalized_def demo_defs Let_def numeral_2_eq_2)

lemma demo_step_open: "cb_complete 0 CircuitClosed False 3 demo_breaker = demo_open"
  by (simp add: cb_complete_closed demo_defs Let_def record_closed_def transition_open_def failure_rate_def float_of_rat_fin)

lemma demo_reach_open: "cb_reachable demo_cfg (demo_open, {#})"
proof -
  have "cb_reachable demo_cfg (demo_breaker, {#})" using cb_reachable.start [of demo_cfg] by (simp only: demo_new)
  moreover have "cb_step (demo_breaker, {#}) (demo_breaker, {#demo_permit 0 CircuitClosed#})"
    by (rule cb_step.granted [where key = "''k''" and now = 1]) (simp_all add: demo_defs cb_allow_def)
  ultimately have "cb_reachable demo_cfg (demo_breaker, {#demo_permit 0 CircuitClosed#})" by (rule cb_reachable.step)
  moreover have "cb_step (demo_breaker, {#demo_permit 0 CircuitClosed#}) (demo_open, {#})"
    using cb_step.completed [of demo_breaker "demo_permit 0 CircuitClosed" "{#demo_permit 0 CircuitClosed#}" False 3] demo_step_open
    by (simp add: demo_breaker_def demo_permit_def)
  ultimately show ?thesis by (rule cb_reachable.step)
qed

lemma demo_reach_half_open: "cb_reachable demo_cfg (demo_half_open, {#demo_permit 2 CircuitHalfOpen#})"
proof -
  have "cb_step (demo_open, {#}) (demo_half_open, {#demo_permit 2 CircuitHalfOpen#})"
    by (rule cb_step.granted [where key = "''k''" and now = 8])
      (simp_all add: demo_defs cb_allow_def transition_half_open_def time_sub_def)
  with demo_reach_open show ?thesis by (rule cb_reachable.step)
qed

text \<open>
  C8: in every state reachable by any interleaving of requests and completions the breaker keeps
  its invariant: a normalised configuration, a ring buffer whose failure counter counts its
  failures, and half-open counters that add up. Permits never come from a later generation, an open
  breaker has no current permit outstanding, and a half-open breaker has at most
  \<open>HalfOpenMaxRequests\<close> probes outstanding, as many as its in-flight counter says.
\<close>

theorem breaker_invariant:
  assumes "cb_reachable cfg (b, P)"
  shows "cb_inv b \<and> permits_ok b P \<and>
     (cb_state b = CircuitHalfOpen \<longrightarrow>
        int (size (current_permits b P)) = ho_in_flight b \<and>
        int (size (current_permits b P)) \<le> half_open_max (cb_cfg b))"
  using cb_reachable_inv [OF assms]
  by (auto simp: permits_ok_def cb_inv_def half_open_ok_def)

theorem breaker_invariant_witness:
  "int (size (current_permits demo_half_open {#demo_permit 2 CircuitHalfOpen#})) = ho_in_flight demo_half_open"
proof -
  have "cb_state demo_half_open = CircuitHalfOpen" by (simp add: demo_defs)
  with breaker_invariant [OF demo_reach_half_open] show ?thesis by blast
qed



text \<open>
  C24: when a closed breaker opens. After the completion of a current permit the breaker is open
  exactly if enough requests are in the window and the failure ratio reaches the threshold, where
  the binary64 test never misses an exact ratio at or above the threshold and errs by less than
  \<open>2\<^sup>-\<^sup>5\<^sup>2\<close> on the other side.
\<close>

theorem breaker_opens_iff:
  assumes "cb_inv b" "cb_state b = CircuitClosed" "window_size (cb_cfg b) \<le> 2 ^ 53"
    and "failure_threshold (cb_cfg b) = Fin t" "rnd t = t"
    and "h = last_n (nat (window_size (cb_cfg b))) (history b @ [\<not> ok])"
    and "q = of_nat (count_list h True) / of_nat (length h)"
  shows "(minimum_requests (cb_cfg b) \<le> int (length h) \<and> t \<le> q \<longrightarrow>
            cb_state (cb_complete (generation b) CircuitClosed ok now b) = CircuitOpen) \<and>
         (cb_state (cb_complete (generation b) CircuitClosed ok now b) = CircuitOpen \<longrightarrow>
            minimum_requests (cb_cfg b) \<le> int (length h) \<and> t \<le> q + 1 / 2 ^ 52)"
proof -
  have st: "cb_state (cb_complete (generation b) CircuitClosed ok now b) =
      (if minimum_requests (cb_cfg b) \<le> int (length h) \<and> t \<le> rnd q then CircuitOpen else CircuitClosed)"
    using complete_closed_state [OF assms(1-4,6)] assms(7) by simp
  have "q \<le> 1"
  proof -
    have "count_list h True \<le> length h" by (rule count_le_length)
    then show ?thesis unfolding assms(7) by (cases "h = []") auto
  qed
  moreover have "0 \<le> q" unfolding assms(7) by simp
  ultimately have "q * (1 / 2 ^ 53) \<le> 1 / 2 ^ 53" by (intro mult_left_le_one_le) auto
  then have up: "rnd q \<le> q + 1 / 2 ^ 52" using fl.rd_upper [OF \<open>0 \<le> q\<close>] by simp
  have low: "t \<le> rnd q" if "t \<le> q" using fl.rd_mono [OF that] assms(5) by simp
  show ?thesis unfolding st using up low by auto
qed

theorem breaker_opens_iff_witness:
  "cb_state (cb_complete 0 CircuitClosed False 3 demo_breaker) = CircuitOpen"
proof -
  have "cb_inv demo_breaker" using cb_inv_new [of demo_cfg] by (simp only: demo_new)
  moreover have "cb_state demo_breaker = CircuitClosed" "window_size (cb_cfg demo_breaker) \<le> 2 ^ 53"
      "failure_threshold (cb_cfg demo_breaker) = Fin (1 / 2)" "rnd (1 / 2) = 1 / 2"
    by (simp_all add: demo_defs)
  ultimately have "minimum_requests (cb_cfg demo_breaker) \<le> int (length [True]) \<and> 1 / 2 \<le> (1 :: rat) \<longrightarrow>
      cb_state (cb_complete (generation demo_breaker) CircuitClosed False 3 demo_breaker) = CircuitOpen"
    using breaker_opens_iff [of demo_breaker "1 / 2" "[True]" False 1 3]
    by (simp add: demo_defs history_def last_n_def)
  then show ?thesis by (simp add: demo_defs)
qed

text \<open>
  An open breaker stays open for its whole cooldown. Whatever calls arrive, in whatever order,
  as long as each \<open>Allow\<close> comes before the cooldown is over: every \<open>Allow\<close> is answered with
  \<open>ErrCircuitOpen\<close>, and nothing but the rejection counter changes, by the number of \<open>Allow\<close> calls.
\<close>

theorem open_rejects_until_cooldown:
  assumes "cb_state b = CircuitOpen" "\<forall>t. AllowAt t \<in> set es \<longrightarrow> time_sub t (opened_at b) < cooldown (cb_cfg b)"
    and "n = length (filter (\<lambda>e. case e of AllowAt _ \<Rightarrow> True | CompleteAt _ _ _ \<Rightarrow> False) es)"
  shows "cb_run key es b = (replicate n (Inl ErrCircuitOpen), b\<lparr>rejected_total := rejected_total b + of_nat n\<rparr>)"
proof -
  have "case_cb_event (\<lambda>_. True) (\<lambda>_ _ _. False) = (\<lambda>e. case e of AllowAt _ \<Rightarrow> True | _ \<Rightarrow> False)" by simp
  then show ?thesis using cb_run_open [of b es key] assms by auto
qed

theorem open_rejects_until_cooldown_witness:
  "fst (cb_run ''k'' [AllowAt 4, CompleteAt (demo_permit 1 CircuitHalfOpen) True 5, AllowAt 7] demo_open) =
     [Inl ErrCircuitOpen, Inl ErrCircuitOpen]"
proof -
  let ?es = "[AllowAt 4, CompleteAt (demo_permit 1 CircuitHalfOpen) True 5, AllowAt 7]"
  have "cb_run ''k'' ?es demo_open =
      (replicate 2 (Inl ErrCircuitOpen), demo_open\<lparr>rejected_total := rejected_total demo_open + of_nat 2\<rparr>)"
    by (rule open_rejects_until_cooldown) (auto simp: demo_defs time_sub_def)
  then show ?thesis by (simp add: numeral_2_eq_2)
qed

text \<open>
  The only state changes of a step are closed to open, open to half-open, half-open to open and
  half-open to closed, and the generation is incremented exactly at these changes, so every permit
  granted before a change is stale after it.
\<close>

theorem legal_transitions:
  assumes "cb_reachable cfg (b, P)" "cb_step (b, P) (b', P')"
  shows "if cb_state b' = cb_state b then generation b' = generation b
     else generation b' = generation b + 1 \<and> current_permits b' P' \<subseteq># P' - P \<and>
       (cb_state b, cb_state b') \<in>
         {(CircuitClosed, CircuitOpen), (CircuitOpen, CircuitHalfOpen), (CircuitHalfOpen, CircuitOpen),
          (CircuitHalfOpen, CircuitClosed)}"
proof -
  have ok: "permits_ok b P" using cb_reachable_inv [OF assms(1)] by simp
  have shape: "generation b' = generation b \<and> cb_state b' = cb_state b \<or>
     generation b' = generation b + 1 \<and>
       (cb_state b, cb_state b') \<in>
         {(CircuitClosed, CircuitOpen), (CircuitOpen, CircuitHalfOpen), (CircuitHalfOpen, CircuitOpen),
          (CircuitHalfOpen, CircuitClosed)}"
    by (rule cb_step_shape [OF assms(2)])
  have "current_permits b' P' \<subseteq># P' - P" if "generation b' = generation b + 1"
  proof -
    have gen: "generation b \<noteq> - 1" using assms(2) by (cases rule: cb_step.cases) auto
    have old: "p_generation p \<noteq> generation b'" if "p \<in># P" for p
      using permits_after_transition(2) [OF ok gen \<open>generation b' = _\<close> subset_mset.order_refl] that by auto
    have none: "current_permits b' Q = {#}" if "Q \<subseteq># P" for Q
      using old that by (auto simp: current_permits_def dest: mset_subset_eqD)
    from assms(2) show ?thesis
    proof cases
      case (granted key now p)
      have "current_permits b' (add_mset p P) \<subseteq># add_mset p (current_permits b' P)"
        by (simp add: current_permits_def)
      then show ?thesis using granted none [of P] by simp
    next
      case (rejected key now e)
      then show ?thesis using none [of P] by simp
    next
      case (completed p ok now)
      then show ?thesis using none [of P'] by simp
    qed
  qed
  then show ?thesis using shape by auto
qed

theorem legal_transitions_witness:
  "generation demo_half_open = generation demo_open + 1 \<and>
   current_permits demo_half_open {#demo_permit 2 CircuitHalfOpen#} \<subseteq># {#demo_permit 2 CircuitHalfOpen#}"
proof -
  have "cb_step (demo_open, {#}) (demo_half_open, {#demo_permit 2 CircuitHalfOpen#})"
    by (rule cb_step.granted [where key = "''k''" and now = 8])
      (simp_all add: demo_defs cb_allow_def transition_half_open_def time_sub_def)
  moreover have "cb_state demo_half_open \<noteq> cb_state demo_open" by (simp add: demo_defs)
  ultimately show ?thesis using legal_transitions [OF demo_reach_open] by fastforce
qed

text \<open>
  C26: a half-open breaker is never stuck. In every reachable half-open state in which \<open>Allow\<close>
  rejects, some probe of the current generation is still outstanding, and whichever way it
  completes it counts: a failure reopens the breaker, a success adds to the successes or closes it.
\<close>

theorem half_open_not_stuck:
  assumes "cb_reachable cfg (b, P)" "cb_state b = CircuitHalfOpen" "cb_allow key now b = (Inl e, b')"
  shows "\<exists>p. p \<in># current_permits b P \<and>
     cb_state (cb_complete (p_generation p) (p_state p) False t b) = CircuitOpen \<and>
     (let c = cb_complete (p_generation p) (p_state p) True t b
      in cb_state c = CircuitClosed \<or> cb_state c = CircuitHalfOpen \<and> ho_successes c = ho_successes b + 1)"
proof -
  have inv: "cb_inv b" "permits_ok b P" using cb_reachable_inv [OF assms(1)] by auto
  from assms(3,2) have "half_open_max (cb_cfg b) \<le> ho_permitted b"
    by (cases rule: cb_allow_cases) auto
  then have fl: "0 < ho_in_flight b" using half_open_full_in_flight inv assms(2) by blast
  then have "current_permits b P \<noteq> {#}" using inv(2) assms(2) by (auto simp: permits_ok_def)
  then obtain p where p: "p \<in># current_permits b P" by blast
  then have "p_generation p = generation b" "p_state p = CircuitHalfOpen"
    using inv(2) assms(2) by (auto simp: current_permits_def permits_ok_def)
  then show ?thesis using p fl assms(2)
    by (intro exI [of _ p]) (simp add: cb_complete_half_open Let_def)
qed

theorem half_open_not_stuck_witness:
  "\<exists>p. p \<in># current_permits demo_half_open {#demo_permit 2 CircuitHalfOpen#} \<and>
     cb_state (cb_complete (p_generation p) (p_state p) False 10 demo_half_open) = CircuitOpen"
proof -
  have "cb_state demo_half_open = CircuitHalfOpen"
      "cb_allow ''k'' 9 demo_half_open = (Inl ErrCircuitOpen, demo_half_open\<lparr>rejected_total := 1\<rparr>)"
    by (simp_all add: demo_defs cb_allow_def)
  from half_open_not_stuck [OF demo_reach_half_open this] show ?thesis by blast
qed

text \<open>
  C25: recovery. Once the cooldown of an open breaker has passed, \<open>HalfOpenMaxRequests\<close> requests that
  succeed are all admitted and close the breaker, with an empty window, two generations later.
\<close>

theorem breaker_recovers:
  assumes "cb_inv b" "cb_state b = CircuitOpen" "cooldown (cb_cfg b) \<le> time_sub now (opened_at b)"
    and "b' = (probe_ok key now ^^ nat (half_open_max (cb_cfg b))) b"
  shows "cb_state b' = CircuitClosed \<and> generation b' = generation b + 2 \<and> history b' = [] \<and> failures b' = 0 \<and> cb_inv b'"
proof -
  have cfg: "1 \<le> half_open_max (cb_cfg b)" using assms(1) by (simp add: cb_inv_def cfg_ok_def)
  then obtain n where n: "nat (half_open_max (cb_cfg b)) = Suc n"
    by (metis One_nat_def Suc_le_D nat_mono nat_one_as_int)
  let ?h = "transition_half_open b"
  have "probe_ok key now b = probe_ok key now ?h" by (rule probe_ok_reopen [OF assms(2,3)])
  then have "b' = (probe_ok key now ^^ Suc n) ?h"
    using assms(4) n by (simp only: funpow_Suc_right o_apply)
  moreover have "\<exists>x. (probe_ok key now ^^ Suc n) ?h =
      transition_closed (?h\<lparr>ho_permitted := x, ho_in_flight := 0, ho_successes := x\<rparr>)"
    using n cfg by (intro probes_half_open) auto
  ultimately obtain x where eq: "b' = transition_closed (?h\<lparr>ho_permitted := x, ho_in_flight := 0, ho_successes := x\<rparr>)"
    by auto
  have "ring_ok ?h" "0 < length (window b)" using assms(1) by (simp_all add: cb_inv_def) (auto simp: ring_ok_def)
  then have "cb_inv b'" unfolding eq cb_inv_def using assms(1)
    by (auto simp: cb_inv_def intro!: ring_ok_closed)
  moreover have "history b' = []" "failures b' = 0" unfolding eq using \<open>0 < length (window b)\<close>
    by (simp_all add: transition_closed_def history_def)
  ultimately show ?thesis unfolding eq by simp
qed

theorem breaker_recovers_witness:
  "cb_state ((probe_ok ''k'' 8 ^^ nat (half_open_max (cb_cfg demo_open))) demo_open) = CircuitClosed"
proof -
  have "cb_inv demo_open" using cb_reachable_inv [OF demo_reach_open] by simp
  moreover have "cb_state demo_open = CircuitOpen" "cooldown (cb_cfg demo_open) \<le> time_sub 8 (opened_at demo_open)"
    by (simp_all add: demo_defs time_sub_def)
  ultimately show ?thesis using breaker_recovers [OF _ _ _ refl] by blast
qed

text \<open>
  The set of breakers behaves as one independent breaker per key. \<open>Allow\<close> on a key acts on the
  breaker of that key only, which is created closed at its first use; \<open>Done\<close> acts on the permit's
  breaker only, and only the first time; \<open>Snapshot\<close> changes no breaker.
\<close>

theorem breaker_set_isolates:
  assumes "key \<noteq> []" "p_breaker p = Some key" "\<not> p_once p" "gm_get (breakers s) key \<noteq> None"
  shows "(\<exists>s'. set_allow key now (Some s) = (fst (cb_allow key now (abs_set s key)), Some s') \<and>
            abs_set s' = (abs_set s)(key := snd (cb_allow key now (abs_set s key)))) \<and>
         abs_set (snd (permit_done p ok now s)) =
            (abs_set s)(key := cb_complete (p_generation p) (p_state p) ok now (abs_set s key)) \<and>
         permit_done (fst (permit_done p ok now s)) ok2 now2 (snd (permit_done p ok now s)) = permit_done p ok now s \<and>
         abs_set (snd (set_snapshot key s)) = abs_set s \<and> fst (set_snapshot key s) = cb_snapshot (abs_set s key)"
proof (intro conjI)
  obtain b s1 where sb: "set_breaker key s = (b, s1)" by fastforce
  note abs = abs_set_breaker [OF sb]
  obtain r b' where al: "cb_allow key now b = (r, b')" by fastforce
  have "set_allow key now (Some s) = (r, Some (s1\<lparr>breakers := gm_set key b' (breakers s1)\<rparr>))"
    using assms(1) sb al by (simp add: set_allow_def)
  moreover have "abs_set (s1\<lparr>breakers := gm_set key b' (breakers s1)\<rparr>) = (abs_set s)(key := b')"
    using abs by (simp only: abs_set_upd)
  ultimately show "\<exists>s'. set_allow key now (Some s) = (fst (cb_allow key now (abs_set s key)), Some s') \<and>
            abs_set s' = (abs_set s)(key := snd (cb_allow key now (abs_set s key)))"
    using abs al by auto
  show "abs_set (snd (set_snapshot key s)) = abs_set s" "fst (set_snapshot key s) = cb_snapshot (abs_set s key)"
    using abs sb by (simp_all add: set_snapshot_def)
  show "abs_set (snd (permit_done p ok now s)) =
      (abs_set s)(key := cb_complete (p_generation p) (p_state p) ok now (abs_set s key))"
  proof -
    obtain b where b: "gm_get (breakers s) key = Some b" using assms(4) by blast
    then have "abs_set s key = b" by (simp add: abs_set_def)
    with b assms(2,3) show ?thesis by (simp add: permit_done_def abs_set_upd)
  qed
  show "permit_done (fst (permit_done p ok now s)) ok2 now2 (snd (permit_done p ok now s)) = permit_done p ok now s"
    using assms by (simp add: permit_done_def)
qed

theorem breaker_set_isolates_witness:
  "abs_set (snd (permit_done (demo_permit 0 CircuitClosed) False 3 \<lparr>bs_cfg = demo_cfg, breakers = [(''k'', demo_breaker)]\<rparr>)) ''k'' =
     demo_open"
proof -
  let ?s = "\<lparr>bs_cfg = demo_cfg, breakers = [(''k'', demo_breaker)]\<rparr>" and ?p = "demo_permit 0 CircuitClosed"
  have "gm_get (breakers ?s) ''k'' \<noteq> None" "abs_set ?s ''k'' = demo_breaker" by (simp_all add: gm_get_def abs_set_def)
  moreover have "p_breaker ?p = Some ''k''" "\<not> p_once ?p" "p_generation ?p = 0" "p_state ?p = CircuitClosed"
    by (simp_all add: demo_permit_def)
  ultimately show ?thesis
    using breaker_set_isolates [of "''k''" ?p ?s 3 False] demo_step_open by simp
qed

end
