(* ===== verification/Connection_Pool.thy ===== *)
theory Connection_Pool
  imports Float64 "HOL-Library.Multiset"
begin

text \<open>
  \<^verbatim>\<open>internal/connectionpool/pool.go\<close>: the pool of connections per target. Entries and target pools are
  shared through pointers, so they live in heaps (lists indexed by address) inside the pool record.
  \<open>Acquire\<close> holds the mutex twice, before and after its dial: \<open>acquire_enter\<close> and \<open>acquire_dialed\<close> are
  the two critical sections, and a world records what is outside the mutex (the dials in flight, the
  callers blocked in \<open>cond.Wait\<close>, the release functions handed out, the connections opened and
  closed). Every interleaving of callers, the reaper and \<open>Close\<close> is a sequence of events on it.

  A value of the interface type \<open>Conn\<close> is nil, a non-nil interface holding a nil pointer, or a
  connection. The iteration order of a Go map is an argument.
\<close>

section \<open>Data\<close>

datatype conn = NilConn | NilPtr | ConnPtr nat

record pool_config =
  max_conns :: int
  max_idle :: int
  reap_interval :: int

record pool_stats =
  st_active :: int
  st_idle :: int
  st_created :: int
  st_targets :: nat

record pool_entry =
  pe_conn :: conn
  pe_active :: nat
  pe_last :: int
  pe_closing :: bool

record target_pool =
  tp_entries :: "nat list"
  tp_creating :: nat

record conn_pool =
  p_cfg :: pool_config
  p_targets :: "(string, nat) gomap"
  p_created :: int
  p_closed :: bool
  p_heap :: "pool_entry list"
  p_tps :: "target_pool list"

datatype 'e pool_error = ErrNilDialer | ErrEmptyTarget | ErrPoolClosed | OtherErr 'e

section \<open>Operations\<close>

definition min_duration :: "int \<Rightarrow> int \<Rightarrow> int" where
  "min_duration a b = (if a < b then a else b)"

definition pool_normalized :: "pool_config \<Rightarrow> pool_config" where
  "pool_normalized c =
     (let c = (if max_conns c \<le> 0 then c\<lparr>max_conns := 1\<rparr> else c);
          c = (if max_idle c \<le> 0 then c\<lparr>max_idle := 30 * second\<rparr> else c);
          c = (if reap_interval c \<le> 0 then c\<lparr>reap_interval := min_duration (go_div (max_idle c) 2) (5 * second)\<rparr> else c)
      in if reap_interval c \<le> 0 then c\<lparr>reap_interval := second\<rparr> else c)"

definition new_pool :: "pool_config \<Rightarrow> bool \<Rightarrow> 'e pool_error + conn_pool" where
  "new_pool cfg nil_dialer =
     (if nil_dialer then Inl ErrNilDialer
      else Inr \<lparr>p_cfg = pool_normalized cfg, p_targets = [], p_created = 0, p_closed = False,
                p_heap = [], p_tps = []\<rparr>)"

fun least_active_loop :: "pool_entry list \<Rightarrow> bool \<Rightarrow> nat list \<Rightarrow> nat option \<Rightarrow> nat option" where
  "least_active_loop h idle_only [] best = best"
| "least_active_loop h idle_only (e # es) best =
     (if pe_closing (h ! e) then least_active_loop h idle_only es best
      else if idle_only \<and> pe_active (h ! e) \<noteq> 0 then least_active_loop h idle_only es best
      else if (case best of None \<Rightarrow> True | Some b \<Rightarrow> pe_active (h ! e) < pe_active (h ! b))
           then least_active_loop h idle_only es (Some e)
      else least_active_loop h idle_only es best)"

definition least_active :: "pool_entry list \<Rightarrow> nat list \<Rightarrow> bool \<Rightarrow> nat option" where
  "least_active h es idle_only = least_active_loop h idle_only es None"

definition ensure_target :: "string \<Rightarrow> conn_pool \<Rightarrow> nat \<times> conn_pool" where
  "ensure_target target p =
     (case gm_get (p_targets p) target of
        Some a \<Rightarrow> (a, p)
      | None \<Rightarrow> (let a = length (p_tps p)
                in (a, p\<lparr>p_tps := p_tps p @ [\<lparr>tp_entries = [], tp_creating = 0\<rparr>],
                         p_targets := gm_set target a (p_targets p)\<rparr>)))"

definition entry_use :: "nat \<Rightarrow> conn_pool \<Rightarrow> conn_pool" where
  "entry_use e p = p\<lparr>p_heap := (p_heap p)[e := (p_heap p ! e)\<lparr>pe_active := pe_active (p_heap p ! e) + 1\<rparr>]\<rparr>"

text \<open>The first critical section of \<open>Acquire\<close>; \<open>cerr\<close> is the value of \<open>ctx.Err()\<close>.\<close>

datatype 'e enter_result = EnterFail "'e pool_error" | EnterGot nat | EnterDial nat | EnterWait

definition acquire_enter :: "string \<Rightarrow> 'e option \<Rightarrow> conn_pool \<Rightarrow> 'e enter_result \<times> conn_pool" where
  "acquire_enter target cerr p =
     (if target = [] then (EnterFail ErrEmptyTarget, p)
      else if p_closed p then (EnterFail ErrPoolClosed, p)
      else
        (let (a, p) = ensure_target target p; tp = p_tps p ! a
         in case least_active (p_heap p) (tp_entries tp) True of
              Some e \<Rightarrow> (EnterGot e, entry_use e p)
            | None \<Rightarrow>
                (if int (length (tp_entries tp) + tp_creating tp) < max_conns (p_cfg p)
                 then (EnterDial a, p\<lparr>p_tps := (p_tps p)[a := tp\<lparr>tp_creating := tp_creating tp + 1\<rparr>]\<rparr>)
                 else case least_active (p_heap p) (tp_entries tp) False of
                        Some e \<Rightarrow> (EnterGot e, entry_use e p)
                      | None \<Rightarrow> (case cerr of Some er \<Rightarrow> (EnterFail (OtherErr er), p) | None \<Rightarrow> (EnterWait, p)))))"

text \<open>
  The second critical section, after the dial of target pool \<open>a\<close> returned \<open>conn\<close> and \<open>err\<close>: the result,
  the connections closed and the new pool. Every branch wakes the waiters.
\<close>

definition acquire_dialed ::
  "string \<Rightarrow> nat \<Rightarrow> conn \<Rightarrow> 'e option \<Rightarrow> int \<Rightarrow> conn_pool \<Rightarrow> ('e pool_error + nat) \<times> conn list \<times> conn_pool" where
  "acquire_dialed target a cn err now p =
     (let (b, p) = (case gm_get (p_targets p) target of
                      Some b \<Rightarrow> (b, p)
                    | None \<Rightarrow> (a, p\<lparr>p_targets := gm_set target a (p_targets p)\<rparr>));
          tp = p_tps p ! b;
          tp = (if 0 < tp_creating tp then tp\<lparr>tp_creating := tp_creating tp - 1\<rparr> else tp);
          p = p\<lparr>p_tps := (p_tps p)[b := tp]\<rparr>
      in if p_closed p then (Inl ErrPoolClosed, if cn \<noteq> NilConn then [cn] else [], p)
         else case err of
                Some er \<Rightarrow> (Inl (OtherErr er), [], p)
              | None \<Rightarrow>
                  (let e = length (p_heap p)
                   in (Inr e, [], p\<lparr>p_heap := p_heap p @ [\<lparr>pe_conn = cn, pe_active = 1, pe_last = now, pe_closing = False\<rparr>],
                                    p_tps := (p_tps p)[b := tp\<lparr>tp_entries := tp_entries tp @ [e]\<rparr>],
                                    p_created := wrap64 (p_created p + 1)\<rparr>)))"

text \<open>The body that \<open>releaseFunc\<close> runs once.\<close>

definition release_entry :: "nat \<Rightarrow> int \<Rightarrow> conn_pool \<Rightarrow> conn_pool" where
  "release_entry e now p =
     (let en = p_heap p ! e;
          en = (if 0 < pe_active en then en\<lparr>pe_active := pe_active en - 1\<rparr> else en);
          en = (if pe_active en = 0 then en\<lparr>pe_last := now\<rparr> else en)
      in p\<lparr>p_heap := (p_heap p)[e := en]\<rparr>)"

text \<open>\<open>Stats\<close>: one pass over the targets and their entries.\<close>

definition stats_entry :: "pool_entry list \<Rightarrow> nat \<Rightarrow> pool_stats \<Rightarrow> pool_stats" where
  "stats_entry h e s =
     (if pe_closing (h ! e) then s
      else if 0 < pe_active (h ! e) then s\<lparr>st_active := st_active s + 1\<rparr>
      else s\<lparr>st_idle := st_idle s + 1\<rparr>)"

definition pool_stats_of :: "conn_pool \<Rightarrow> pool_stats" where
  "pool_stats_of p =
     fold (\<lambda>(_, a). fold (stats_entry (p_heap p)) (tp_entries (p_tps p ! a))) (p_targets p)
       \<lparr>st_active = 0, st_idle = 0, st_created = p_created p, st_targets = length (p_targets p)\<rparr>"

text \<open>
  \<open>ReapIdle\<close>. The inner loop compacts the slice of a target in place: \<open>kept\<close> shares the backing array
  of the slice it ranges over, so the loop reads slot \<open>i\<close> of the array whose first \<open>k\<close> slots it has
  overwritten.
\<close>

definition entry_expired :: "int \<Rightarrow> int \<Rightarrow> pool_entry \<Rightarrow> bool" where
  "entry_expired now idle en \<longleftrightarrow> pe_active en = 0 \<and> \<not> pe_closing en \<and> idle \<le> time_sub now (pe_last en)"

definition entry_close :: "nat \<Rightarrow> pool_entry list \<Rightarrow> pool_entry list" where
  "entry_close e h = h[e := (h ! e)\<lparr>pe_closing := True\<rparr>]"

function reap_loop ::
  "int \<Rightarrow> int \<Rightarrow> pool_entry list \<Rightarrow> nat list \<Rightarrow> nat \<Rightarrow> nat \<Rightarrow> conn list \<Rightarrow> pool_entry list \<times> nat list \<times> conn list" where
  "reap_loop now idle h arr i k closing =
     (if i < length arr then
        (let e = arr ! i
         in if entry_expired now idle (h ! e)
            then reap_loop now idle (entry_close e h) arr (i + 1) k (closing @ [pe_conn (h ! e)])
            else reap_loop now idle h (arr[k := e]) (i + 1) (k + 1) closing)
      else (h, take k arr, closing))"
  by pat_completeness auto
termination by (relation "measure (\<lambda>(now, idle, h, arr, i, k, closing). length arr - i)") auto

declare reap_loop.simps [simp del]

definition reap_target :: "int \<Rightarrow> string \<Rightarrow> conn list \<times> conn_pool \<Rightarrow> conn list \<times> conn_pool" where
  "reap_target now target s =
     (let (closing, p) = s
      in case gm_get (p_targets p) target of
           None \<Rightarrow> (closing, p)
         | Some a \<Rightarrow>
             (let tp = p_tps p ! a;
                  (h, kept, closing) = reap_loop now (max_idle (p_cfg p)) (p_heap p) (tp_entries tp) 0 0 closing;
                  p = p\<lparr>p_heap := h, p_tps := (p_tps p)[a := tp\<lparr>tp_entries := kept\<rparr>]\<rparr>
              in (closing, if kept = [] \<and> tp_creating tp = 0
                           then p\<lparr>p_targets := gm_del target (p_targets p)\<rparr> else p)))"

definition reap_idle :: "int \<Rightarrow> string list \<Rightarrow> conn_pool \<Rightarrow> nat \<times> conn list \<times> conn_pool" where
  "reap_idle now order p = (let (closing, p) = fold (reap_target now) order ([], p) in (length closing, closing, p))"

text \<open>
  \<open>Close\<close>, up to the wait for the reaper: the connections to close and the pool. The connections are
  then closed in turn and the first error is returned.
\<close>

fun close_entries :: "nat list \<Rightarrow> pool_entry list \<times> conn list \<Rightarrow> pool_entry list \<times> conn list" where
  "close_entries [] s = s"
| "close_entries (e # es) (h, conns) =
     close_entries es (if pe_closing (h ! e) then (h, conns) else (entry_close e h, conns @ [pe_conn (h ! e)]))"

definition close_target :: "conn_pool \<Rightarrow> string \<Rightarrow> pool_entry list \<times> conn list \<Rightarrow> pool_entry list \<times> conn list" where
  "close_target p target s =
     (case gm_get (p_targets p) target of None \<Rightarrow> s | Some a \<Rightarrow> close_entries (tp_entries (p_tps p ! a)) s)"

definition close_pool :: "string list \<Rightarrow> conn_pool \<Rightarrow> conn list \<times> conn_pool" where
  "close_pool order p =
     (if p_closed p then ([], p)
      else (let (h, conns) = fold (close_target p) order (p_heap p, [])
            in (conns, p\<lparr>p_closed := True, p_heap := h, p_targets := []\<rparr>)))"

fun close_all :: "(conn \<Rightarrow> 'e option) \<Rightarrow> conn list \<Rightarrow> 'e option \<Rightarrow> 'e option" where
  "close_all close [] first = first"
| "close_all close (c # cs) first =
     close_all close cs (case close c of Some er \<Rightarrow> (if first = None then Some er else first) | None \<Rightarrow> first)"

text \<open>
  The reaper goroutine over what its select receives: whether it has returned (closing \<open>done\<close>), the
  connections it closed and the pool.
\<close>

datatype reaper_event = Tick int "string list" | Stop

fun reaper :: "reaper_event list \<Rightarrow> conn_pool \<Rightarrow> bool \<times> conn list \<times> conn_pool" where
  "reaper [] p = (False, [], p)"
| "reaper (Stop # evs) p = (True, [], p)"
| "reaper (Tick now order # evs) p =
     (let (_, cs, p) = reap_idle now order p; (fin, cs', p) = reaper evs p in (fin, cs @ cs', p))"

section \<open>Interleavings\<close>

text \<open>
  A release function is the address of its entry and the state of its \<open>sync.Once\<close>. A dial that succeeds
  returns a connection that no dial returned before; one that fails returns no connection.
\<close>

record pool_world =
  pw_pool :: conn_pool
  pw_handles :: "(nat \<times> bool) list"
  pw_dials :: "(string \<times> nat) multiset"
  pw_waiting :: "string multiset"
  pw_opened :: "conn multiset"
  pw_shut :: "conn multiset"

datatype 'e pool_event =
    EvAcquire string "'e option"
  | EvDialed string nat conn "'e option" int
  | EvRelease nat int
  | EvReap int "string list"
  | EvClose "string list"

definition map_order :: "string list \<Rightarrow> conn_pool \<Rightarrow> bool" where
  "map_order order p \<longleftrightarrow> distinct order \<and> set order = fst ` set (p_targets p)"

fun event_ok :: "'e pool_event \<Rightarrow> pool_world \<Rightarrow> bool" where
  "event_ok (EvAcquire t cerr) w \<longleftrightarrow> True"
| "event_ok (EvDialed t a cn err now) w \<longleftrightarrow>
     (t, a) \<in># pw_dials w \<and>
     (case err of None \<Rightarrow> cn \<noteq> NilConn \<and> cn \<noteq> NilPtr \<and> cn \<notin># pw_opened w | Some _ \<Rightarrow> cn = NilConn \<or> cn = NilPtr)"
| "event_ok (EvRelease h now) w \<longleftrightarrow> h < length (pw_handles w)"
| "event_ok (EvReap now order) w \<longleftrightarrow> map_order order (pw_pool w)"
| "event_ok (EvClose order) w \<longleftrightarrow> map_order order (pw_pool w)"

fun pool_exec :: "'e pool_event \<Rightarrow> pool_world \<Rightarrow> pool_world" where
  "pool_exec (EvAcquire t cerr) w =
     (let (r, p) = acquire_enter t cerr (pw_pool w); w = w\<lparr>pw_pool := p\<rparr>
      in case r of
           EnterFail _ \<Rightarrow> w
         | EnterGot e \<Rightarrow> w\<lparr>pw_handles := pw_handles w @ [(e, False)]\<rparr>
         | EnterDial a \<Rightarrow> w\<lparr>pw_dials := add_mset (t, a) (pw_dials w)\<rparr>
         | EnterWait \<Rightarrow> w\<lparr>pw_waiting := add_mset t (pw_waiting w)\<rparr>)"
| "pool_exec (EvDialed t a cn err now) w =
     (let (r, closed, p) = acquire_dialed t a cn err now (pw_pool w)
      in w\<lparr>pw_pool := p, pw_dials := pw_dials w - {#(t, a)#}, pw_waiting := {#},
           pw_opened := (if err = None then add_mset cn (pw_opened w) else pw_opened w),
           pw_shut := pw_shut w + mset closed,
           pw_handles := (case r of Inl _ \<Rightarrow> pw_handles w | Inr e \<Rightarrow> pw_handles w @ [(e, False)])\<rparr>)"
| "pool_exec (EvRelease h now) w =
     (let (e, once) = pw_handles w ! h
      in if once then w
         else w\<lparr>pw_pool := release_entry e now (pw_pool w), pw_handles := (pw_handles w)[h := (e, True)]\<rparr>)"
| "pool_exec (EvReap now order) w =
     (let (_, closed, p) = reap_idle now order (pw_pool w)
      in w\<lparr>pw_pool := p, pw_shut := pw_shut w + mset closed\<rparr>)"
| "pool_exec (EvClose order) w =
     (let (closed, p) = close_pool order (pw_pool w)
      in w\<lparr>pw_pool := p, pw_shut := pw_shut w + mset closed,
           pw_waiting := (if p_closed (pw_pool w) then pw_waiting w else {#})\<rparr>)"

definition pool_start :: "conn_pool \<Rightarrow> pool_world" where
  "pool_start p = \<lparr>pw_pool = p, pw_handles = [], pw_dials = {#}, pw_waiting = {#}, pw_opened = {#}, pw_shut = {#}\<rparr>"

inductive pool_reach :: "pool_config \<Rightarrow> pool_world \<Rightarrow> bool" for cfg where
  start: "new_pool cfg False = (Inr p :: string pool_error + conn_pool) \<Longrightarrow> pool_reach cfg (pool_start p)"
| event: "pool_reach cfg w \<Longrightarrow> event_ok (ev :: string pool_event) w \<Longrightarrow> pool_reach cfg (pool_exec ev w)"

section \<open>The invariant\<close>

definition live :: "conn_pool \<Rightarrow> nat set" where
  "live p = {i. \<exists>t a. gm_get (p_targets p) t = Some a \<and> i \<in> set (tp_entries (p_tps p ! a))}"

definition owners :: "conn_pool \<Rightarrow> (string \<times> nat) multiset \<Rightarrow> (string \<times> nat) set" where
  "owners p dials = {(t, a). gm_get (p_targets p) t = Some a} \<union> set_mset dials"

definition outstanding :: "(nat \<times> bool) list \<Rightarrow> nat \<Rightarrow> nat" where
  "outstanding hs i = length (filter (\<lambda>(e, released). e = i \<and> \<not> released) hs)"

definition open_conns :: "pool_entry list \<Rightarrow> conn multiset" where
  "open_conns h = image_mset pe_conn (filter_mset (\<lambda>en. \<not> pe_closing en) (mset h))"

definition targets_inv :: "conn_pool \<Rightarrow> (string \<times> nat) multiset \<Rightarrow> bool" where
  "targets_inv p dials \<longleftrightarrow>
     gm_wf (p_targets p) \<and>
     (\<forall>t a. (t, a) \<in> owners p dials \<longrightarrow> a < length (p_tps p)) \<and>
     (\<forall>t a u b. (t, a) \<in> owners p dials \<longrightarrow> (u, b) \<in> owners p dials \<longrightarrow> (t = u \<longleftrightarrow> a = b)) \<and>
     (\<forall>t a. (t, a) \<in># dials \<longrightarrow> \<not> p_closed p \<longrightarrow> gm_get (p_targets p) t = Some a)"

definition tps_inv :: "conn_pool \<Rightarrow> bool" where
  "tps_inv p \<longleftrightarrow>
     (\<forall>a < length (p_tps p). distinct (tp_entries (p_tps p ! a)) \<and>
        set (tp_entries (p_tps p ! a)) \<subseteq> {..<length (p_heap p)} \<and>
        int (length (tp_entries (p_tps p ! a)) + tp_creating (p_tps p ! a)) \<le> max_conns (p_cfg p)) \<and>
     (\<forall>a < length (p_tps p). \<forall>b < length (p_tps p). a \<noteq> b \<longrightarrow>
        set (tp_entries (p_tps p ! a)) \<inter> set (tp_entries (p_tps p ! b)) = {})"

definition creating_inv :: "conn_pool \<Rightarrow> (string \<times> nat) multiset \<Rightarrow> bool" where
  "creating_inv p dials \<longleftrightarrow>
     (\<forall>a < length (p_tps p). tp_creating (p_tps p ! a) = size (filter_mset (\<lambda>d. snd d = a) dials))"

definition closing_inv :: "conn_pool \<Rightarrow> bool" where
  "closing_inv p \<longleftrightarrow> (\<forall>i < length (p_heap p). pe_closing (p_heap p ! i) \<longleftrightarrow> p_closed p \<or> i \<notin> live p)"

definition active_inv :: "conn_pool \<Rightarrow> (nat \<times> bool) list \<Rightarrow> bool" where
  "active_inv p hs \<longleftrightarrow>
     (\<forall>i < length (p_heap p). pe_active (p_heap p ! i) = outstanding hs i \<and>
        (\<not> p_closed p \<longrightarrow> pe_closing (p_heap p ! i) \<longrightarrow> pe_active (p_heap p ! i) = 0)) \<and>
     (\<forall>(e, _) \<in> set hs. e < length (p_heap p))"

definition conns_inv :: "conn_pool \<Rightarrow> conn multiset \<Rightarrow> conn multiset \<Rightarrow> bool" where
  "conns_inv p opened shut \<longleftrightarrow>
     filter_mset (\<lambda>c. c \<noteq> NilPtr) shut + open_conns (p_heap p) = opened \<and>
     (\<forall>c. count opened c \<le> 1) \<and> NilPtr \<notin># opened \<and> NilConn \<notin># opened"

definition waiting_inv :: "conn_pool \<Rightarrow> string multiset \<Rightarrow> bool" where
  "waiting_inv p waiting \<longleftrightarrow>
     (\<forall>t \<in># waiting. \<not> p_closed p \<and> (\<exists>a. gm_get (p_targets p) t = Some a \<and>
        tp_entries (p_tps p ! a) = [] \<and> int (tp_creating (p_tps p ! a)) = max_conns (p_cfg p)))"

definition world_inv :: "pool_world \<Rightarrow> bool" where
  "world_inv w \<longleftrightarrow>
     1 \<le> max_conns (p_cfg (pw_pool w)) \<and> targets_inv (pw_pool w) (pw_dials w) \<and> tps_inv (pw_pool w) \<and>
     creating_inv (pw_pool w) (pw_dials w) \<and> closing_inv (pw_pool w) \<and> active_inv (pw_pool w) (pw_handles w) \<and>
     conns_inv (pw_pool w) (pw_opened w) (pw_shut w) \<and> waiting_inv (pw_pool w) (pw_waiting w)"

lemmas pool_inv_defs = targets_inv_def tps_inv_def creating_inv_def closing_inv_def active_inv_def conns_inv_def
  waiting_inv_def

section \<open>Selection\<close>

lemma least_active_loop_spec:
  "least_active_loop h idle_only es best = r \<Longrightarrow>
   (case best of None \<Rightarrow> True | Some b \<Rightarrow> \<not> pe_closing (h ! b) \<and> (idle_only \<longrightarrow> pe_active (h ! b) = 0)) \<Longrightarrow>
   (case r of
      None \<Rightarrow> best = None \<and> (\<forall>e \<in> set es. pe_closing (h ! e) \<or> idle_only \<and> pe_active (h ! e) \<noteq> 0)
    | Some b \<Rightarrow> (b \<in> set es \<or> best = Some b) \<and> \<not> pe_closing (h ! b) \<and> (idle_only \<longrightarrow> pe_active (h ! b) = 0) \<and>
        (\<forall>e \<in> set es \<union> set_option best. \<not> pe_closing (h ! e) \<longrightarrow> idle_only \<and> pe_active (h ! e) \<noteq> 0 \<or> pe_active (h ! b) \<le> pe_active (h ! e)))"
proof (induction h idle_only es best rule: least_active_loop.induct)
  case (2 h idle_only e es best)
  consider (skip) "pe_closing (h ! e) \<or> idle_only \<and> pe_active (h ! e) \<noteq> 0"
    | (take) "\<not> (pe_closing (h ! e) \<or> idle_only \<and> pe_active (h ! e) \<noteq> 0)"
        "case best of None \<Rightarrow> True | Some b \<Rightarrow> pe_active (h ! e) < pe_active (h ! b)"
    | (keep) b where "\<not> (pe_closing (h ! e) \<or> idle_only \<and> pe_active (h ! e) \<noteq> 0)"
        "best = Some b" "pe_active (h ! b) \<le> pe_active (h ! e)"
    by (cases best; simp; metis neq0_conv not_less)
  then show ?case
  proof cases
    case skip
    then have "least_active_loop h idle_only es best = r" using "2.prems"(1) by (auto split: if_splits)
    then show ?thesis using skip "2.IH"(1,2) "2.prems"(2) by (cases "pe_closing (h ! e)") (auto split: option.splits)
  next
    case take
    then have "least_active_loop h idle_only es (Some e) = r" using "2.prems"(1) by auto
    then show ?thesis using take "2.IH"(3) by (fastforce split: option.splits)
  next
    case keep
    then have "least_active_loop h idle_only es best = r" using "2.prems"(1) by auto
    then show ?thesis using keep "2.IH"(4) "2.prems"(2) by (fastforce split: option.splits)
  qed
qed (auto split: option.splits)

lemma least_active_None:
  "least_active h es idle_only = None \<longleftrightarrow> (\<forall>e \<in> set es. pe_closing (h ! e) \<or> idle_only \<and> pe_active (h ! e) \<noteq> 0)"
proof
  assume "least_active h es idle_only = None"
  then show "\<forall>e \<in> set es. pe_closing (h ! e) \<or> idle_only \<and> pe_active (h ! e) \<noteq> 0"
    using least_active_loop_spec [of h idle_only es None] by (auto simp: least_active_def)
next
  assume all: "\<forall>e \<in> set es. pe_closing (h ! e) \<or> idle_only \<and> pe_active (h ! e) \<noteq> 0"
  show "least_active h es idle_only = None"
    using least_active_loop_spec [of h idle_only es None] all
    by (cases "least_active_loop h idle_only es None") (auto simp: least_active_def)
qed

lemma least_active_Some:
  "least_active h es idle_only = Some b \<Longrightarrow>
   b \<in> set es \<and> \<not> pe_closing (h ! b) \<and> (idle_only \<longrightarrow> pe_active (h ! b) = 0) \<and>
   (\<forall>e \<in> set es. \<not> pe_closing (h ! e) \<longrightarrow> pe_active (h ! b) \<le> pe_active (h ! e))"
  using least_active_loop_spec [of h idle_only es None "Some b"] by (auto simp: least_active_def)

section \<open>Preservation: acquiring\<close>

lemma world_invD:
  assumes "world_inv w"
  shows "1 \<le> max_conns (p_cfg (pw_pool w))" "targets_inv (pw_pool w) (pw_dials w)" "tps_inv (pw_pool w)"
    "creating_inv (pw_pool w) (pw_dials w)" "closing_inv (pw_pool w)" "active_inv (pw_pool w) (pw_handles w)"
    "conns_inv (pw_pool w) (pw_opened w) (pw_shut w)" "waiting_inv (pw_pool w) (pw_waiting w)"
  using assms by (simp_all add: world_inv_def)

lemma live_append_empty:
  assumes "gm_get (p_targets p) t = None" "\<And>u b. gm_get (p_targets p) u = Some b \<Longrightarrow> b < length (p_tps p)"
  shows "live (p\<lparr>p_tps := p_tps p @ [\<lparr>tp_entries = [], tp_creating = 0\<rparr>],
                 p_targets := gm_set t (length (p_tps p)) (p_targets p)\<rparr>) = live p"
    (is "live ?q = _")
proof (intro set_eqI iffI)
  fix i assume "i \<in> live ?q"
  then obtain u b where "gm_get (p_targets ?q) u = Some b" "i \<in> set (tp_entries (p_tps ?q ! b))"
    by (auto simp: live_def)
  then show "i \<in> live p" using assms(2) [of u b] unfolding live_def by (cases "u = t") (auto simp: nth_append)
next
  fix i assume "i \<in> live p"
  then obtain u b where "gm_get (p_targets p) u = Some b" "i \<in> set (tp_entries (p_tps p ! b))"
    by (auto simp: live_def)
  moreover from this have "u \<noteq> t" "b < length (p_tps p)" using assms by auto
  ultimately show "i \<in> live ?q" unfolding live_def by (auto simp: nth_append intro!: exI [of _ u])
qed

lemma active_inv_cong: "p_heap q = p_heap p \<Longrightarrow> p_closed q = p_closed p \<Longrightarrow> active_inv q hs = active_inv p hs"
  by (simp add: active_inv_def)

lemma conns_inv_cong: "p_heap q = p_heap p \<Longrightarrow> conns_inv q opened shut = conns_inv p opened shut"
  by (simp add: conns_inv_def)

lemma ensure_target_inv:
  assumes inv: "world_inv w" and "ensure_target t (pw_pool w) = (a, p')" "\<not> p_closed (pw_pool w)"
  shows "world_inv (w\<lparr>pw_pool := p'\<rparr>) \<and> gm_get (p_targets p') t = Some a \<and> a < length (p_tps p') \<and>
    p_heap p' = p_heap (pw_pool w) \<and> p_cfg p' = p_cfg (pw_pool w) \<and> \<not> p_closed p' \<and> live p' = live (pw_pool w)"
proof (cases "gm_get (p_targets (pw_pool w)) t")
  case (Some b)
  then show ?thesis using assms by (auto simp: ensure_target_def world_inv_def targets_inv_def owners_def)
next
  case None
  let ?p = "pw_pool w" and ?n = "length (p_tps (pw_pool w))"
  note I = world_invD [OF inv]
  have p': "a = ?n" "p' = ?p\<lparr>p_tps := p_tps ?p @ [\<lparr>tp_entries = [], tp_creating = 0\<rparr>],
                 p_targets := gm_set t ?n (p_targets ?p)\<rparr>"
    using assms(2) None by (auto simp: ensure_target_def Let_def)
  have bound: "b < ?n" if "(u, b) \<in> owners ?p (pw_dials w)" for u b
    using inv that by (simp add: world_inv_def targets_inv_def)
  have tgt: "b < ?n" if "gm_get (p_targets ?p) u = Some b" for u b
    using bound [of u b] that by (simp add: owners_def)
  have live: "live p' = live ?p" unfolding p'(2) by (rule live_append_empty [OF None tgt])
  have own: "owners p' (pw_dials w) = insert (t, ?n) (owners ?p (pw_dials w))"
    using None by (auto simp: owners_def p'(2) split: if_splits)
  have nt: "(t, b) \<notin> owners ?p (pw_dials w)" for b
    using inv None assms(3) by (auto simp: world_inv_def targets_inv_def owners_def)
  have bij: "(x = u) = (b = c)" if "(x, b) \<in> owners p' (pw_dials w)" "(u, c) \<in> owners p' (pw_dials w)" for x b u c
    using that I(2) bound nt unfolding own targets_inv_def by (metis insert_iff less_irrefl prod.inject)
  have "targets_inv p' (pw_dials w)"
    unfolding targets_inv_def
  proof (intro conjI allI impI)
    show "b < length (p_tps p')" if "(u, b) \<in> owners p' (pw_dials w)" for u b
      using that bound [of u b] unfolding own by (auto simp: p'(2))
    show "gm_get (p_targets p') u = Some b" if "(u, b) \<in># pw_dials w" for u b
      using that I(2) None assms(3) by (auto simp: targets_inv_def p'(2))
  qed (use I(2) bij in \<open>auto simp: p'(2) targets_inv_def\<close>)
  moreover have "tps_inv p'"
    using I(1,3) by (auto simp: tps_inv_def p'(2) nth_append less_Suc_eq)
  moreover have "filter_mset (\<lambda>d. snd d = ?n) (pw_dials w) = {#}"
    using bound by (fastforce simp: owners_def filter_mset_eq_mempty_iff)
  then have "creating_inv p' (pw_dials w)"
    using I(4) by (auto simp: creating_inv_def p'(2) nth_append less_Suc_eq)
  moreover have "closing_inv p'" using I(5) live by (simp add: closing_inv_def p'(2))
  moreover have "active_inv p' (pw_handles w)" "conns_inv p' (pw_opened w) (pw_shut w)"
    using I(6,7) active_inv_cong [of p' ?p] conns_inv_cong [of p' ?p] by (simp_all add: p'(2))
  moreover have "waiting_inv p' (pw_waiting w)"
    using I(8) tgt None by (fastforce simp: waiting_inv_def p'(2) nth_append)
  moreover have "p_heap p' = p_heap ?p" "p_cfg p' = p_cfg ?p" "\<not> p_closed p'" "gm_get (p_targets p') t = Some a" "a < length (p_tps p')"
    using assms(3) p' by simp_all
  ultimately show ?thesis using inv live by (simp add: world_inv_def)
qed

lemma outstanding_snoc: "outstanding (hs @ [(e, False)]) i = outstanding hs i + (if e = i then 1 else 0)"
  by (simp add: outstanding_def)

lemma open_conns_update:
  assumes "i < length h" "pe_conn en = pe_conn (h ! i)" "pe_closing en = pe_closing (h ! i)"
  shows "open_conns (h[i := en]) = open_conns h"
proof -
  have "mset h = add_mset (h ! i) (mset h - {#h ! i#})" using assms(1) by simp
  moreover have "mset (h[i := en]) = add_mset en (mset h - {#h ! i#})" using assms(1) by (simp add: mset_update)
  ultimately show ?thesis using assms(2,3) unfolding open_conns_def
    by (metis (no_types, lifting) filter_mset_add_mset image_mset_add_mset)
qed

lemma entry_use_inv:
  assumes inv: "world_inv w" and e: "e < length (p_heap (pw_pool w))" "\<not> pe_closing (p_heap (pw_pool w) ! e)"
  shows "world_inv (w\<lparr>pw_pool := entry_use e (pw_pool w), pw_handles := pw_handles w @ [(e, False)]\<rparr>)"
proof -
  let ?p = "pw_pool w" and ?q = "entry_use e (pw_pool w)"
  note I = world_invD [OF inv]
  have live: "live ?q = live ?p" "owners ?q = owners ?p" by (auto simp: live_def owners_def entry_use_def fun_eq_iff)
  have "targets_inv ?q (pw_dials w)"
    using I(2) unfolding targets_inv_def live(2) by (simp add: entry_use_def)
  moreover have "tps_inv ?q" "creating_inv ?q (pw_dials w)" "waiting_inv ?q (pw_waiting w)"
    using I(3,4,8) by (simp_all add: tps_inv_def creating_inv_def waiting_inv_def entry_use_def)
  moreover have "closing_inv ?q"
    using I(5) live(1) e by (auto simp: closing_inv_def entry_use_def nth_list_update)
  moreover have "active_inv ?q (pw_handles w @ [(e, False)])"
    using I(6) e by (auto simp: active_inv_def entry_use_def outstanding_snoc nth_list_update)
  moreover have "conns_inv ?q (pw_opened w) (pw_shut w)"
    using I(7) e by (simp add: conns_inv_def entry_use_def open_conns_update)
  ultimately show ?thesis using inv by (simp add: world_inv_def entry_use_def)
qed

lemma creating_inc_inv:
  assumes inv: "world_inv w" and a: "gm_get (p_targets (pw_pool w)) t = Some a" "a < length (p_tps (pw_pool w))"
    and room: "int (length (tp_entries (p_tps (pw_pool w) ! a)) + tp_creating (p_tps (pw_pool w) ! a)) < max_conns (p_cfg (pw_pool w))"
    and nclosed: "\<not> p_closed (pw_pool w)"
  shows "world_inv (w\<lparr>pw_pool := (pw_pool w)\<lparr>p_tps := (p_tps (pw_pool w))[a := (p_tps (pw_pool w) ! a)\<lparr>tp_creating := tp_creating (p_tps (pw_pool w) ! a) + 1\<rparr>]\<rparr>,
                      pw_dials := add_mset (t, a) (pw_dials w)\<rparr>)"
    (is "world_inv (w\<lparr>pw_pool := ?q, pw_dials := _\<rparr>)")
proof -
  let ?p = "pw_pool w"
  note I = world_invD [OF inv]
  have ent: "tp_entries (p_tps ?q ! b) = tp_entries (p_tps ?p ! b)" for b
    using a by (cases "b = a") auto
  have live: "live ?q = live ?p" using ent by (simp add: live_def)
  have own: "owners ?q (add_mset (t, a) (pw_dials w)) = owners ?p (pw_dials w)" using a by (auto simp: owners_def)
  have "targets_inv ?q (add_mset (t, a) (pw_dials w))"
    using I(2) a unfolding targets_inv_def own by auto
  moreover have "tps_inv ?q"
    using I(3) a room unfolding tps_inv_def ent by (auto simp: nth_list_update)
  moreover have "creating_inv ?q (add_mset (t, a) (pw_dials w))"
    using I(4) a by (auto simp: creating_inv_def nth_list_update)
  moreover have "closing_inv ?q" using I(5) live by (simp add: closing_inv_def)
  moreover have "active_inv ?q (pw_handles w)" "conns_inv ?q (pw_opened w) (pw_shut w)"
    using I(6,7) active_inv_cong [of ?q ?p] conns_inv_cong [of ?q ?p] by simp_all
  moreover have "waiting_inv ?q (pw_waiting w)"
    using I(8) room a(2) unfolding waiting_inv_def ent by (fastforce simp: nth_list_update)
  ultimately show ?thesis using inv by (simp add: world_inv_def)
qed

lemma live_entry:
  assumes "world_inv w" "gm_get (p_targets (pw_pool w)) t = Some a" "e \<in> set (tp_entries (p_tps (pw_pool w) ! a))"
  shows "e < length (p_heap (pw_pool w))" "e \<in> live (pw_pool w)"
    "pe_closing (p_heap (pw_pool w) ! e) \<longleftrightarrow> p_closed (pw_pool w)"
proof -
  note I = world_invD [OF assms(1)]
  have "a < length (p_tps (pw_pool w))" using I(2) assms(2) by (auto simp: targets_inv_def owners_def)
  then show e: "e < length (p_heap (pw_pool w))" using I(3) assms(3) by (auto simp: tps_inv_def)
  show l: "e \<in> live (pw_pool w)" using assms(2,3) by (auto simp: live_def)
  show "pe_closing (p_heap (pw_pool w) ! e) \<longleftrightarrow> p_closed (pw_pool w)" using I(5) e l by (auto simp: closing_inv_def)
qed

text \<open>The outcomes of the first critical section on an open pool.\<close>

lemma acquire_enter_cases:
  assumes "acquire_enter t cerr p = (r, q)" "t \<noteq> []" "\<not> p_closed p" "ensure_target t p = (a, p1)"
  obtains
    (got) e idle where "r = EnterGot e" "q = entry_use e p1" "least_active (p_heap p1) (tp_entries (p_tps p1 ! a)) idle = Some e"
      "\<not> idle \<longrightarrow> least_active (p_heap p1) (tp_entries (p_tps p1 ! a)) True = None \<and>
         max_conns (p_cfg p1) \<le> int (length (tp_entries (p_tps p1 ! a)) + tp_creating (p_tps p1 ! a))"
  | (dial) "r = EnterDial a"
      "q = p1\<lparr>p_tps := (p_tps p1)[a := (p_tps p1 ! a)\<lparr>tp_creating := tp_creating (p_tps p1 ! a) + 1\<rparr>]\<rparr>"
      "least_active (p_heap p1) (tp_entries (p_tps p1 ! a)) True = None"
      "int (length (tp_entries (p_tps p1 ! a)) + tp_creating (p_tps p1 ! a)) < max_conns (p_cfg p1)"
  | (fail) er where "r = EnterFail (OtherErr er)" "cerr = Some er" "q = p1"
  | (wait) "r = EnterWait" "q = p1" "least_active (p_heap p1) (tp_entries (p_tps p1 ! a)) False = None"
      "max_conns (p_cfg p1) \<le> int (length (tp_entries (p_tps p1 ! a)) + tp_creating (p_tps p1 ! a))"
proof -
  let ?tp = "p_tps p1 ! a"
  have eq: "(r, q) =
      (case least_active (p_heap p1) (tp_entries ?tp) True of
         Some e \<Rightarrow> (EnterGot e, entry_use e p1)
       | None \<Rightarrow>
           (if int (length (tp_entries ?tp) + tp_creating ?tp) < max_conns (p_cfg p1)
            then (EnterDial a, p1\<lparr>p_tps := (p_tps p1)[a := ?tp\<lparr>tp_creating := tp_creating ?tp + 1\<rparr>]\<rparr>)
            else case least_active (p_heap p1) (tp_entries ?tp) False of
                   Some e \<Rightarrow> (EnterGot e, entry_use e p1)
                 | None \<Rightarrow> (case cerr of Some er \<Rightarrow> (EnterFail (OtherErr er), p1) | None \<Rightarrow> (EnterWait, p1))))"
    using assms by (simp add: acquire_enter_def Let_def)
  show thesis
  proof (cases "least_active (p_heap p1) (tp_entries ?tp) True")
    case (Some e)
    then show thesis using eq got [of e True] by simp
  next
    case None
    show thesis
    proof (cases "int (length (tp_entries ?tp) + tp_creating ?tp) < max_conns (p_cfg p1)")
      case True
      then show thesis using eq None dial by simp
    next
      case False
      then show thesis using eq None got [of _ False] fail wait by (simp split: option.splits)
    qed
  qed
qed

lemma acquire_inv:
  assumes inv: "world_inv w"
  shows "world_inv (pool_exec (EvAcquire t cerr) w)"
proof (cases "t = [] \<or> p_closed (pw_pool w)")
  case True
  then show ?thesis using inv by (auto simp: acquire_enter_def)
next
  case False
  obtain a p1 where en: "ensure_target t (pw_pool w) = (a, p1)" by fastforce
  let ?w = "w\<lparr>pw_pool := p1\<rparr>"
  have w1: "world_inv ?w" and a: "gm_get (p_targets p1) t = Some a" "a < length (p_tps p1)" and cl: "\<not> p_closed p1"
    using ensure_target_inv [OF inv en] False by simp_all
  obtain r q where r: "acquire_enter t cerr (pw_pool w) = (r, q)" by fastforce
  have ent: "e < length (p_heap p1)" "\<not> pe_closing (p_heap p1 ! e)" if "e \<in> set (tp_entries (p_tps p1 ! a))" for e
    using live_entry [OF w1, of t a e] a that cl by simp_all
  have nc: "t \<noteq> []" "\<not> p_closed (pw_pool w)" using False by simp_all
  from r nc en show ?thesis
  proof (cases rule: acquire_enter_cases)
    case (got e idle)
    then have "e \<in> set (tp_entries (p_tps p1 ! a))" using least_active_Some by blast
    then show ?thesis using entry_use_inv [OF w1, of e] ent got r by simp
  next
    case dial
    then show ?thesis using creating_inc_inv [OF w1, of t a] a cl r by simp
  next
    case fail
    then show ?thesis using r w1 by simp
  next
    case wait
    then have "tp_entries (p_tps p1 ! a) = []" using ent by (cases "tp_entries (p_tps p1 ! a)") (auto simp: least_active_None)
    moreover from this have "int (tp_creating (p_tps p1 ! a)) = max_conns (p_cfg p1)"
      using world_invD(3) [OF w1] a(2) wait(4) by (fastforce simp: tps_inv_def)
    ultimately have "waiting_inv p1 (add_mset t (pw_waiting w))"
      using world_invD(8) [OF w1] a cl by (auto simp: waiting_inv_def)
    then show ?thesis using w1 wait r by (simp add: world_inv_def)
  qed
qed

section \<open>Preservation: the end of a dial\<close>

lemma size_filter_remove:
  "x \<in># M \<Longrightarrow> size (filter_mset P (M - {#x#})) = size (filter_mset P M) - (if P x then 1 else 0)"
  by (auto simp: size_Diff_singleton dest!: multi_member_split)

lemma filter_member_pos: "x \<in># M \<Longrightarrow> P x \<Longrightarrow> 0 < size (filter_mset P M)"
  by (auto dest!: multi_member_split)

definition dial_settled :: "string \<Rightarrow> nat \<Rightarrow> conn_pool \<Rightarrow> conn_pool" where
  "dial_settled t a p =
     p\<lparr>p_targets := (if gm_get (p_targets p) t = None then gm_set t a (p_targets p) else p_targets p),
       p_tps := (p_tps p)[a := (p_tps p ! a)\<lparr>tp_creating := tp_creating (p_tps p ! a) - 1\<rparr>]\<rparr>"

lemma dial_owner:
  assumes "world_inv w" "(t, a) \<in># pw_dials w"
  shows "a < length (p_tps (pw_pool w))" "0 < tp_creating (p_tps (pw_pool w) ! a)"
    "gm_get (p_targets (pw_pool w)) t = Some a \<or> gm_get (p_targets (pw_pool w)) t = None \<and> p_closed (pw_pool w)"
proof -
  note I = world_invD [OF assms(1)]
  have o: "(t, a) \<in> owners (pw_pool w) (pw_dials w)" using assms(2) by (simp add: owners_def)
  then show a: "a < length (p_tps (pw_pool w))" using I(2) by (auto simp: targets_inv_def)
  show "0 < tp_creating (p_tps (pw_pool w) ! a)"
    using I(4) a filter_member_pos [OF assms(2), of "\<lambda>d. snd d = a"] by (simp add: creating_inv_def)
  show "gm_get (p_targets (pw_pool w)) t = Some a \<or> gm_get (p_targets (pw_pool w)) t = None \<and> p_closed (pw_pool w)"
  proof (cases "gm_get (p_targets (pw_pool w)) t")
    case None
    then show ?thesis using I(2) assms(2) unfolding targets_inv_def by (metis option.distinct(1))
  next
    case (Some b)
    then have "(t, b) \<in> owners (pw_pool w) (pw_dials w)" by (simp add: owners_def)
    then show ?thesis using I(2) o Some unfolding targets_inv_def by blast
  qed
qed

lemma dial_settled_inv:
  assumes inv: "world_inv w" and d: "(t, a) \<in># pw_dials w"
  shows "world_inv (w\<lparr>pw_pool := dial_settled t a (pw_pool w), pw_dials := pw_dials w - {#(t, a)#}, pw_waiting := {#}\<rparr>)"
proof -
  let ?p = "pw_pool w" and ?q = "dial_settled t a (pw_pool w)" and ?D = "pw_dials w - {#(t, a)#}"
  note I = world_invD [OF inv] and a = dial_owner [OF inv d]
  have get: "gm_get (p_targets ?q) u = (if u = t then Some a else gm_get (p_targets ?p) u)" for u
    using a(3) by (auto simp: dial_settled_def)
  have ent: "tp_entries (p_tps ?q ! b) = tp_entries (p_tps ?p ! b)" for b
    using a(1) by (cases "b = a") (auto simp: dial_settled_def)
  have same: "length (p_tps ?q) = length (p_tps ?p)" "p_heap ?q = p_heap ?p" "p_closed ?q = p_closed ?p" "p_cfg ?q = p_cfg ?p"
    by (simp_all add: dial_settled_def)
  have own: "owners ?q ?D \<subseteq> owners ?p (pw_dials w)"
    using d by (auto simp: owners_def get split: if_splits dest: in_diffD)
  have "targets_inv ?q ?D"
    unfolding targets_inv_def
  proof (intro conjI allI impI)
    show "gm_wf (p_targets ?q)" using I(2) by (simp add: targets_inv_def dial_settled_def)
    show "b < length (p_tps ?q)" if "(u, b) \<in> owners ?q ?D" for u b
      using I(2) own that same(1) unfolding targets_inv_def by auto
    show "(u = v) = (b = c)" if "(u, b) \<in> owners ?q ?D" "(v, c) \<in> owners ?q ?D" for u b v c
      using I(2) own that unfolding targets_inv_def by blast
    show "gm_get (p_targets ?q) u = Some b" if "(u, b) \<in># ?D" "\<not> p_closed ?q" for u b
      using I(2) that a(3) unfolding targets_inv_def get same(3) by (auto dest: in_diffD)
  qed
  moreover have "tps_inv ?q"
    using I(3) a(1) unfolding tps_inv_def ent same by (auto simp: dial_settled_def nth_list_update)
  moreover have "creating_inv ?q ?D"
    using I(4) a(1) size_filter_remove [OF d] unfolding creating_inv_def by (auto simp: dial_settled_def nth_list_update simp del: filter_diff_mset)
  moreover have "live ?q = live ?p \<or> p_closed ?p"
  proof (cases "p_closed ?p")
    case False
    then have "gm_get (p_targets ?q) = gm_get (p_targets ?p)" using a(3) by (auto simp: get fun_eq_iff)
    then show ?thesis by (simp add: live_def ent)
  qed simp
  then have "closing_inv ?q" using I(5) by (auto simp: closing_inv_def same)
  moreover have "active_inv ?q (pw_handles w)" "conns_inv ?q (pw_opened w) (pw_shut w)"
    using I(6,7) active_inv_cong [of ?q ?p] conns_inv_cong [of ?q ?p] same by simp_all
  ultimately show ?thesis using I(1) same by (simp add: world_inv_def waiting_inv_def)
qed

lemma late_conn_inv:
  assumes "conns_inv p opened shut" "c \<noteq> NilConn" "c \<noteq> NilPtr" "c \<notin># opened"
  shows "conns_inv p (add_mset c opened) (add_mset c shut)"
  using assms by (auto simp: conns_inv_def not_in_iff)

definition add_entry :: "nat \<Rightarrow> conn \<Rightarrow> int \<Rightarrow> conn_pool \<Rightarrow> conn_pool" where
  "add_entry a c now p =
     p\<lparr>p_heap := p_heap p @ [\<lparr>pe_conn = c, pe_active = 1, pe_last = now, pe_closing = False\<rparr>],
       p_tps := (p_tps p)[a := (p_tps p ! a)\<lparr>tp_entries := tp_entries (p_tps p ! a) @ [length (p_heap p)]\<rparr>],
       p_created := wrap64 (p_created p + 1)\<rparr>"

lemma acquire_dialed_eq:
  assumes "world_inv w" "(t, a) \<in># pw_dials w"
  shows "acquire_dialed t a cn err now (pw_pool w) =
    (if p_closed (pw_pool w) then (Inl ErrPoolClosed, if cn \<noteq> NilConn then [cn] else [], dial_settled t a (pw_pool w))
     else case err of Some er \<Rightarrow> (Inl (OtherErr er), [], dial_settled t a (pw_pool w))
          | None \<Rightarrow> (Inr (length (p_heap (pw_pool w))), [], add_entry a cn now (dial_settled t a (pw_pool w))))"
  using dial_owner [OF assms] by (auto simp: acquire_dialed_def dial_settled_def add_entry_def Let_def split: option.split)

lemma outstanding_fresh: "active_inv p hs \<Longrightarrow> outstanding hs (length (p_heap p)) = 0"
  by (auto simp: active_inv_def outstanding_def filter_empty_conv)

lemma add_entry_inv:
  assumes inv: "world_inv w" and a: "gm_get (p_targets (pw_pool w)) t = Some a" "a < length (p_tps (pw_pool w))"
    and room: "int (length (tp_entries (p_tps (pw_pool w) ! a)) + tp_creating (p_tps (pw_pool w) ! a)) < max_conns (p_cfg (pw_pool w))"
    and w: "\<not> p_closed (pw_pool w)" "pw_waiting w = {#}"
    and c: "c \<noteq> NilConn" "c \<noteq> NilPtr" "c \<notin># pw_opened w"
  shows "world_inv (w\<lparr>pw_pool := add_entry a c now (pw_pool w), pw_opened := add_mset c (pw_opened w),
                      pw_handles := pw_handles w @ [(length (p_heap (pw_pool w)), False)]\<rparr>)"
proof -
  let ?p = "pw_pool w" and ?q = "add_entry a c now (pw_pool w)" and ?n = "length (p_heap (pw_pool w))"
  note I = world_invD [OF inv]
  have ent: "tp_entries (p_tps ?q ! b) = (if b = a then tp_entries (p_tps ?p ! a) @ [?n] else tp_entries (p_tps ?p ! b))"
      "tp_creating (p_tps ?q ! b) = tp_creating (p_tps ?p ! b)" for b
    using a by (auto simp: add_entry_def nth_list_update)
  have same: "p_targets ?q = p_targets ?p" "length (p_tps ?q) = length (p_tps ?p)" "p_closed ?q = p_closed ?p"
      "p_cfg ?q = p_cfg ?p" "length (p_heap ?q) = Suc ?n"
    by (simp_all add: add_entry_def)
  have live: "live ?q = insert ?n (live ?p)" using a(1) unfolding live_def same ent by (auto split: if_splits)
  have lt: "i < ?n" if "b < length (p_tps ?p)" "i \<in> set (tp_entries (p_tps ?p ! b))" for b i
    using I(3) that by (auto simp: tps_inv_def)
  have fresh: "?n \<notin> set (tp_entries (p_tps ?p ! b))" if "b < length (p_tps ?p)" for b
    using lt [OF that] by blast
  have "targets_inv ?q (pw_dials w)" using I(2) by (simp add: targets_inv_def owners_def same)
  moreover have "creating_inv ?q (pw_dials w)" using I(4) by (simp add: creating_inv_def same ent)
  moreover have "tps_inv ?q"
    using I(3) a(2) room fresh unfolding tps_inv_def same ent
    by (auto split: if_splits dest: lt intro: less_SucI)
  moreover have "closing_inv ?q"
    using I(5) live w(1) by (auto simp: closing_inv_def add_entry_def nth_append less_Suc_eq)
  moreover have "active_inv ?q (pw_handles w @ [(?n, False)])"
    using I(6) outstanding_fresh [OF I(6)] w(1)
    by (auto simp: active_inv_def add_entry_def nth_append less_Suc_eq outstanding_snoc)
  moreover have "conns_inv ?q (add_mset c (pw_opened w)) (pw_shut w)"
    using I(7) c by (auto simp: conns_inv_def add_entry_def open_conns_def not_in_iff)
  ultimately show ?thesis using I(1) w(2) same by (simp add: world_inv_def waiting_inv_def)
qed

lemma dialed_inv:
  assumes inv: "world_inv w" and ok: "event_ok (EvDialed t a cn err now) w"
  shows "world_inv (pool_exec (EvDialed t a cn err now) w)"
proof -
  have d: "(t, a) \<in># pw_dials w" using ok by simp
  let ?w = "w\<lparr>pw_pool := dial_settled t a (pw_pool w), pw_dials := pw_dials w - {#(t, a)#}, pw_waiting := {#}\<rparr>"
  note I = world_invD [OF inv] and W = dial_settled_inv [OF inv d] and a = dial_owner [OF inv d]
  have same: "p_closed (pw_pool ?w) = p_closed (pw_pool w)" "p_heap (pw_pool ?w) = p_heap (pw_pool w)"
    by (simp_all add: dial_settled_def)
  consider (late) "p_closed (pw_pool w)" | (failed) er where "\<not> p_closed (pw_pool w)" "err = Some er"
    | (added) "\<not> p_closed (pw_pool w)" "err = None" by (cases err) auto
  then show ?thesis
  proof cases
    case late
    let ?o = "if err = None then add_mset cn (pw_opened w) else pw_opened w"
      and ?s = "pw_shut w + mset (if cn \<noteq> NilConn then [cn] else [])"
    have "conns_inv (pw_pool ?w) ?o ?s"
      using world_invD(7) [OF W] ok late_conn_inv [of "pw_pool ?w" "pw_opened w" "pw_shut w" cn]
      by (cases err) (auto simp: conns_inv_def)
    then have "world_inv (?w\<lparr>pw_opened := ?o, pw_shut := ?s\<rparr>)" using W by (simp add: world_inv_def)
    then show ?thesis using late acquire_dialed_eq [OF inv d, of cn err now] by simp
  next
    case failed
    then show ?thesis using W acquire_dialed_eq [OF inv d, of cn err now] by simp
  next
    case added
    have "int (length (tp_entries (p_tps (pw_pool ?w) ! a)) + tp_creating (p_tps (pw_pool ?w) ! a)) < max_conns (p_cfg (pw_pool ?w))"
      using a I(3) by (fastforce simp: dial_settled_def tps_inv_def)
    then show ?thesis
      using add_entry_inv [OF W, of t a cn now] added a ok acquire_dialed_eq [OF inv d, of cn err now] same
      by (simp add: dial_settled_def world_inv_def)
  qed
qed

section \<open>Preservation: releasing\<close>

lemma outstanding_release:
  "h < length hs \<Longrightarrow> hs ! h = (e, False) \<Longrightarrow>
   outstanding hs i = outstanding (hs[h := (e, True)]) i + (if e = i then 1 else 0)"
proof (induction hs arbitrary: h)
  case (Cons x hs)
  then show ?case by (cases h) (auto simp: outstanding_def)
qed simp

lemma release_inv:
  assumes inv: "world_inv w" and ok: "event_ok (EvRelease h now) w"
  shows "world_inv (pool_exec (EvRelease h now) w)"
proof (cases "snd (pw_handles w ! h)")
  case True
  then show ?thesis using inv by (auto split: prod.splits)
next
  case False
  then obtain e where e: "pw_handles w ! h = (e, False)" by (cases "pw_handles w ! h") auto
  let ?p = "pw_pool w" and ?q = "release_entry e now (pw_pool w)" and ?hs = "(pw_handles w)[h := (e, True)]"
  note I = world_invD [OF inv]
  have h: "h < length (pw_handles w)" using ok by simp
  then have "(e, False) \<in> set (pw_handles w)" using e by (metis nth_mem)
  then have lt: "e < length (p_heap ?p)" using I(6) by (auto simp: active_inv_def)
  have out: "outstanding (pw_handles w) i = outstanding ?hs i + (if e = i then 1 else 0)" for i
    by (rule outstanding_release [OF h e])
  have len: "length (p_heap ?q) = length (p_heap ?p)" by (simp add: release_entry_def Let_def)
  have nth: "pe_conn (p_heap ?q ! i) = pe_conn (p_heap ?p ! i)" "pe_closing (p_heap ?q ! i) = pe_closing (p_heap ?p ! i)"
      "pe_active (p_heap ?q ! i) = pe_active (p_heap ?p ! i) - (if i = e then 1 else 0)" if "i < length (p_heap ?p)" for i
    using lt that by (auto simp: release_entry_def Let_def nth_list_update)
  have "targets_inv ?q (pw_dials w)" "tps_inv ?q" "creating_inv ?q (pw_dials w)" "waiting_inv ?q (pw_waiting w)"
    using I(2-4,8) by (simp_all add: targets_inv_def owners_def tps_inv_def creating_inv_def waiting_inv_def release_entry_def Let_def)
  moreover have "live ?q = live ?p" "p_closed ?q = p_closed ?p" "p_cfg ?q = p_cfg ?p"
    by (simp_all add: live_def release_entry_def Let_def)
  moreover from this have "closing_inv ?q" using I(5) nth(2) by (auto simp: closing_inv_def len)
  moreover have "active_inv ?q ?hs"
    using I(6) nth out lt calculation(6) unfolding active_inv_def len
    by (auto simp: Ball_def dest!: set_update_subset_insert [THEN subsetD])
  moreover have "open_conns (p_heap ?q) = open_conns (p_heap ?p)"
    using lt unfolding release_entry_def Let_def by (simp add: open_conns_update)
  then have "conns_inv ?q (pw_opened w) (pw_shut w)" using I(7) by (simp add: conns_inv_def)
  ultimately show ?thesis using I(1) e by (simp add: world_inv_def)
qed

section \<open>Closing entries\<close>

lemma length_entry_close [simp]: "length (entry_close e h) = length h"
  by (simp add: entry_close_def)

lemma nth_entry_close_other: "i \<noteq> e \<Longrightarrow> entry_close e h ! i = h ! i"
  by (simp add: entry_close_def)

lemma nth_entry_close:
  "i < length h \<Longrightarrow> entry_close e h ! i = (if i = e then (h ! i)\<lparr>pe_closing := True\<rparr> else h ! i)"
  by (simp add: entry_close_def)

lemma length_fold_close [simp]: "length (fold entry_close es h) = length h"
  by (induction es arbitrary: h) simp_all

lemma nth_fold_close:
  "i < length h \<Longrightarrow> fold entry_close es h ! i = (if i \<in> set es then (h ! i)\<lparr>pe_closing := True\<rparr> else h ! i)"
  by (induction es arbitrary: h) (auto simp: nth_entry_close)

lemma open_conns_close:
  assumes "e < length h" "\<not> pe_closing (h ! e)"
  shows "open_conns h = add_mset (pe_conn (h ! e)) (open_conns (entry_close e h))"
proof -
  obtain M where M: "mset h = add_mset (h ! e) M" using assms(1) by (meson multi_member_split nth_mem_mset)
  have "mset (entry_close e h) = add_mset ((h ! e)\<lparr>pe_closing := True\<rparr>) M"
    using assms(1) by (simp add: entry_close_def mset_update M)
  then show ?thesis using assms(2) by (simp add: open_conns_def M)
qed

lemma open_conns_fold_close:
  "distinct es \<Longrightarrow> (\<And>e. e \<in> set es \<Longrightarrow> e < length h \<and> \<not> pe_closing (h ! e)) \<Longrightarrow>
   open_conns h = mset (map (\<lambda>e. pe_conn (h ! e)) es) + open_conns (fold entry_close es h)"
proof (induction es arbitrary: h)
  case (Cons e es)
  have nth: "entry_close e h ! d = h ! d" if "d \<in> set es" for d
    using Cons.prems(1) that by (metis distinct.simps(2) nth_entry_close_other)
  have "open_conns (entry_close e h) =
      mset (map (\<lambda>d. pe_conn (entry_close e h ! d)) es) + open_conns (fold entry_close es (entry_close e h))"
    using Cons nth by auto
  moreover have "map (\<lambda>d. pe_conn (entry_close e h ! d)) es = map (\<lambda>d. pe_conn (h ! d)) es" using nth by simp
  ultimately show ?case using open_conns_close [of e h] Cons.prems by simp
qed simp

lemma conns_inv_shut:
  assumes "conns_inv p opened shut" "open_conns (p_heap p) = mset cs + open_conns (p_heap q)"
  shows "conns_inv q opened (shut + mset cs)"
proof -
  have "NilPtr \<notin># mset cs" using assms by (auto simp: conns_inv_def)
  then have "filter_mset (\<lambda>c. c \<noteq> NilPtr) (mset cs) = mset cs" by (induction cs) auto
  then show ?thesis using assms by (auto simp: conns_inv_def add.assoc)
qed

lemma close_entries_spec:
  "close_entries es (h, cs) = (h', cs') \<Longrightarrow> \<forall>e \<in> set es. e < length h \<Longrightarrow>
   length h' = length h \<and>
   (\<forall>i < length h. h' ! i = (if i \<in> set es then (h ! i)\<lparr>pe_closing := True\<rparr> else h ! i)) \<and>
   mset cs' + open_conns h' = mset cs + open_conns h"
proof (induction es "(h, cs)" arbitrary: h cs rule: close_entries.induct)
  case (2 e es h cs)
  show ?case
  proof (cases "pe_closing (h ! e)")
    case True
    then have "(h ! e)\<lparr>pe_closing := True\<rparr> = h ! e" by (cases "h ! e") simp
    then show ?thesis using 2 True by auto
  next
    case False
    then have "length h' = length h" and n: "\<forall>i < length h. h' ! i = (if i \<in> set es then (entry_close e h ! i)\<lparr>pe_closing := True\<rparr> else entry_close e h ! i)"
        and m: "mset cs' + open_conns h' = mset (cs @ [pe_conn (h ! e)]) + open_conns (entry_close e h)"
      using 2 by auto
    moreover have "mset cs' + open_conns h' = mset cs + open_conns h"
      using m open_conns_close [of e h] False 2 by simp
    ultimately show ?thesis by (auto simp: nth_entry_close)
  qed
qed simp

lemma close_entries_append: "close_entries (xs @ ys) s = close_entries ys (close_entries xs s)"
  by (induction xs s rule: close_entries.induct) auto

definition order_entries :: "string list \<Rightarrow> conn_pool \<Rightarrow> nat list" where
  "order_entries order p =
     concat (map (\<lambda>t. case gm_get (p_targets p) t of None \<Rightarrow> [] | Some a \<Rightarrow> tp_entries (p_tps p ! a)) order)"

lemma fold_close_target: "fold (close_target p) order s = close_entries (order_entries order p) s"
  by (induction order arbitrary: s) (auto simp: order_entries_def close_target_def close_entries_append split: option.split)

lemma order_live:
  assumes "map_order order p"
  shows "set (order_entries order p) = live p"
proof -
  have "t \<in> set order" if "gm_get (p_targets p) t = Some a" for t a
    using assms that by (force simp: map_order_def dest: gm_get_SomeD)
  then show ?thesis unfolding live_def order_entries_def
    by (intro set_eqI iffI) (force split: option.splits)+
qed

section \<open>The reaper's loop\<close>

lemma reap_loop_spec:
  assumes "k \<le> i" "i \<le> length arr" "distinct (drop i arr)" "\<forall>e \<in> set (drop i arr). e < length h"
  shows "reap_loop now idle h arr i k closing =
    (let expired = filter (\<lambda>e. entry_expired now idle (h ! e)) (drop i arr)
     in (fold entry_close expired h,
         take k arr @ filter (\<lambda>e. \<not> entry_expired now idle (h ! e)) (drop i arr),
         closing @ map (\<lambda>e. pe_conn (h ! e)) expired))"
  using assms
proof (induction now idle h arr i k closing rule: reap_loop.induct)
  case (1 now idle h arr i k closing)
  show ?case
  proof (cases "i < length arr")
    case False
    then show ?thesis using 1 by (subst reap_loop.simps) simp
  next
    case True
    let ?e = "arr ! i" and ?E = "\<lambda>h e. entry_expired now idle (h ! e)"
    have drop: "drop i arr = ?e # drop (i + 1) arr" using True by (simp add: Cons_nth_drop_Suc)
    have d: "distinct (drop (i + 1) arr)" "?e \<notin> set (drop (i + 1) arr)" "?e < length h"
        "\<forall>e \<in> set (drop (i + 1) arr). e < length h"
      using "1.prems"(3,4) unfolding drop by auto
    show ?thesis
    proof (cases "?E h ?e")
      case E: True
      have nth: "entry_close ?e h ! e = h ! e" if "e \<in> set (drop (i + 1) arr)" for e
        using d(2) that by (metis nth_entry_close_other)
      have f: "filter (?E (entry_close ?e h)) (drop (i + 1) arr) = filter (?E h) (drop (i + 1) arr)"
        "filter (\<lambda>e. \<not> ?E (entry_close ?e h) e) (drop (i + 1) arr) = filter (\<lambda>e. \<not> ?E h e) (drop (i + 1) arr)"
        using nth by (auto cong: filter_cong)
      have m: "map (\<lambda>e. pe_conn (entry_close ?e h ! e)) (filter (?E h) (drop (i + 1) arr)) =
          map (\<lambda>e. pe_conn (h ! e)) (filter (?E h) (drop (i + 1) arr))" using nth by auto
      have "reap_loop now idle h arr i k closing =
          reap_loop now idle (entry_close ?e h) arr (i + 1) k (closing @ [pe_conn (h ! ?e)])"
        using True E by (subst reap_loop.simps) (simp add: Let_def)
      also have "\<dots> = (fold entry_close (filter (?E h) (drop (i + 1) arr)) (entry_close ?e h),
          take k arr @ filter (\<lambda>e. \<not> ?E h e) (drop (i + 1) arr),
          (closing @ [pe_conn (h ! ?e)]) @ map (\<lambda>e. pe_conn (h ! e)) (filter (?E h) (drop (i + 1) arr)))"
        using "1.IH"(1) [OF True refl E] "1.prems"(1) d True by (simp add: Let_def f [simplified] m [simplified])
      finally show ?thesis using E unfolding drop by (simp add: Let_def)
    next
      case E: False
      have k: "k < length arr" using True "1.prems"(1) by simp
      have a: "drop (i + 1) (arr[k := ?e]) = drop (i + 1) arr" "take (k + 1) (arr[k := ?e]) = take k arr @ [?e]"
        using "1.prems"(1) k by (simp_all add: drop_update_cancel take_Suc_conv_app_nth)
      have "reap_loop now idle h arr i k closing = reap_loop now idle h (arr[k := ?e]) (i + 1) (k + 1) closing"
        using True E by (subst reap_loop.simps) (simp add: Let_def)
      also have "\<dots> = (fold entry_close (filter (?E h) (drop (i + 1) arr)) h,
          (take k arr @ [?e]) @ filter (\<lambda>e. \<not> ?E h e) (drop (i + 1) arr),
          closing @ map (\<lambda>e. pe_conn (h ! e)) (filter (?E h) (drop (i + 1) arr)))"
        using "1.IH"(2) [OF True refl E] "1.prems"(1) d True unfolding a by (simp add: Let_def)
      finally show ?thesis using E unfolding drop by (simp add: Let_def)
    qed
  qed
qed

section \<open>Preservation: reaping and closing\<close>

definition reaped_pool :: "int \<Rightarrow> string \<Rightarrow> nat \<Rightarrow> conn_pool \<Rightarrow> conn list \<times> conn_pool" where
  "reaped_pool now t a p =
     (let tp = p_tps p ! a; E = (\<lambda>e. entry_expired now (max_idle (p_cfg p)) (p_heap p ! e));
          gone = filter E (tp_entries tp); kept = filter (\<lambda>e. \<not> E e) (tp_entries tp)
      in (map (\<lambda>e. pe_conn (p_heap p ! e)) gone,
          p\<lparr>p_heap := fold entry_close gone (p_heap p), p_tps := (p_tps p)[a := tp\<lparr>tp_entries := kept\<rparr>],
            p_targets := (if kept = [] \<and> tp_creating tp = 0 then gm_del t (p_targets p) else p_targets p)\<rparr>))"

lemma reap_target_eq:
  assumes "distinct (tp_entries (p_tps p ! a))" "\<forall>e \<in> set (tp_entries (p_tps p ! a)). e < length (p_heap p)"
    "gm_get (p_targets p) t = Some a"
  shows "reap_target now t (closing, p) = (let (cs, q) = reaped_pool now t a p in (closing @ cs, q))"
  using assms by (simp add: reap_target_def reaped_pool_def reap_loop_spec Let_def)

lemma tps_disjoint:
  "tps_inv p \<Longrightarrow> a < length (p_tps p) \<Longrightarrow> b < length (p_tps p) \<Longrightarrow>
   i \<in> set (tp_entries (p_tps p ! a)) \<Longrightarrow> i \<in> set (tp_entries (p_tps p ! b)) \<Longrightarrow> a = b"
  unfolding tps_inv_def by (metis IntI empty_iff)

abbreviation expired_at :: "int \<Rightarrow> conn_pool \<Rightarrow> nat \<Rightarrow> bool" where
  "expired_at now p e \<equiv> entry_expired now (max_idle (p_cfg p)) (p_heap p ! e)"

lemma reaped_fields:
  assumes "reaped_pool now t a p = (cs, q)" "a < length (p_tps p)"
  defines "gone \<equiv> filter (expired_at now p) (tp_entries (p_tps p ! a))"
    and "kept \<equiv> filter (\<lambda>e. \<not> expired_at now p e) (tp_entries (p_tps p ! a))"
  shows "cs = map (\<lambda>e. pe_conn (p_heap p ! e)) gone"
    and "p_heap q = fold entry_close gone (p_heap p)" "p_closed q = p_closed p" "p_cfg q = p_cfg p"
      "p_targets q = (if kept = [] \<and> tp_creating (p_tps p ! a) = 0 then gm_del t (p_targets p) else p_targets p)"
    and "length (p_heap q) = length (p_heap p)" "length (p_tps q) = length (p_tps p)"
    and "tp_entries (p_tps q ! b) = (if b = a then kept else tp_entries (p_tps p ! b))"
      "tp_creating (p_tps q ! b) = tp_creating (p_tps p ! b)"
  using assms(1,2) by (auto simp: reaped_pool_def Let_def gone_def kept_def nth_list_update)

lemma target_owner:
  assumes "world_inv w" "gm_get (p_targets (pw_pool w)) t = Some a"
  shows "a < length (p_tps (pw_pool w))" "gm_get (p_targets (pw_pool w)) u = Some b \<Longrightarrow> b = a \<longleftrightarrow> u = t"
  using world_invD(2) [OF assms(1)] assms(2) unfolding targets_inv_def owners_def by blast+

lemma reaped_live:
  assumes inv: "world_inv w" and t: "gm_get (p_targets (pw_pool w)) t = Some a"
    and q: "reaped_pool now t a (pw_pool w) = (cs, q)"
  shows "live q = live (pw_pool w) - set (filter (expired_at now (pw_pool w)) (tp_entries (p_tps (pw_pool w) ! a)))"
    (is "_ = live ?p - set ?gone")
proof (intro set_eqI iffI)
  note a = target_owner [OF inv t] and f = reaped_fields [OF q target_owner(1) [OF inv t]]
  fix i assume "i \<in> live q"
  then obtain u b where u: "gm_get (p_targets ?p) u = Some b" "i \<in> set (tp_entries (p_tps q ! b))"
    by (auto simp: live_def f(5) split: if_splits)
  moreover have "i \<notin> set ?gone"
    using u(2) tps_disjoint [OF world_invD(3) [OF inv] a(1) target_owner(1) [OF inv u(1)], of i] by (auto simp: f(8) split: if_splits)
  ultimately show "i \<in> live ?p - set ?gone" by (auto simp: live_def f(8) split: if_splits)
next
  note a = target_owner [OF inv t] and f = reaped_fields [OF q target_owner(1) [OF inv t]]
  fix i assume i: "i \<in> live ?p - set ?gone"
  then obtain u b where u: "gm_get (p_targets ?p) u = Some b" "i \<in> set (tp_entries (p_tps ?p ! b))"
    by (auto simp: live_def)
  then have "i \<in> set (tp_entries (p_tps q ! b))" using i by (auto simp: f(8))
  moreover from this have "gm_get (p_targets q) u = Some b"
    using u(1) a(2) [OF u(1)] unfolding f(5,8) by (cases "u = t") (auto simp: filter_empty_conv)
  ultimately show "i \<in> live q" by (auto simp: live_def)
qed

lemma reaped_tables:
  assumes inv: "world_inv w" and t: "gm_get (p_targets (pw_pool w)) t = Some a"
    and q: "reaped_pool now t a (pw_pool w) = (cs, q)"
  shows "targets_inv q (pw_dials w)" "tps_inv q" "creating_inv q (pw_dials w)" "waiting_inv q (pw_waiting w)"
proof -
  let ?p = "pw_pool w" and ?es = "tp_entries (p_tps (pw_pool w) ! a)"
  let ?kept = "filter (\<lambda>e. \<not> expired_at now ?p e) ?es"
  note I = world_invD [OF inv] and a = target_owner [OF inv t] and f = reaped_fields [OF q target_owner(1) [OF inv t]]
  have own: "owners q (pw_dials w) \<subseteq> owners ?p (pw_dials w)"
    by (auto simp: owners_def f(5) split: if_splits)
  show "targets_inv q (pw_dials w)"
    unfolding targets_inv_def
  proof (intro conjI allI impI)
    show "gm_wf (p_targets q)" using I(2) by (simp add: f(5) targets_inv_def)
    show "b < length (p_tps q)" if "(u, b) \<in> owners q (pw_dials w)" for u b
      using I(2) own that f(7) unfolding targets_inv_def by auto
    show "(u = v) = (b = c)" if "(u, b) \<in> owners q (pw_dials w)" "(v, c) \<in> owners q (pw_dials w)" for u b v c
      using I(2) own that unfolding targets_inv_def by blast
    show "gm_get (p_targets q) u = Some b" if "(u, b) \<in># pw_dials w" "\<not> p_closed q" for u b
      using dial_owner(2,3) [OF inv that(1)] that(2) a(2) [of u b] by (auto simp: f(3,5))
  qed
  show "tps_inv q"
    unfolding tps_inv_def f(4,6-9)
  proof (intro conjI allI impI)
    fix b assume b: "b < length (p_tps ?p)"
    have "length ?kept \<le> length ?es" by simp
    then show "int (length (if b = a then ?kept else tp_entries (p_tps ?p ! b)) + tp_creating (p_tps ?p ! b)) \<le> max_conns (p_cfg ?p)"
      using I(3) b unfolding tps_inv_def by (smt (verit) of_nat_add of_nat_mono)
  qed (use I(3) a(1) tps_disjoint [OF I(3)] in \<open>auto simp: tps_inv_def split: if_splits\<close>)
  show "creating_inv q (pw_dials w)" using I(4) by (simp add: creating_inv_def f(7,9))
  show "waiting_inv q (pw_waiting w)"
    unfolding waiting_inv_def
  proof (intro ballI)
    fix u assume "u \<in># pw_waiting w"
    then obtain b where b: "\<not> p_closed ?p" "gm_get (p_targets ?p) u = Some b" "tp_entries (p_tps ?p ! b) = []"
        "int (tp_creating (p_tps ?p ! b)) = max_conns (p_cfg ?p)"
      using I(8) by (auto simp: waiting_inv_def)
    then show "\<not> p_closed q \<and> (\<exists>a. gm_get (p_targets q) u = Some a \<and> tp_entries (p_tps q ! a) = [] \<and>
        int (tp_creating (p_tps q ! a)) = max_conns (p_cfg q))"
      using I(1) a(2) [OF b(2)] by (intro conjI exI [of _ b]) (auto simp: f(3-5,8,9))
  qed
qed

lemma reaped_inv:
  assumes inv: "world_inv w" and t: "gm_get (p_targets (pw_pool w)) t = Some a"
    and q: "reaped_pool now t a (pw_pool w) = (cs, q)"
  shows "world_inv (w\<lparr>pw_pool := q, pw_shut := pw_shut w + mset cs\<rparr>)"
proof -
  let ?p = "pw_pool w" and ?es = "tp_entries (p_tps (pw_pool w) ! a)"
  let ?gone = "filter (expired_at now ?p) ?es"
  note I = world_invD [OF inv] and a = target_owner [OF inv t] and f = reaped_fields [OF q target_owner(1) [OF inv t]]
  have es: "distinct ?es" "\<And>e. e \<in> set ?es \<Longrightarrow> e < length (p_heap ?p)" using I(3) a(1) by (auto simp: tps_inv_def)
  have gone: "pe_active (p_heap ?p ! e) = 0" "\<not> pe_closing (p_heap ?p ! e)" "e < length (p_heap ?p)"
    if "e \<in> set ?gone" for e
    using that es(2) [of e] by (auto simp: entry_expired_def)
  have open_gone: "?gone = []" if "p_closed ?p"
    using live_entry(3) [OF inv t] that by (simp add: filter_empty_conv entry_expired_def)
  have nth: "p_heap q ! i = (if i \<in> set ?gone then (p_heap ?p ! i)\<lparr>pe_closing := True\<rparr> else p_heap ?p ! i)"
    if "i < length (p_heap ?p)" for i
    unfolding f(2) using that by (rule nth_fold_close)
  have "closing_inv q"
    using I(5) reaped_live [OF inv t q] open_gone nth unfolding closing_inv_def f(3,6) by auto
  moreover have "active_inv q (pw_handles w)"
    using I(6) gone nth unfolding active_inv_def f(3,6) by auto
  moreover have "conns_inv q (pw_opened w) (pw_shut w + mset cs)"
    by (rule conns_inv_shut [OF I(7)]) (use open_conns_fold_close [of ?gone "p_heap ?p"] es(1) gone in \<open>auto simp: f(1,2)\<close>)
  ultimately show ?thesis using I(1) reaped_tables [OF inv t q] by (simp add: world_inv_def f(4))
qed

lemma reap_fold_inv:
  "world_inv w \<Longrightarrow> fold (reap_target now) order (closing, pw_pool w) = (closing', q) \<Longrightarrow>
   \<exists>cs. closing' = closing @ cs \<and> world_inv (w\<lparr>pw_pool := q, pw_shut := pw_shut w + mset cs\<rparr>)"
proof (induction order arbitrary: w closing)
  case (Cons t order)
  show ?case
  proof (cases "gm_get (p_targets (pw_pool w)) t")
    case None
    then show ?thesis using Cons by (simp add: reap_target_def)
  next
    case (Some a)
    obtain cs p1 where r: "reaped_pool now t a (pw_pool w) = (cs, p1)" by fastforce
    have "reap_target now t (closing, pw_pool w) = (closing @ cs, p1)"
      using reap_target_eq [of "pw_pool w" a t now closing] Some r world_invD(3) [OF Cons.prems(1)]
        target_owner(1) [OF Cons.prems(1) Some] by (auto simp: tps_inv_def)
    then have "fold (reap_target now) order (closing @ cs, p1) = (closing', q)" using Cons.prems(2) by simp
    then show ?thesis
      using Cons.IH [OF reaped_inv [OF Cons.prems(1) Some r], of "closing @ cs"] by (auto simp: add.assoc)
  qed
qed (auto simp: world_inv_def)

lemma reap_inv: "world_inv w \<Longrightarrow> world_inv (pool_exec (EvReap now order) w)"
  using reap_fold_inv [of w now order "[]"] by (fastforce simp: reap_idle_def split: prod.split)

lemma close_inv:
  assumes inv: "world_inv w" and ok: "event_ok (EvClose order) w"
  shows "world_inv (pool_exec (EvClose order) w)"
proof (cases "p_closed (pw_pool w)")
  case True
  then show ?thesis using inv by (simp add: close_pool_def)
next
  case False
  let ?p = "pw_pool w"
  note I = world_invD [OF inv]
  obtain h cs where fc: "fold (close_target ?p) order (p_heap ?p, []) = (h, cs)" by fastforce
  let ?q = "?p\<lparr>p_closed := True, p_heap := h, p_targets := []\<rparr>"
  have lt: "i < length (p_heap ?p)" if "i \<in> live ?p" for i
    using that live_entry(1) [OF inv] by (auto simp: live_def)
  have h: "length h = length (p_heap ?p)" "\<And>i. i < length (p_heap ?p) \<Longrightarrow>
        h ! i = (if i \<in> live ?p then (p_heap ?p ! i)\<lparr>pe_closing := True\<rparr> else p_heap ?p ! i)"
      "mset cs + open_conns h = open_conns (p_heap ?p)"
    using close_entries_spec [OF fc [unfolded fold_close_target]] order_live [of order ?p] ok lt by auto
  have "targets_inv ?q (pw_dials w)"
    using I(2) by (auto simp: targets_inv_def owners_def)
  moreover have "tps_inv ?q" "creating_inv ?q (pw_dials w)" using I(3,4) h(1) by (auto simp: tps_inv_def creating_inv_def)
  moreover have "closing_inv ?q" using I(5) h by (auto simp: closing_inv_def)
  moreover have "active_inv ?q (pw_handles w)" using I(6) h by (auto simp: active_inv_def)
  moreover have "conns_inv ?q (pw_opened w) (pw_shut w + mset cs)"
    by (rule conns_inv_shut [OF I(7)]) (simp add: h(3))
  ultimately show ?thesis using False fc I(1) by (simp add: close_pool_def world_inv_def waiting_inv_def)
qed

lemma exec_inv: "world_inv w \<Longrightarrow> event_ok ev w \<Longrightarrow> world_inv (pool_exec ev w)"
  by (cases ev) (simp_all only: acquire_inv dialed_inv release_inv reap_inv close_inv)

lemma pool_normalized_ok:
  "1 \<le> max_conns (pool_normalized c) \<and> 0 < max_idle (pool_normalized c) \<and> 0 < reap_interval (pool_normalized c)"
  by (simp add: pool_normalized_def Let_def)

lemma reach_inv: "pool_reach cfg w \<Longrightarrow> world_inv w"
proof (induction rule: pool_reach.induct)
  case (start p)
  then show ?case using pool_normalized_ok [of cfg]
    by (auto simp: new_pool_def pool_start_def world_inv_def pool_inv_defs owners_def live_def open_conns_def)
qed (rule exec_inv)

lemma exec_cfg: "p_cfg (pw_pool (pool_exec ev w)) = p_cfg (pw_pool w)"
proof -
  have r: "p_cfg (snd (fold (reap_target now) order s)) = p_cfg (snd s)" for now order s
    by (induction order arbitrary: s) (auto simp: reap_target_def Let_def split: option.splits prod.splits)
  show ?thesis
  proof (cases ev)
    case (EvAcquire t cerr)
    then show ?thesis
      by (auto simp: acquire_enter_def ensure_target_def entry_use_def Let_def split: option.split prod.splits)
  next
    case (EvDialed t a cn err now)
    then show ?thesis by (auto simp: acquire_dialed_def Let_def split: option.splits prod.splits)
  next
    case (EvReap now order)
    then show ?thesis using r [of now order "([], pw_pool w)"] by (auto simp: reap_idle_def split: prod.splits)
  next
    case (EvClose order)
    then show ?thesis by (auto simp: close_pool_def Let_def split: prod.splits)
  qed (auto simp: release_entry_def Let_def split: prod.splits)
qed

lemma reach_cfg: "pool_reach cfg w \<Longrightarrow> p_cfg (pw_pool w) = pool_normalized cfg"
  by (induction rule: pool_reach.induct) (auto simp: new_pool_def pool_start_def exec_cfg)

lemma creating_dials:
  assumes inv: "world_inv w" and t: "gm_get (p_targets (pw_pool w)) t = Some a"
  shows "tp_creating (p_tps (pw_pool w) ! a) = size (filter_mset (\<lambda>d. fst d = t) (pw_dials w))"
proof -
  note I = world_invD [OF inv]
  have "snd d = a \<longleftrightarrow> fst d = t" if "d \<in># pw_dials w" for d
  proof -
    have "(fst d, snd d) \<in> owners (pw_pool w) (pw_dials w)" "(t, a) \<in> owners (pw_pool w) (pw_dials w)"
      using that t by (auto simp: owners_def)
    then show ?thesis using I(2) unfolding targets_inv_def by blast
  qed
  then have "filter_mset (\<lambda>d. snd d = a) (pw_dials w) = filter_mset (\<lambda>d. fst d = t) (pw_dials w)"
    by (intro filter_mset_cong) simp_all
  then show ?thesis using I(4) target_owner(1) [OF inv t] by (simp add: creating_inv_def)
qed

lemma held_open:
  assumes "world_inv w" "\<not> p_closed (pw_pool w)" "(e, False) \<in> set (pw_handles w)"
  shows "e < length (p_heap (pw_pool w))" "\<not> pe_closing (p_heap (pw_pool w) ! e)" "0 < pe_active (p_heap (pw_pool w) ! e)"
proof -
  note I = world_invD(6) [OF assms(1)]
  show e: "e < length (p_heap (pw_pool w))" using I assms(3) by (auto simp: active_inv_def)
  have "outstanding (pw_handles w) e \<noteq> 0" using assms(3) by (auto simp: outstanding_def filter_empty_conv)
  then show "0 < pe_active (p_heap (pw_pool w) ! e)" using I e by (auto simp: active_inv_def)
  then show "\<not> pe_closing (p_heap (pw_pool w) ! e)" using I e assms(2) by (auto simp: active_inv_def)
qed

lemma open_conn_mem: "i < length h \<Longrightarrow> \<not> pe_closing (h ! i) \<Longrightarrow> pe_conn (h ! i) \<in># open_conns h"
  by (auto simp: open_conns_def intro!: imageI)

lemma open_not_shut:
  assumes "conns_inv p opened shut" "c \<in># open_conns (p_heap p)"
  shows "c \<in># opened \<and> c \<notin># shut"
proof -
  have o: "c \<in># opened" using assms by (auto simp: conns_inv_def)
  then have "c \<noteq> NilPtr" using assms(1) by (auto simp: conns_inv_def)
  moreover have "count (filter_mset (\<lambda>c. c \<noteq> NilPtr) shut) c + count (open_conns (p_heap p)) c \<le> 1"
    using assms(1) unfolding conns_inv_def by (metis count_union)
  moreover have "0 < count (open_conns (p_heap p)) c" using assms(2) by (simp only: count_greater_zero_iff)
  ultimately have "count shut c = 0" by (simp del: count_greater_zero_iff)
  then show ?thesis using o by (simp add: not_in_iff)
qed

lemma all_closing: "world_inv w \<Longrightarrow> p_closed (pw_pool w) \<Longrightarrow> open_conns (p_heap (pw_pool w)) = {#}"
  using world_invD(5) [of w] by (auto simp: closing_inv_def open_conns_def in_set_conv_nth)

lemma enter_wait:
  assumes "fst (acquire_enter t cerr p) = EnterWait"
  shows "t \<noteq> []" "\<not> p_closed p"
    "gm_get (p_targets p) t = Some a \<Longrightarrow> acquire_enter t cerr p = (EnterWait, p)"
  using assms by (auto simp: acquire_enter_def ensure_target_def Let_def split: if_splits option.splits)

text \<open>A caller woken by the end of a dial of its target does not wait again at once.\<close>

lemma settled_no_wait:
  assumes inv: "world_inv w" and ok: "event_ok (EvDialed t a cn err now) w"
  shows "fst (acquire_enter t cerr (pw_pool (pool_exec (EvDialed t a cn err now) w))) \<noteq> EnterWait"
proof
  let ?w = "pool_exec (EvDialed t a cn err now) w"
  assume wait: "fst (acquire_enter t cerr (pw_pool ?w)) = EnterWait"
  have d: "(t, a) \<in># pw_dials w" using ok by simp
  note a = dial_owner [OF inv d] and eq = acquire_dialed_eq [OF inv d, of cn err now]
  have w: "world_inv ?w" by (rule dialed_inv [OF inv ok])
  have pool: "pw_pool ?w = snd (snd (acquire_dialed t a cn err now (pw_pool w)))" by (simp split: prod.split)
  have op: "\<not> p_closed (pw_pool w)" using enter_wait(2) [OF wait] unfolding pool eq by (auto simp: dial_settled_def)
  then have get: "gm_get (p_targets (pw_pool ?w)) t = Some a"
      and less: "tp_creating (p_tps (pw_pool ?w) ! a) = tp_creating (p_tps (pw_pool w) ! a) - 1"
      and cfg: "p_cfg (pw_pool ?w) = p_cfg (pw_pool w)"
    unfolding pool eq using a by (auto simp: dial_settled_def add_entry_def split: option.splits)
  note enter_wait(3) [OF wait get]
  then have "t \<in># pw_waiting (pool_exec (EvAcquire t cerr) ?w)" "pw_pool (pool_exec (EvAcquire t cerr) ?w) = pw_pool ?w"
    by (simp_all del: pool_exec.simps(2))
  then have "int (tp_creating (p_tps (pw_pool ?w) ! a)) = max_conns (p_cfg (pw_pool ?w))"
    using world_invD(8) [OF acquire_inv [OF w, of t cerr]] get unfolding waiting_inv_def by fastforce
  moreover have "int (tp_creating (p_tps (pw_pool w) ! a)) \<le> max_conns (p_cfg (pw_pool w))"
    using world_invD(3) [OF inv] a(1) unfolding tps_inv_def by fastforce
  ultimately show False using a(2) by (simp add: less cfg del: pool_exec.simps)
qed

section \<open>Where an entry comes from\<close>

text \<open>
  After one step, an entry of a target pool was there before, under the same target and with the same
  connection, or is the connection that the step's dial returned for that target.
\<close>

lemma acquire_entry_origin:
  assumes inv: "world_inv w" and q: "acquire_enter t cerr (pw_pool w) = (r, q)"
    and e: "e \<in> set (tp_entries (p_tps q ! b))" "gm_get (p_targets q) u = Some b \<or> (u, b) \<in># pw_dials w"
  shows "(u, b) \<in> owners (pw_pool w) (pw_dials w)" "e \<in> set (tp_entries (p_tps (pw_pool w) ! b))"
    "pe_conn (p_heap q ! e) = pe_conn (p_heap (pw_pool w) ! e)"
proof -
  let ?p = "pw_pool w"
  obtain a p1 where en: "ensure_target t ?p = (a, p1)" by fastforce
  have bound: "b < length (p_tps ?p)" if "(u, b) \<in> owners ?p (pw_dials w)"
    using world_invD(2) [OF inv] that by (auto simp: targets_inv_def)
  have p1: "(u, b) \<in> owners ?p (pw_dials w) \<and> d \<in> set (tp_entries (p_tps ?p ! b))"
    if "d \<in> set (tp_entries (p_tps p1 ! b))" "gm_get (p_targets p1) u = Some b \<or> (u, b) \<in># pw_dials w" for d
  proof (cases "gm_get (p_targets ?p) t")
    case (Some c)
    then show ?thesis using that en by (auto simp: ensure_target_def owners_def)
  next
    case None
    let ?n = "length (p_tps ?p)"
    have p1: "p_tps p1 = p_tps ?p @ [\<lparr>tp_entries = [], tp_creating = 0\<rparr>]" "p_targets p1 = gm_set t ?n (p_targets ?p)"
      using en None by (auto simp: ensure_target_def Let_def)
    have "b \<noteq> ?n" using that(1) by (auto simp: p1)
    then have o: "(u, b) \<in> owners ?p (pw_dials w)" using that(2) by (auto simp: p1 owners_def split: if_splits)
    then show ?thesis using that(1) bound by (simp add: p1 nth_append)
  qed
  have heap: "p_heap p1 = p_heap ?p" using en by (auto simp: ensure_target_def Let_def split: option.splits)
  have use: "p_tps (entry_use d p1) = p_tps p1" "p_targets (entry_use d p1) = p_targets p1" for d
    by (simp_all add: entry_use_def)
  have conn: "pe_conn (p_heap (entry_use d p1) ! e) = pe_conn (p_heap p1 ! e)" for d
    by (simp add: entry_use_def nth_update_field)
  have inc: "tp_entries ((p_tps p1)[a := (p_tps p1 ! a)\<lparr>tp_creating := n\<rparr>] ! b) = tp_entries (p_tps p1 ! b)" for n
    by (rule nth_update_field) simp
  have "(u, b) \<in> owners ?p (pw_dials w) \<and> e \<in> set (tp_entries (p_tps ?p ! b)) \<and> pe_conn (p_heap q ! e) = pe_conn (p_heap ?p ! e)"
  proof (cases "t = [] \<or> p_closed ?p")
    case True
    then show ?thesis using q e by (auto simp: acquire_enter_def owners_def split: if_splits)
  next
    case False
    then have nc: "t \<noteq> []" "\<not> p_closed ?p" by simp_all
    from q nc en show ?thesis
    proof (cases rule: acquire_enter_cases)
      case (got d idle)
      then show ?thesis using e p1 [of e] use conn heap by auto
    next
      case dial
      then show ?thesis using e p1 [of e] heap inc by auto
    qed (use e p1 [of e] heap in auto)
  qed
  then show "(u, b) \<in> owners ?p (pw_dials w)" "e \<in> set (tp_entries (p_tps ?p ! b))" "pe_conn (p_heap q ! e) = pe_conn (p_heap ?p ! e)"
    by simp_all
qed

definition entries_from :: "pool_world \<Rightarrow> pool_world \<Rightarrow> bool" where
  "entries_from w v \<longleftrightarrow>
     (\<forall>u b e. (u, b) \<in> owners (pw_pool v) (pw_dials v) \<longrightarrow> e \<in> set (tp_entries (p_tps (pw_pool v) ! b)) \<longrightarrow>
        (u, b) \<in> owners (pw_pool w) (pw_dials w) \<and> e \<in> set (tp_entries (p_tps (pw_pool w) ! b)) \<and>
        pe_conn (p_heap (pw_pool v) ! e) = pe_conn (p_heap (pw_pool w) ! e))"

lemma entries_from_trans: "entries_from w v \<Longrightarrow> entries_from v x \<Longrightarrow> entries_from w x"
  unfolding entries_from_def by metis

lemma acquire_from:
  assumes inv: "world_inv w"
  shows "entries_from w (pool_exec (EvAcquire t cerr) w)"
proof -
  obtain r q where q: "acquire_enter t cerr (pw_pool w) = (r, q)" by fastforce
  have "gm_get (p_targets q) u = Some b \<or> (u, b) \<in># pw_dials w"
    if "(u, b) \<in> owners (pw_pool (pool_exec (EvAcquire t cerr) w)) (pw_dials (pool_exec (EvAcquire t cerr) w))" for u b
  proof (cases r)
    case (EnterDial a)
    then have "gm_get (p_targets q) t = Some a"
      using q by (auto simp: acquire_enter_def ensure_target_def Let_def split: if_splits option.splits)
    then show ?thesis using that q EnterDial by (auto simp: owners_def)
  qed (use that q in \<open>auto simp: owners_def\<close>)
  moreover have "pw_pool (pool_exec (EvAcquire t cerr) w) = q" using q by (cases r) simp_all
  ultimately show ?thesis using acquire_entry_origin [OF inv q] unfolding entries_from_def by metis
qed

lemma release_from: "entries_from w (pool_exec (EvRelease h now) w)"
proof -
  obtain e once where h: "pw_handles w ! h = (e, once)" by fastforce
  have "pe_conn (p_heap (release_entry e now (pw_pool w)) ! i) = pe_conn (p_heap (pw_pool w) ! i)" for i
    by (simp add: release_entry_def Let_def nth_update_field)
  then show ?thesis using h by (auto simp: entries_from_def owners_def release_entry_def Let_def)
qed

lemma reaped_from:
  assumes inv: "world_inv w" and t: "gm_get (p_targets (pw_pool w)) t = Some a"
    and r: "reaped_pool now t a (pw_pool w) = (cs, p1)"
    and conn: "\<And>e. e < length (p_heap (pw_pool w)) \<Longrightarrow> pe_conn (p_heap p1 ! e) = pe_conn (p_heap (pw_pool w) ! e)"
  shows "entries_from w (w\<lparr>pw_pool := p1\<rparr>)"
  unfolding entries_from_def
proof (intro allI impI)
  note f = reaped_fields [OF r target_owner(1) [OF inv t]]
  fix u b e
  assume "(u, b) \<in> owners (pw_pool (w\<lparr>pw_pool := p1\<rparr>)) (pw_dials (w\<lparr>pw_pool := p1\<rparr>))"
    and e: "e \<in> set (tp_entries (p_tps (pw_pool (w\<lparr>pw_pool := p1\<rparr>)) ! b))"
  then have o: "(u, b) \<in> owners (pw_pool w) (pw_dials w)" by (auto simp: owners_def f(5) split: if_splits)
  moreover have m: "e \<in> set (tp_entries (p_tps (pw_pool w) ! b))" using e by (simp add: f(8) split: if_splits)
  moreover have "b < length (p_tps (pw_pool w))" using world_invD(2) [OF inv] o by (auto simp: targets_inv_def)
  then have "e < length (p_heap (pw_pool w))" using world_invD(3) [OF inv] m by (auto simp: tps_inv_def)
  ultimately show "(u, b) \<in> owners (pw_pool w) (pw_dials w) \<and> e \<in> set (tp_entries (p_tps (pw_pool w) ! b)) \<and>
      pe_conn (p_heap (pw_pool (w\<lparr>pw_pool := p1\<rparr>)) ! e) = pe_conn (p_heap (pw_pool w) ! e)"
    using conn by simp
qed

lemma reap_fold_from:
  "world_inv w \<Longrightarrow> fold (reap_target now) order (closing, pw_pool w) = (closing', q) \<Longrightarrow> entries_from w (w\<lparr>pw_pool := q\<rparr>)"
proof (induction order arbitrary: w closing)
  case (Cons t order)
  show ?case
  proof (cases "gm_get (p_targets (pw_pool w)) t")
    case None
    then show ?thesis using Cons by (simp add: reap_target_def)
  next
    case (Some a)
    obtain cs p1 where r: "reaped_pool now t a (pw_pool w) = (cs, p1)" by fastforce
    note own = target_owner(1) [OF Cons.prems(1) Some] and inv3 = world_invD(3) [OF Cons.prems(1)]
    note f = reaped_fields [OF r own]
    have "reap_target now t (closing, pw_pool w) = (closing @ cs, p1)"
      using reap_target_eq [of "pw_pool w" a t now closing] Some r inv3 own by (auto simp: tps_inv_def)
    then have run: "fold (reap_target now) order (closing @ cs, p1) = (closing', q)" using Cons.prems(2) by simp
    have "pe_conn (p_heap p1 ! e) = pe_conn (p_heap (pw_pool w) ! e)" if "e < length (p_heap (pw_pool w))" for e
      using that by (simp add: f(2) nth_fold_close)
    then have "entries_from w (w\<lparr>pw_pool := p1\<rparr>)" by (rule reaped_from [OF Cons.prems(1) Some r])
    moreover have "entries_from (w\<lparr>pw_pool := p1\<rparr>) (w\<lparr>pw_pool := q\<rparr>)"
      using Cons.IH [OF reaped_inv [OF Cons.prems(1) Some r], of "closing @ cs"] run by (simp add: entries_from_def)
    ultimately show ?thesis by (rule entries_from_trans)
  qed
qed (auto simp: entries_from_def)

lemma reap_from: "world_inv w \<Longrightarrow> entries_from w (pool_exec (EvReap now order) w)"
  using reap_fold_from [of w now order "[]"] by (fastforce simp: reap_idle_def entries_from_def split: prod.split)

lemma close_from:
  assumes inv: "world_inv w" and ok: "event_ok (EvClose order) w"
  shows "entries_from w (pool_exec (EvClose order) w)"
proof (cases "p_closed (pw_pool w)")
  case False
  let ?p = "pw_pool w"
  obtain h cs where fc: "fold (close_target ?p) order (p_heap ?p, []) = (h, cs)" by fastforce
  have lt: "i < length (p_heap ?p)" if "i \<in> live ?p" for i
    using that live_entry(1) [OF inv] by (auto simp: live_def)
  then have conn: "pe_conn (h ! i) = pe_conn (p_heap ?p ! i)" if "i < length (p_heap ?p)" for i
    using close_entries_spec [OF fc [unfolded fold_close_target]] order_live [of order ?p] ok that by auto
  have ents: "e < length (p_heap ?p)" if "(u, b) \<in># pw_dials w" "e \<in> set (tp_entries (p_tps ?p ! b))" for u b e
    using dial_owner(1) [OF inv that(1)] that(2) world_invD(3) [OF inv] by (auto simp: tps_inv_def)
  show ?thesis using False fc conn ents by (auto simp: close_pool_def entries_from_def owners_def)
qed (simp add: close_pool_def entries_from_def)

lemma dialed_from:
  assumes inv: "world_inv w" and ok: "event_ok (EvDialed t a cn err now) w"
    and v: "(u, b) \<in> owners (pw_pool v) (pw_dials v)" "e \<in> set (tp_entries (p_tps (pw_pool v) ! b))"
    and v_def: "v = pool_exec (EvDialed t a cn err now) w"
  shows "(u, b) \<in> owners (pw_pool w) (pw_dials w) \<and> e \<in> set (tp_entries (p_tps (pw_pool w) ! b)) \<and>
      pe_conn (p_heap (pw_pool v) ! e) = pe_conn (p_heap (pw_pool w) ! e) \<or>
    u = t \<and> err = None \<and> pe_conn (p_heap (pw_pool v) ! e) = cn"
proof -
  let ?p = "pw_pool w"
  have d: "(t, a) \<in># pw_dials w" using ok by simp
  note a = dial_owner [OF inv d] and eq = acquire_dialed_eq [OF inv d, of cn err now]
  have pv: "pw_pool v = snd (snd (acquire_dialed t a cn err now ?p))" "pw_dials v = pw_dials w - {#(t, a)#}"
    by (simp_all add: v_def split: prod.split)
  define n where "n = (\<not> p_closed ?p \<and> err = None)"
  have q: "pw_pool v = (if n then add_entry a cn now (dial_settled t a ?p) else dial_settled t a ?p)"
    unfolding pv(1) eq n_def by (simp split: option.split)
  have own: "(u, b) \<in> owners ?p (pw_dials w)"
    using v(1) a(3) d unfolding pv(2) q
    by (auto simp: owners_def dial_settled_def add_entry_def split: if_splits dest: in_diffD)
  have lt: "b < length (p_tps ?p)" using own world_invD(2) [OF inv] by (auto simp: targets_inv_def)
  have e: "e \<in> set (tp_entries (p_tps ?p ! b)) \<or> n \<and> b = a \<and> e = length (p_heap ?p)"
    using v(2) a(1) lt unfolding q by (auto simp: dial_settled_def add_entry_def nth_list_update split: if_splits)
  show ?thesis
  proof (cases "e \<in> set (tp_entries (p_tps ?p ! b))")
    case True
    then have "e < length (p_heap ?p)" using world_invD(3) [OF inv] lt by (auto simp: tps_inv_def)
    then show ?thesis using own True unfolding q by (simp add: dial_settled_def add_entry_def nth_append)
  next
    case False
    then have n: "n" "b = a" "e = length (p_heap ?p)" using e by auto
    have "(t, a) \<in> owners ?p (pw_dials w)" using d by (simp add: owners_def)
    then have "u = t" using own n(2) world_invD(2) [OF inv] unfolding targets_inv_def by blast
    then show ?thesis using n unfolding q n_def by (simp add: dial_settled_def add_entry_def nth_append)
  qed
qed

section \<open>Properties\<close>

text \<open>
  C11: the connection cap. In every interleaving, the connections of a target and the dials in flight
  for it together never exceed \<open>MaxConnectionsPerTarget\<close> (1 when the configured value is not positive).
\<close>

theorem pool_capacity:
  assumes "pool_reach cfg w" "gm_get (p_targets (pw_pool w)) t = Some a"
  shows "int (length (tp_entries (p_tps (pw_pool w) ! a)) + size (filter_mset (\<lambda>d. fst d = t) (pw_dials w)))
    \<le> max_conns (pool_normalized cfg)"
  using creating_dials [OF reach_inv [OF assms(1)] assms(2)] world_invD(3) [OF reach_inv [OF assms(1)]]
    target_owner(1) [OF reach_inv [OF assms(1)] assms(2)]
  unfolding reach_cfg [OF assms(1), symmetric] tps_inv_def by metis

definition demo_pool_cfg :: pool_config where
  "demo_pool_cfg = \<lparr>max_conns = 1, max_idle = 10, reap_interval = 5\<rparr>"

definition demo_start :: pool_world where
  "demo_start = pool_start \<lparr>p_cfg = demo_pool_cfg, p_targets = [], p_created = 0, p_closed = False, p_heap = [], p_tps = []\<rparr>"

definition demo_dialing :: pool_world where
  "demo_dialing = pool_exec (EvAcquire ''h'' (None :: string option)) demo_start"

definition demo_held :: pool_world where
  "demo_held = pool_exec (EvDialed ''h'' 0 (ConnPtr 7) (None :: string option) 3) demo_dialing"

lemmas demo_pool_defs = demo_start_def pool_start_def demo_pool_cfg_def acquire_enter_def ensure_target_def gm_set_def
  least_active_def Let_def

lemma demo_dialing_eq:
  "demo_dialing = \<lparr>pw_pool = \<lparr>p_cfg = demo_pool_cfg, p_targets = [(''h'', 0)], p_created = 0, p_closed = False, p_heap = [],
     p_tps = [\<lparr>tp_entries = [], tp_creating = 1\<rparr>]\<rparr>, pw_handles = [], pw_dials = {#(''h'', 0)#}, pw_waiting = {#},
     pw_opened = {#}, pw_shut = {#}\<rparr>"
  by (simp add: demo_dialing_def demo_pool_defs)

lemma demo_held_eq:
  "demo_held = \<lparr>pw_pool = \<lparr>p_cfg = demo_pool_cfg, p_targets = [(''h'', 0)], p_created = 1, p_closed = False,
       p_heap = [\<lparr>pe_conn = ConnPtr 7, pe_active = 1, pe_last = 3, pe_closing = False\<rparr>],
       p_tps = [\<lparr>tp_entries = [0], tp_creating = 0\<rparr>]\<rparr>, pw_handles = [(0, False)], pw_dials = {#}, pw_waiting = {#},
     pw_opened = {#ConnPtr 7#}, pw_shut = {#}\<rparr>"
  by (simp add: demo_held_def demo_dialing_eq acquire_dialed_def gm_get_Cons Let_def in64_def)

lemma demo_start_reach: "pool_reach demo_pool_cfg demo_start"
  unfolding demo_start_def
  by (rule pool_reach.start) (simp add: new_pool_def pool_normalized_def demo_pool_cfg_def Let_def)

lemma demo_dialing_reach: "pool_reach demo_pool_cfg demo_dialing"
  unfolding demo_dialing_def by (rule pool_reach.event [OF demo_start_reach]) simp

lemma demo_held_reach: "pool_reach demo_pool_cfg demo_held"
  unfolding demo_held_def by (rule pool_reach.event [OF demo_dialing_reach]) (simp add: demo_dialing_eq)

theorem pool_capacity_witness:
  "int (length (tp_entries (p_tps (pw_pool demo_held) ! 0)) + size (filter_mset (\<lambda>d. fst d = ''h'') (pw_dials demo_held)))
    \<le> max_conns (pool_normalized demo_pool_cfg)"
  by (rule pool_capacity [OF demo_held_reach, of "''h''" 0]) (simp add: demo_held_eq gm_get_Cons)

text \<open>
  C9: the reaper never closes a connection in use. While the pool is open, the connection of every
  handle that has not been released was opened by a dial and is not closed, its entry is still
  listed, and the entry's \<open>active\<close> counter is exactly the number of its unreleased handles, however
  often each release function is called.
\<close>

theorem pool_held_open:
  assumes "pool_reach cfg w" "\<not> p_closed (pw_pool w)" "(e, False) \<in> set (pw_handles w)"
  shows "pe_conn (p_heap (pw_pool w) ! e) \<in># pw_opened w \<and> pe_conn (p_heap (pw_pool w) ! e) \<notin># pw_shut w \<and>
    e \<in> live (pw_pool w) \<and> pe_active (p_heap (pw_pool w) ! e) = outstanding (pw_handles w) e"
proof -
  note inv = reach_inv [OF assms(1)] and h = held_open [OF reach_inv [OF assms(1)] assms(2,3)]
  show ?thesis
    using open_not_shut [OF world_invD(7) [OF inv] open_conn_mem [OF h(1,2)]] world_invD(5,6) [OF inv] h(1,2)
    by (auto simp: closing_inv_def active_inv_def)
qed

theorem pool_held_open_witness:
  "pe_conn (p_heap (pw_pool demo_held) ! 0) \<in># pw_opened demo_held \<and> pe_conn (p_heap (pw_pool demo_held) ! 0) \<notin># pw_shut demo_held \<and>
    0 \<in> live (pw_pool demo_held) \<and> pe_active (p_heap (pw_pool demo_held) ! 0) = outstanding (pw_handles demo_held) 0"
  by (rule pool_held_open [OF demo_held_reach]) (simp_all add: demo_held_eq)

text \<open>
  C18: every connection is closed at most once, and after \<open>Close\<close> nothing leaks: what the pool has closed
  is exactly what dials have opened, including the dials that finish after \<open>Close\<close>, and every
  \<open>Acquire\<close> fails.
\<close>

theorem pool_close_exactly_once:
  assumes "pool_reach cfg w"
  shows "filter_mset (\<lambda>c. c \<noteq> NilPtr) (pw_shut w) \<subseteq># pw_opened w \<and> (\<forall>c. count (pw_opened w) c \<le> 1) \<and>
    (p_closed (pw_pool w) \<longrightarrow> filter_mset (\<lambda>c. c \<noteq> NilPtr) (pw_shut w) = pw_opened w \<and>
       (\<forall>t cerr. \<exists>er. fst (acquire_enter t cerr (pw_pool w)) = EnterFail er))"
proof -
  note inv = reach_inv [OF assms]
  have c: "filter_mset (\<lambda>c. c \<noteq> NilPtr) (pw_shut w) + open_conns (p_heap (pw_pool w)) = pw_opened w" "\<forall>c. count (pw_opened w) c \<le> 1"
    using world_invD(7) [OF inv] by (auto simp: conns_inv_def)
  moreover have "filter_mset (\<lambda>c. c \<noteq> NilPtr) (pw_shut w) \<subseteq># pw_opened w"
    unfolding c(1) [symmetric] by simp
  ultimately show ?thesis using all_closing [OF inv] by (auto simp: acquire_enter_def)
qed

definition demo_closed :: pool_world where
  "demo_closed = pool_exec (EvClose [''h''] :: string pool_event) demo_held"

lemma demo_closed_reach: "pool_reach demo_pool_cfg demo_closed"
  unfolding demo_closed_def by (rule pool_reach.event [OF demo_held_reach]) (simp add: demo_held_eq map_order_def)

theorem pool_close_exactly_once_witness:
  "filter_mset (\<lambda>c. c \<noteq> NilPtr) (pw_shut demo_closed) = pw_opened demo_closed \<and> pw_opened demo_closed = {#ConnPtr 7#}"
proof -
  have "p_closed (pw_pool demo_closed)" "pw_opened demo_closed = {#ConnPtr 7#}"
    by (simp_all add: demo_closed_def demo_held_eq close_pool_def close_target_def gm_get_Cons entry_close_def)
  then show ?thesis using pool_close_exactly_once [OF demo_closed_reach] by blast
qed

text \<open>
  C28: no lost wake-up. A caller blocked in \<open>cond.Wait\<close> always has a dial of its own target in flight;
  the end of that dial, whatever its result, wakes every waiter, and a caller woken by it is served,
  dials itself or fails, but does not wait again before another caller intervenes.
\<close>

theorem pool_wait_progress:
  assumes "pool_reach cfg w" "t \<in># pw_waiting w"
  shows "\<exists>a. (t, a) \<in># pw_dials w \<and>
    (\<forall>cn (err :: string option) now cerr. event_ok (EvDialed t a cn err now) w \<longrightarrow>
       pw_waiting (pool_exec (EvDialed t a cn err now) w) = {#} \<and>
       fst (acquire_enter t cerr (pw_pool (pool_exec (EvDialed t a cn err now) w))) \<noteq> EnterWait)"
proof -
  note inv = reach_inv [OF assms(1)]
  obtain a where a: "gm_get (p_targets (pw_pool w)) t = Some a" "int (tp_creating (p_tps (pw_pool w) ! a)) = max_conns (p_cfg (pw_pool w))"
      "\<not> p_closed (pw_pool w)"
    using world_invD(8) [OF inv] assms(2) by (auto simp: waiting_inv_def)
  then have "0 < size (filter_mset (\<lambda>d. fst d = t) (pw_dials w))"
    using creating_dials [OF inv a(1)] world_invD(1) [OF inv] by linarith
  then obtain b where b: "(t, b) \<in># pw_dials w"
    by (metis (mono_tags, lifting) filter_mset_eq_mempty_iff less_irrefl prod.collapse size_empty)
  have "pw_waiting (pool_exec (EvDialed t b cn err now) w) = {#}" for cn now and err :: "string option"
    by (simp split: prod.split)
  then show ?thesis using b settled_no_wait [OF inv] by blast
qed

definition demo_waiting :: pool_world where
  "demo_waiting = pool_exec (EvAcquire ''h'' (None :: string option)) demo_dialing"

theorem pool_wait_progress_witness:
  "\<exists>a. (''h'', a) \<in># pw_dials demo_waiting \<and>
    (\<forall>cn (err :: string option) now cerr. event_ok (EvDialed ''h'' a cn err now) demo_waiting \<longrightarrow>
       pw_waiting (pool_exec (EvDialed ''h'' a cn err now) demo_waiting) = {#} \<and>
       fst (acquire_enter ''h'' cerr (pw_pool (pool_exec (EvDialed ''h'' a cn err now) demo_waiting))) \<noteq> EnterWait)"
proof (rule pool_wait_progress)
  show "pool_reach demo_pool_cfg demo_waiting"
    unfolding demo_waiting_def by (rule pool_reach.event [OF demo_dialing_reach]) simp
  show "''h'' \<in># pw_waiting demo_waiting"
    by (simp add: demo_waiting_def demo_dialing_eq demo_pool_defs gm_get_Cons)
qed

text \<open>
  Which connection is handed out. On an open pool, \<open>Acquire\<close> hands out the open connection of the
  target with the fewest users; it shares a busy one only when no connection is idle and the target
  is at its cap, dials only when no connection is idle and there is room, and waits or reports the
  context's error only when the target has no open connection and no room.
\<close>

theorem pool_choice:
  assumes "t \<noteq> []" "\<not> p_closed p" "gm_get (p_targets p) t = Some a"
  defines "es \<equiv> filter (\<lambda>e. \<not> pe_closing (p_heap p ! e)) (tp_entries (p_tps p ! a))"
    and "room \<equiv> int (length (tp_entries (p_tps p ! a)) + tp_creating (p_tps p ! a)) < max_conns (p_cfg p)"
  shows "case fst (acquire_enter t cerr p) of
      EnterGot e \<Rightarrow> e \<in> set es \<and> (\<forall>d \<in> set es. pe_active (p_heap p ! e) \<le> pe_active (p_heap p ! d)) \<and>
        (pe_active (p_heap p ! e) \<noteq> 0 \<longrightarrow> \<not> room)
    | EnterDial b \<Rightarrow> b = a \<and> room \<and> (\<forall>d \<in> set es. pe_active (p_heap p ! d) \<noteq> 0)
    | EnterWait \<Rightarrow> es = [] \<and> \<not> room \<and> cerr = None
    | EnterFail er \<Rightarrow> es = [] \<and> \<not> room \<and> (\<exists>x. cerr = Some x \<and> er = OtherErr x)"
proof -
  have en: "ensure_target t p = (a, p)" using assms(3) by (simp add: ensure_target_def)
  show ?thesis
    using assms(1,2) en least_active_Some [of "p_heap p" "tp_entries (p_tps p ! a)"]
      least_active_None [of "p_heap p" "tp_entries (p_tps p ! a)"]
    by (auto simp: acquire_enter_def Let_def es_def room_def filter_empty_conv split: option.splits)
qed

theorem pool_choice_witness:
  "case fst (acquire_enter ''h'' (None :: string option) (pw_pool demo_held)) of EnterGot e \<Rightarrow> e = 0 | _ \<Rightarrow> False"
  using pool_choice [of "''h''" "pw_pool demo_held" 0 "None :: string option"]
  by (simp add: demo_held_eq gm_get_Cons demo_pool_cfg_def split: enter_result.splits)

text \<open>
  The in-place compaction of \<open>ReapIdle\<close> is a filter. Although \<open>kept\<close> overwrites the array it ranges
  over, the loop keeps exactly the entries that have not expired, in order, marks exactly the others
  as closing and collects their connections in order.
\<close>

theorem reap_loop_filter:
  assumes "distinct arr" "\<forall>e \<in> set arr. e < length h"
  shows "reap_loop now idle h arr 0 0 [] =
    (let expired = filter (\<lambda>e. entry_expired now idle (h ! e)) arr
     in (map (\<lambda>i. if i \<in> set expired then (h ! i)\<lparr>pe_closing := True\<rparr> else h ! i) [0..<length h],
         filter (\<lambda>e. \<not> entry_expired now idle (h ! e)) arr, map (\<lambda>e. pe_conn (h ! e)) expired))"
proof -
  have "fold entry_close es h = map (\<lambda>i. if i \<in> set es then (h ! i)\<lparr>pe_closing := True\<rparr> else h ! i) [0..<length h]" for es
    by (rule nth_equalityI) (simp_all add: nth_fold_close)
  then show ?thesis using reap_loop_spec [of 0 0 arr h now idle "[]"] assms by (simp add: Let_def)
qed

theorem reap_loop_filter_witness:
  "let h = [\<lparr>pe_conn = ConnPtr 1, pe_active = 0, pe_last = 0, pe_closing = False\<rparr>,
            \<lparr>pe_conn = ConnPtr 2, pe_active = 1, pe_last = 0, pe_closing = False\<rparr>]
   in reap_loop 9 5 h [0, 1] 0 0 [] = ([(h ! 0)\<lparr>pe_closing := True\<rparr>, h ! 1], [1], [ConnPtr 1])"
  using reap_loop_filter [of "[0, 1]" "[\<lparr>pe_conn = ConnPtr 1, pe_active = 0, pe_last = 0, pe_closing = False\<rparr>,
            \<lparr>pe_conn = ConnPtr 2, pe_active = 1, pe_last = 0, pe_closing = False\<rparr>]" 9 5]
  by (simp add: Let_def entry_expired_def time_sub_def upt_rec)

end
