(* ===== verification/Proxy.thy ===== *)
theory Proxy
  imports Rate_Limit Retry Circuit_Breaker Resolver Connection_Pool
begin

text \<open>
  \<^verbatim>\<open>internal/proxy/server.go\<close>: the sidecar's \<open>Invoke\<close>. It validates the request, takes a token of the
  rate limiter and runs the retry loop over \<open>invokeAttempt\<close>, which resolves the target, asks the
  circuit breaker, acquires a connection, calls the upstream and undoes the three in reverse order
  by its deferred calls. The rate limiter, the breakers, the retry loop and its budget are the
  models of \<open>Rate_Limit\<close>, \<open>Circuit_Breaker\<close> and \<open>Retry\<close>.

  The resolver, the connection provider and the dialer are Go interfaces, and the call itself is
  gRPC's: they are arguments (\<open>proxy_deps\<close>), which may let time pass and may change the limiter, the
  breakers and the budget arbitrarily, as other requests do meanwhile. Each request has a log of the
  resources it opened and closed and of the metrics it recorded, which its collaborators cannot reach.
  Tracing is not modelled; the keys that the tracing propagator injects are an argument.
\<close>

section \<open>Errors\<close>

datatype grpc_code = CodeOK | CodeCanceled | CodeUnknown | CodeInvalidArgument | CodeDeadlineExceeded | CodeNotFound
  | CodeAlreadyExists | CodePermissionDenied | CodeResourceExhausted | CodeFailedPrecondition | CodeAborted
  | CodeOutOfRange | CodeUnimplemented | CodeInternal | CodeUnavailable | CodeDataLoss | CodeUnauthenticated

text \<open>
  A Go error: a gRPC status, a context error, an error that wraps one, or any other. The message of a
  status is a text, or a format string with its arguments.
\<close>

datatype go_error = StatusErr grpc_code err_text | ContextErr ctx_error | WrappedErr string ctx_error | PlainErr string
  and err_text = Text string | Fmt string "fmt_arg list"
  and fmt_arg = StrArg string | ErrArg go_error

text \<open>\<open>codes.Code.String\<close>.\<close>

fun code_string :: "grpc_code \<Rightarrow> string" where
  "code_string CodeOK = ''OK''"
| "code_string CodeCanceled = ''Canceled''"
| "code_string CodeUnknown = ''Unknown''"
| "code_string CodeInvalidArgument = ''InvalidArgument''"
| "code_string CodeDeadlineExceeded = ''DeadlineExceeded''"
| "code_string CodeNotFound = ''NotFound''"
| "code_string CodeAlreadyExists = ''AlreadyExists''"
| "code_string CodePermissionDenied = ''PermissionDenied''"
| "code_string CodeResourceExhausted = ''ResourceExhausted''"
| "code_string CodeFailedPrecondition = ''FailedPrecondition''"
| "code_string CodeAborted = ''Aborted''"
| "code_string CodeOutOfRange = ''OutOfRange''"
| "code_string CodeUnimplemented = ''Unimplemented''"
| "code_string CodeInternal = ''Internal''"
| "code_string CodeUnavailable = ''Unavailable''"
| "code_string CodeDataLoss = ''DataLoss''"
| "code_string CodeUnauthenticated = ''Unauthenticated''"

text \<open>\<open>status.Code\<close>, \<open>status.FromError\<close>'s test, \<open>status.FromContextError\<close> and \<open>errors.Is\<close> on a context error.\<close>

definition status_code :: "go_error option \<Rightarrow> grpc_code" where
  "status_code err = (case err of None \<Rightarrow> CodeOK | Some (StatusErr c _) \<Rightarrow> c | Some _ \<Rightarrow> CodeUnknown)"

definition is_status :: "go_error \<Rightarrow> bool" where
  "is_status err = (case err of StatusErr _ _ \<Rightarrow> True | _ \<Rightarrow> False)"

definition from_context_error :: "ctx_error \<Rightarrow> go_error" where
  "from_context_error e =
     (case e of Canceled \<Rightarrow> StatusErr CodeCanceled (Text ''context canceled'')
      | DeadlineExceeded \<Rightarrow> StatusErr CodeDeadlineExceeded (Text ''context deadline exceeded''))"

definition errors_is :: "go_error \<Rightarrow> ctx_error \<Rightarrow> bool" where
  "errors_is err c = (case err of ContextErr d \<Rightarrow> d = c | WrappedErr _ d \<Rightarrow> d = c | _ \<Rightarrow> False)"

section \<open>Requests and configuration\<close>

type_synonym md = "(string, string list) gomap"

record payload =
  pl_data :: "8 word list"

record proxy_request =
  rq_target :: string
  rq_full_method :: string
  rq_payload :: "payload option"
  rq_passthrough :: bool

record proxy_reply =
  rp_payload :: "payload option"
  rp_header :: "md option"
  rp_trailer :: "md option"

record retry_policy =
  pol_attempts :: int
  pol_initial :: int
  pol_max :: int
  pol_codes :: "(grpc_code, bool) gomap option"

record server_config =
  sc_timeout :: int
  sc_retry :: retry_policy
  sc_failure_codes :: "(grpc_code, bool) gomap option"
  sc_metrics :: bool

definition default_server_config :: server_config where
  "default_server_config =
     \<lparr>sc_timeout = 0, sc_retry = \<lparr>pol_attempts = 1, pol_initial = 0, pol_max = 0, pol_codes = None\<rparr>, sc_failure_codes = None,
      sc_metrics = False\<rparr>"

definition normalize_server_config :: "server_config \<Rightarrow> server_config" where
  "normalize_server_config cfg =
     (let cfg = (if sc_timeout cfg < 0 then cfg\<lparr>sc_timeout := 0\<rparr> else cfg);
          r = sc_retry cfg;
          r = (if pol_attempts r \<le> 0 then r\<lparr>pol_attempts := 1\<rparr> else r);
          r = (if pol_initial r < 0 then r\<lparr>pol_initial := 0\<rparr> else r);
          r = (if pol_max r \<le> 0 \<or> pol_max r < pol_initial r then r\<lparr>pol_max := pol_initial r\<rparr> else r);
          r = (if pol_codes r = None then r\<lparr>pol_codes := Some []\<rparr> else r);
          cfg = cfg\<lparr>sc_retry := r\<rparr>
      in if sc_failure_codes cfg = None then cfg\<lparr>sc_failure_codes := Some []\<rparr> else cfg)"

text \<open>Reading a \<open>map[codes.Code]bool\<close>: a missing key, or any key of a nil map, is false.\<close>

definition code_set :: "(grpc_code, bool) gomap option \<Rightarrow> grpc_code \<Rightarrow> bool" where
  "code_set m c = (case m of None \<Rightarrow> False | Some m \<Rightarrow> gm_get m c = Some True)"

definition is_retryable :: "server_config \<Rightarrow> go_error option \<Rightarrow> bool" where
  "is_retryable cfg err = (if err = None then False else code_set (pol_codes (sc_retry cfg)) (status_code err))"

definition is_circuit_failure :: "server_config \<Rightarrow> go_error option \<Rightarrow> bool" where
  "is_circuit_failure cfg err = (if err = None then False else code_set (sc_failure_codes cfg) (status_code err))"

definition service_prefix :: string where
  "service_prefix = ''service://''"

definition service_from_target :: "string \<Rightarrow> string" where
  "service_from_target target =
     (if \<not> has_prefix target service_prefix then [] else trim_space (trim_prefix target service_prefix))"

definition validate :: "proxy_request option \<Rightarrow> go_error option" where
  "validate req =
     (case req of
        None \<Rightarrow> Some (StatusErr CodeInvalidArgument (Text ''proxy request is required''))
      | Some r \<Rightarrow>
          (if trim_space (rq_target r) = [] then Some (StatusErr CodeInvalidArgument (Text ''target is required''))
           else if \<not> has_prefix (rq_full_method r) ''/'' \<or> count_list (rq_full_method r) (CHR ''/'') < 2
           then Some (StatusErr CodeInvalidArgument
                  (Text ''full_method must be a canonical gRPC method such as /package.Service/Method''))
           else if rq_payload r = None then Some (StatusErr CodeInvalidArgument (Text ''payload is required''))
           else None))"

definition map_dial_error :: "ctx_error option \<Rightarrow> go_error \<Rightarrow> go_error" where
  "map_dial_error cerr err =
     (if cerr = Some DeadlineExceeded \<or> errors_is err DeadlineExceeded
      then StatusErr CodeDeadlineExceeded (Text ''backend dial deadline exceeded'')
      else if cerr = Some Canceled \<or> errors_is err Canceled
      then StatusErr CodeCanceled (Text ''backend dial canceled'')
      else StatusErr CodeUnavailable (Fmt ''backend unavailable: %v'' [ErrArg err]))"

definition map_upstream_error :: "go_error \<Rightarrow> go_error" where
  "map_upstream_error err =
     (if is_status err then err else StatusErr CodeUnknown (Fmt ''backend invocation failed: %v'' [ErrArg err]))"

section \<open>Metadata and the codec\<close>

definition is_reserved_metadata :: "string \<Rightarrow> bool" where
  "is_reserved_metadata key \<longleftrightarrow>
     (if has_prefix key '':'' \<or> has_prefix key ''grpc-'' then True
      else key \<in> {''content-type'', ''te'', ''user-agent''})"

text \<open>\<open>metadata.MD\<close>'s \<open>Get\<close> and \<open>Set\<close> under the carrier: keys are lower case (their ASCII letters).\<close>

definition to_lower :: "string \<Rightarrow> string" where
  "to_lower s = map (\<lambda>c. if 65 \<le> (of_char c :: nat) \<and> (of_char c :: nat) \<le> 90 then char_of ((of_char c :: nat) + 32) else c) s"

definition carrier_get :: "string \<Rightarrow> md \<Rightarrow> string" where
  "carrier_get key m = (case gm_get m (to_lower key) of None \<Rightarrow> [] | Some [] \<Rightarrow> [] | Some (v # _) \<Rightarrow> v)"

definition carrier_set :: "string \<times> string \<Rightarrow> md \<Rightarrow> md" where
  "carrier_set kv m = gm_set (to_lower (fst kv)) [snd kv] m"

definition carrier_keys :: "md \<Rightarrow> string list" where
  "carrier_keys m = map fst m"

text \<open>
  \<open>copyIncomingMetadata\<close>: the outgoing metadata, \<^term>\<open>None\<close> when the call carries none. \<open>inject\<close> is what
  the propagator sets. Keys are deleted from the map while it is ranged over.
\<close>

definition copy_incoming_metadata :: "(string \<times> string) list \<Rightarrow> md option \<Rightarrow> md option" where
  "copy_incoming_metadata inject incoming =
     (case incoming of
        None \<Rightarrow> None
      | Some m \<Rightarrow>
          (let outgoing = fold (\<lambda>key out. if is_reserved_metadata key then gm_del key out else out) (carrier_keys m) m
           in Some (fold carrier_set inject outgoing)))"

text \<open>The passthrough codec on a value that is a payload, or is not one (or nil).\<close>

definition passthrough_marshal :: "payload option \<Rightarrow> go_error + 8 word list" where
  "passthrough_marshal v =
     (case v of None \<Rightarrow> Inl (PlainErr ''passthrough codec requires *Payload, got %T'') | Some p \<Rightarrow> Inr (pl_data p))"

definition passthrough_unmarshal :: "8 word list \<Rightarrow> payload option \<Rightarrow> go_error + payload" where
  "passthrough_unmarshal data v =
     (case v of None \<Rightarrow> Inl (PlainErr ''passthrough codec requires *Payload, got %T'')
      | Some p \<Rightarrow> Inr (p\<lparr>pl_data := take 0 (pl_data p) @ data\<rparr>))"

definition propagate_metadata :: "md \<Rightarrow> md \<Rightarrow> payload option \<Rightarrow> proxy_reply" where
  "propagate_metadata header trailer response =
     \<lparr>rp_payload = response, rp_header = (if 0 < length header then Some header else None),
      rp_trailer = (if 0 < length trailer then Some trailer else None)\<rparr>"

section \<open>Collaborators and the request's log\<close>

record 'w shared =
  sh_limiter :: "local_rate_limiter option"
  sh_breakers :: "breaker_set option"
  sh_rest :: 'w

type_synonym 'w env = "'w shared do_state"

datatype ('w, 'd) resolver_dep =
    NoResolver
  | PlainResolver "string \<Rightarrow> 'w env \<Rightarrow> (string + string) \<times> 'w env"
  | PickerResolver "string \<Rightarrow> 'w env \<Rightarrow> (string + string \<times> 'd option) \<times> 'w env" "'d \<Rightarrow> 'w env \<Rightarrow> 'w env"

datatype ('w, 'h) conn_dep =
    Dialer "go_context \<Rightarrow> string \<Rightarrow> 'w env \<Rightarrow> (go_error + 'h) \<times> 'w env" "'h \<Rightarrow> 'w env \<Rightarrow> 'w env"
  | PlainPool "go_context \<Rightarrow> string \<Rightarrow> 'w env \<Rightarrow> (go_error + 'h) \<times> 'w env" "'h \<Rightarrow> 'w env \<Rightarrow> 'w env"
  | ServicePool "go_context \<Rightarrow> string \<Rightarrow> string \<Rightarrow> 'w env \<Rightarrow> (go_error + 'h) \<times> 'w env" "'h \<Rightarrow> 'w env \<Rightarrow> 'w env"

record ('w, 'd, 'h) proxy_deps =
  dep_resolver :: "('w, 'd) resolver_dep"
  dep_conns :: "('w, 'h) conn_dep"
  dep_call :: "go_context \<Rightarrow> 'h \<Rightarrow> md option \<Rightarrow> string \<Rightarrow> bool \<Rightarrow> payload option \<Rightarrow> 'w env \<Rightarrow>
    ((go_error + payload) \<times> md \<times> md) \<times> 'w env"

text \<open>What a request adds to the metrics: the labels of a counter, and an observed duration.\<close>

datatype metric =
    RequestTotal string string string | RequestDuration string string string float64
  | RetryTotal string string | CircuitBreakerTotal string string | RateLimitRejected string string

datatype ('d, 'h) action =
    Picked 'd | DoneCalled 'd
  | Permitted circuit_permit | Completed circuit_permit bool
  | Acquired 'h | Released 'h
  | Called 'h string
  | Attempted int | Counted metric

type_synonym ('w, 'd, 'h) pstate = "('w shared \<times> ('d, 'h) action list) do_state"

definition env_of :: "('w, 'd, 'h) pstate \<Rightarrow> 'w env" where
  "env_of st = \<lparr>ds_now = ds_now st, ds_budget = ds_budget st, ds_world = fst (ds_world st)\<rparr>"

definition put_env :: "'w env \<Rightarrow> ('w, 'd, 'h) pstate \<Rightarrow> ('w, 'd, 'h) pstate" where
  "put_env e st = \<lparr>ds_now = ds_now e, ds_budget = ds_budget e, ds_world = (ds_world e, snd (ds_world st))\<rparr>"

definition act :: "('d, 'h) action \<Rightarrow> ('w, 'd, 'h) pstate \<Rightarrow> ('w, 'd, 'h) pstate" where
  "act a st = st\<lparr>ds_world := (fst (ds_world st), snd (ds_world st) @ [a])\<rparr>"

text \<open>Recording a metric, if the server has any.\<close>

definition count_metric :: "server_config \<Rightarrow> metric \<Rightarrow> ('w, 'd, 'h) pstate \<Rightarrow> ('w, 'd, 'h) pstate" where
  "count_metric cfg m st = (if sc_metrics cfg then act (Counted m) st else st)"

abbreviation req_log :: "('w, 'd, 'h) pstate \<Rightarrow> ('d, 'h) action list" where
  "req_log st \<equiv> snd (ds_world st)"

section \<open>One attempt\<close>

definition resolve_target ::
  "('w, 'd) resolver_dep \<Rightarrow> string \<Rightarrow> ('w, 'd, 'h) pstate \<Rightarrow> (go_error + string \<times> 'd option) \<times> ('w, 'd, 'h) pstate" where
  "resolve_target res target st =
     (if \<not> has_prefix target service_prefix then (Inr (target, None), st)
      else
        (let service = trim_space (trim_prefix target service_prefix)
         in if service = [] then (Inl (StatusErr CodeInvalidArgument (Text ''service target is empty'')), st)
            else case res of
                NoResolver \<Rightarrow> (Inl (StatusErr CodeFailedPrecondition (Text ''service discovery is not configured'')), st)
              | PickerResolver pick _ \<Rightarrow>
                  (case pick service (env_of st) of
                     (Inl err, e) \<Rightarrow>
                       (Inl (StatusErr CodeUnavailable (Fmt ''no endpoint for service %q: %v'' [StrArg service, StrArg err])), put_env e st)
                   | (Inr (address, None), e) \<Rightarrow> (Inr (address, None), put_env e st)
                   | (Inr (address, Some d), e) \<Rightarrow> (Inr (address, Some d), act (Picked d) (put_env e st)))
              | PlainResolver resolve \<Rightarrow>
                  (case resolve service (env_of st) of
                     (Inl err, e) \<Rightarrow>
                       (Inl (StatusErr CodeUnavailable (Fmt ''no endpoint for service %q: %v'' [StrArg service, StrArg err])), put_env e st)
                   | (Inr address, e) \<Rightarrow> (Inr (address, None), put_env e st))))"

text \<open>The deferred \<open>done()\<close>; only a picker returns one that does anything.\<close>

definition call_done :: "('w, 'd) resolver_dep \<Rightarrow> 'd option \<Rightarrow> ('w, 'd, 'h) pstate \<Rightarrow> ('w, 'd, 'h) pstate" where
  "call_done res fin st =
     (case (fin, res) of
        (Some d, PickerResolver _ finish) \<Rightarrow> act (DoneCalled d) (put_env (finish d (env_of st)) st)
      | _ \<Rightarrow> st)"

text \<open>The upstream call on a connection.\<close>

definition attempt_call ::
  "('w, 'd, 'h) proxy_deps \<Rightarrow> (string \<times> string) list \<Rightarrow> md option \<Rightarrow> go_context \<Rightarrow> proxy_request \<Rightarrow> 'h \<Rightarrow>
   ('w, 'd, 'h) pstate \<Rightarrow> (go_error + payload \<times> md \<times> md) \<times> ('w, 'd, 'h) pstate" where
  "attempt_call deps inject incoming ctx req h st =
     (let outgoing = copy_incoming_metadata inject incoming;
          ((r, header, trailer), e) =
            dep_call deps ctx h outgoing (rq_full_method req) (rq_passthrough req) (rq_payload req) (env_of st);
          st = act (Called h (rq_full_method req)) (put_env e st)
      in case r of
           Inl err \<Rightarrow> (Inl (map_upstream_error err), st)
         | Inr response \<Rightarrow> (Inr (response, header, trailer), st))"

definition acquire_conn ::
  "('w, 'h) conn_dep \<Rightarrow> go_context \<Rightarrow> string \<Rightarrow> string \<Rightarrow> 'w env \<Rightarrow> (go_error + 'h) \<times> 'w env" where
  "acquire_conn conns ctx target service e =
     (case conns of
        ServicePool acquire _ \<Rightarrow> acquire ctx target service e
      | PlainPool acquire _ \<Rightarrow> acquire ctx target e
      | Dialer dial _ \<Rightarrow> dial ctx target e)"

text \<open>The deferred \<open>release()\<close> of a pool, or \<open>conn.Close()\<close>.\<close>

definition release_conn :: "('w, 'h) conn_dep \<Rightarrow> 'h \<Rightarrow> 'w env \<Rightarrow> 'w env" where
  "release_conn conns h e =
     (case conns of ServicePool _ release \<Rightarrow> release h e | PlainPool _ release \<Rightarrow> release h e | Dialer _ close \<Rightarrow> close h e)"

definition attempt_connected ::
  "('w, 'd, 'h) proxy_deps \<Rightarrow> (string \<times> string) list \<Rightarrow> md option \<Rightarrow> go_context \<Rightarrow> proxy_request \<Rightarrow> string \<Rightarrow>
   ('w, 'd, 'h) pstate \<Rightarrow> (go_error + payload \<times> md \<times> md) \<times> ('w, 'd, 'h) pstate" where
  "attempt_connected deps inject incoming ctx req target st =
     (case acquire_conn (dep_conns deps) ctx target (service_from_target (rq_target req)) (env_of st) of
        (Inl err, e) \<Rightarrow> (Inl (map_dial_error (ctx_err ctx (ds_now e)) err), put_env e st)
      | (Inr h, e) \<Rightarrow>
          (let (r, st) = attempt_call deps inject incoming ctx req h (act (Acquired h) (put_env e st))
           in (r, act (Released h) (put_env (release_conn (dep_conns deps) h (env_of st)) st))))"

definition result_err :: "'e + 'a \<Rightarrow> 'e option" where
  "result_err r = (case r of Inl e \<Rightarrow> Some e | Inr _ \<Rightarrow> None)"

definition put_breakers :: "breaker_set option \<Rightarrow> ('w, 'd, 'h) pstate \<Rightarrow> ('w, 'd, 'h) pstate" where
  "put_breakers b st = st\<lparr>ds_world := ((fst (ds_world st))\<lparr>sh_breakers := b\<rparr>, snd (ds_world st))\<rparr>"

definition complete_permit :: "circuit_permit \<Rightarrow> bool \<Rightarrow> ('w, 'd, 'h) pstate \<Rightarrow> ('w, 'd, 'h) pstate" where
  "complete_permit p success st =
     act (Completed p success)
       (put_breakers (map_option (\<lambda>s. snd (permit_done p success (ds_now st) s)) (sh_breakers (fst (ds_world st)))) st)"

definition attempt_guarded ::
  "('w, 'd, 'h) proxy_deps \<Rightarrow> server_config \<Rightarrow> (string \<times> string) list \<Rightarrow> md option \<Rightarrow> go_context \<Rightarrow> proxy_request \<Rightarrow> string \<Rightarrow>
   ('w, 'd, 'h) pstate \<Rightarrow> (go_error + payload \<times> md \<times> md) \<times> ('w, 'd, 'h) pstate" where
  "attempt_guarded deps cfg inject incoming ctx req target st =
     (if sh_breakers (fst (ds_world st)) = None then attempt_connected deps inject incoming ctx req target st
      else case set_allow target (ds_now st) (sh_breakers (fst (ds_world st))) of
          (Inl ErrCircuitOpen, b) \<Rightarrow>
            (Inl (StatusErr CodeUnavailable (Fmt ''circuit breaker open for upstream %q'' [StrArg target])),
             count_metric cfg (CircuitBreakerTotal (service_from_target (rq_target req)) ''open_rejected'') (put_breakers b st))
        | (Inl ErrEmptyBreakerKey, b) \<Rightarrow>
            (Inl (StatusErr CodeInternal (Fmt ''circuit breaker check failed: %v'' [ErrArg (PlainErr ''circuit breaker key is empty'')])),
             put_breakers b st)
        | (Inr permit, b) \<Rightarrow>
            (let (r, st) = attempt_connected deps inject incoming ctx req target (act (Permitted permit) (put_breakers b st))
             in (r, complete_permit permit (\<not> is_circuit_failure cfg (result_err r)) st)))"

definition invoke_attempt ::
  "('w, 'd, 'h) proxy_deps \<Rightarrow> server_config \<Rightarrow> (string \<times> string) list \<Rightarrow> md option \<Rightarrow> go_context \<Rightarrow> proxy_request \<Rightarrow>
   ('w, 'd, 'h) pstate \<Rightarrow> (go_error + payload \<times> md \<times> md) \<times> ('w, 'd, 'h) pstate" where
  "invoke_attempt deps cfg inject incoming ctx req st =
     (case resolve_target (dep_resolver deps) (rq_target req) st of
        (Inl err, st) \<Rightarrow> (Inl err, st)
      | (Inr (target, fin), st) \<Rightarrow>
          (let (r, st) = attempt_guarded deps cfg inject incoming ctx req target st
           in (r, call_done (dep_resolver deps) fin st)))"

section \<open>Invoke\<close>

text \<open>\<open>context.WithTimeout\<close>: done when the parent is, or at the deadline.\<close>

definition with_timeout :: "int \<Rightarrow> int \<Rightarrow> go_context \<Rightarrow> go_context" where
  "with_timeout now d ctx =
     (case done_at ctx of
        Some c \<Rightarrow> if c \<le> now + d then ctx else \<lparr>done_at = Some (now + d), done_err = DeadlineExceeded\<rparr>
      | None \<Rightarrow> \<lparr>done_at = Some (now + d), done_err = DeadlineExceeded\<rparr>)"

definition request_context :: "server_config \<Rightarrow> int \<Rightarrow> go_context \<Rightarrow> go_context" where
  "request_context cfg now ctx = (if 0 < sc_timeout cfg then with_timeout now (sc_timeout cfg) ctx else ctx)"

definition do_go_error :: "go_error do_error \<Rightarrow> go_error" where
  "do_go_error e = (case e of FnErr e \<Rightarrow> e | CtxErr c \<Rightarrow> ContextErr c)"

definition limit_request ::
  "string \<Rightarrow> string \<Rightarrow> ('w, 'd, 'h) pstate \<Rightarrow> bool \<times> ('w, 'd, 'h) pstate" where
  "limit_request service full_method st =
     (let (ok, l) = limiter_allow service full_method (ds_now st) (sh_limiter (fst (ds_world st)))
      in (ok, st\<lparr>ds_world := ((fst (ds_world st))\<lparr>sh_limiter := l\<rparr>, snd (ds_world st))\<rparr>))"

text \<open>The function given to the retry loop: an attempt after the first is counted as a retry.\<close>

definition invoke_retry ::
  "('w, 'd, 'h) proxy_deps \<Rightarrow> server_config \<Rightarrow> (string \<times> string) list \<Rightarrow> md option \<Rightarrow> go_context \<Rightarrow> proxy_request \<Rightarrow> int \<Rightarrow>
   ('w, 'd, 'h) pstate \<Rightarrow> (go_error + payload \<times> md \<times> md) \<times> ('w, 'd, 'h) pstate" where
  "invoke_retry deps cfg inject incoming ctx req attempt st =
     (let st = act (Attempted attempt) st;
          st = (if 1 < attempt then count_metric cfg (RetryTotal (service_from_target (rq_target req)) (rq_full_method req)) st else st)
      in invoke_attempt deps cfg inject incoming ctx req st)"

definition invoke_body ::
  "('w, 'd, 'h) proxy_deps \<Rightarrow> server_config \<Rightarrow> (string \<times> string) list \<Rightarrow> md option \<Rightarrow> go_context \<Rightarrow> (int \<Rightarrow> bool) \<Rightarrow>
   proxy_request option \<Rightarrow> ('w, 'd, 'h) pstate \<Rightarrow> (go_error + proxy_reply) \<times> ('w, 'd, 'h) pstate" where
  "invoke_body deps cfg inject incoming ctx ties request st =
     (case (validate request, request) of
        (Some err, _) \<Rightarrow> (Inl err, st)
      | (None, None) \<Rightarrow> (Inl (PlainErr ''nil request''), st)
      | (None, Some req) \<Rightarrow>
          (let service = service_from_target (rq_target req);
               (ok, st) = limit_request service (rq_full_method req) st
           in if \<not> ok
              then (Inl (StatusErr CodeResourceExhausted
                      (Fmt ''local rate limit exceeded for service %q method %q'' [StrArg service, StrArg (rq_full_method req)])),
                    count_metric cfg (RateLimitRejected service (rq_full_method req)) st)
              else
                (let request_ctx = request_context cfg (ds_now st) ctx;
                     pol = sc_retry cfg;
                     (result, st) =
                       retry_do request_ctx
                         \<lparr>dc_retry = \<lparr>max_attempts = pol_attempts pol, initial_backoff = pol_initial pol, max_backoff = pol_max pol\<rparr>,
                          dc_retryable = Some (\<lambda>e. is_retryable cfg (Some e))\<rparr>
                         ties (invoke_retry deps cfg inject incoming request_ctx req) st
                 in case result of
                      Inl (Some err) \<Rightarrow>
                        (case ctx_err request_ctx (ds_now st) of
                           Some c \<Rightarrow> (Inl (from_context_error c), st)
                         | None \<Rightarrow> (Inl (do_go_error err), st))
                    | Inl None \<Rightarrow> (Inr (propagate_metadata [] [] None), st)
                    | Inr (response, header, trailer) \<Rightarrow> (Inr (propagate_metadata header trailer (Some response)), st))))"

text \<open>The labels of a request, and \<open>Invoke\<close> with its deferred function, which counts the request by its final status.\<close>

definition request_labels :: "proxy_request option \<Rightarrow> string \<times> string" where
  "request_labels request =
     (case request of None \<Rightarrow> ([], []) | Some req \<Rightarrow> (service_from_target (rq_target req), rq_full_method req))"

definition count_request ::
  "server_config \<Rightarrow> proxy_request option \<Rightarrow> int \<Rightarrow> go_error option \<Rightarrow> ('w, 'd, 'h) pstate \<Rightarrow> ('w, 'd, 'h) pstate" where
  "count_request cfg request started err st =
     (let (service, meth) = request_labels request; code = code_string (status_code err)
      in count_metric cfg (RequestDuration service meth code (seconds (time_sub (ds_now st) started)))
           (count_metric cfg (RequestTotal service meth code) st))"

definition invoke ::
  "('w, 'd, 'h) proxy_deps \<Rightarrow> server_config \<Rightarrow> (string \<times> string) list \<Rightarrow> md option \<Rightarrow> go_context \<Rightarrow> (int \<Rightarrow> bool) \<Rightarrow>
   proxy_request option \<Rightarrow> ('w, 'd, 'h) pstate \<Rightarrow> (go_error + proxy_reply) \<times> ('w, 'd, 'h) pstate" where
  "invoke deps cfg inject incoming ctx ties request st =
     (case invoke_body deps cfg inject incoming ctx ties request st of
        (out, st') \<Rightarrow> (out, count_request cfg request (ds_now st) (result_err out) st'))"

text \<open>The constructors; a nil dialer or pool panics. The default dialer is gRPC's.\<close>

type_synonym ('w, 'd, 'h) server = "('w, 'd) resolver_dep \<times> ('w, 'h) conn_dep \<times> server_config"

definition new_server_with_resolver_dialer_and_config ::
  "('w, 'd) resolver_dep \<Rightarrow> ('w, 'h) conn_dep option \<Rightarrow> server_config \<Rightarrow> string + ('w, 'd, 'h) server" where
  "new_server_with_resolver_dialer_and_config res dial cfg =
     (case dial of None \<Rightarrow> Inl ''proxy: nil dialer'' | Some d \<Rightarrow> Inr (res, d, normalize_server_config cfg))"

definition new_server_with_resolver_pool_and_config ::
  "('w, 'd) resolver_dep \<Rightarrow> ('w, 'h) conn_dep option \<Rightarrow> server_config \<Rightarrow> string + ('w, 'd, 'h) server" where
  "new_server_with_resolver_pool_and_config res pool cfg =
     (case pool of None \<Rightarrow> Inl ''proxy: nil connection pool'' | Some p \<Rightarrow> Inr (res, p, normalize_server_config cfg))"

definition new_server :: "('w, 'h) conn_dep \<Rightarrow> string + ('w, 'd, 'h) server" where
  "new_server default_dialer = new_server_with_resolver_dialer_and_config NoResolver (Some default_dialer) default_server_config"

definition new_server_with_dialer :: "('w, 'h) conn_dep option \<Rightarrow> string + ('w, 'd, 'h) server" where
  "new_server_with_dialer dial = new_server_with_resolver_dialer_and_config NoResolver dial default_server_config"

definition new_server_with_resolver :: "('w, 'h) conn_dep \<Rightarrow> ('w, 'd) resolver_dep \<Rightarrow> string + ('w, 'd, 'h) server" where
  "new_server_with_resolver default_dialer res =
     new_server_with_resolver_dialer_and_config res (Some default_dialer) default_server_config"

definition new_server_with_resolver_and_config ::
  "('w, 'h) conn_dep \<Rightarrow> ('w, 'd) resolver_dep \<Rightarrow> server_config \<Rightarrow> string + ('w, 'd, 'h) server" where
  "new_server_with_resolver_and_config default_dialer res cfg =
     new_server_with_resolver_dialer_and_config res (Some default_dialer) cfg"

definition new_server_with_resolver_and_dialer ::
  "('w, 'd) resolver_dep \<Rightarrow> ('w, 'h) conn_dep option \<Rightarrow> string + ('w, 'd, 'h) server" where
  "new_server_with_resolver_and_dialer res dial = new_server_with_resolver_dialer_and_config res dial default_server_config"

definition new_server_with_resolver_and_pool ::
  "('w, 'd) resolver_dep \<Rightarrow> ('w, 'h) conn_dep option \<Rightarrow> string + ('w, 'd, 'h) server" where
  "new_server_with_resolver_and_pool res pool = new_server_with_resolver_pool_and_config res pool default_server_config"

section \<open>The discipline of a log\<close>

text \<open>
  The resources a request holds form a stack: each is given back once, the most recent first, and the
  upstream is called only on the connection held on top.
\<close>

datatype ('d, 'h) held = HDone 'd | HPermit circuit_permit | HConn 'h

fun hold :: "('d, 'h) action \<Rightarrow> ('d, 'h) held list \<Rightarrow> ('d, 'h) held list option" where
  "hold (Picked d) hs = Some (HDone d # hs)"
| "hold (Permitted p) hs = Some (HPermit p # hs)"
| "hold (Acquired h) hs = Some (HConn h # hs)"
| "hold (DoneCalled d) (HDone e # hs) = (if d = e then Some hs else None)"
| "hold (Completed p ok) (HPermit q # hs) = (if p = q then Some hs else None)"
| "hold (Released h) (HConn g # hs) = (if h = g then Some hs else None)"
| "hold (Called h m) (HConn g # hs) = (if h = g then Some (HConn g # hs) else None)"
| "hold (Attempted n) hs = Some hs"
| "hold (Counted m) hs = Some hs"
| "hold _ _ = None"

fun holds :: "('d, 'h) action list \<Rightarrow> ('d, 'h) held list \<Rightarrow> ('d, 'h) held list option" where
  "holds [] hs = Some hs"
| "holds (a # as) hs = (case hold a hs of None \<Rightarrow> None | Some hs \<Rightarrow> holds as hs)"

definition upstream_calls :: "('d, 'h) action list \<Rightarrow> nat" where
  "upstream_calls as = length (filter (\<lambda>a. case a of Called _ _ \<Rightarrow> True | _ \<Rightarrow> False) as)"

text \<open>The attempts and the metrics of a log.\<close>

definition attempts_of :: "('d, 'h) action list \<Rightarrow> int list" where
  "attempts_of as = concat (map (\<lambda>a. case a of Attempted n \<Rightarrow> [n] | _ \<Rightarrow> []) as)"

definition metrics_of :: "('d, 'h) action list \<Rightarrow> metric list" where
  "metrics_of as = concat (map (\<lambda>a. case a of Counted m \<Rightarrow> [m] | _ \<Rightarrow> []) as)"

lemma log_parts [simp]:
  "attempts_of [] = []" "attempts_of (as @ bs) = attempts_of as @ attempts_of bs"
  "attempts_of (a # as) = (case a of Attempted n \<Rightarrow> [n] | _ \<Rightarrow> []) @ attempts_of as"
  "metrics_of [] = []" "metrics_of (as @ bs) = metrics_of as @ metrics_of bs"
  "metrics_of (a # as) = (case a of Counted m \<Rightarrow> [m] | _ \<Rightarrow> []) @ metrics_of as"
  by (simp_all add: attempts_of_def metrics_of_def)

lemma holds_append: "holds (as @ bs) hs = (case holds as hs of None \<Rightarrow> None | Some hs \<Rightarrow> holds bs hs)"
  by (induction as arbitrary: hs) (auto split: option.split)

lemma upstream_calls_simps [simp]:
  "upstream_calls [] = 0" "upstream_calls (as @ bs) = upstream_calls as + upstream_calls bs"
  "upstream_calls (Called h m # as) = Suc (upstream_calls as)"
  "upstream_calls (Picked d # as) = upstream_calls as" "upstream_calls (DoneCalled d # as) = upstream_calls as"
  "upstream_calls (Permitted p # as) = upstream_calls as" "upstream_calls (Completed p ok # as) = upstream_calls as"
  "upstream_calls (Acquired h # as) = upstream_calls as" "upstream_calls (Released h # as) = upstream_calls as"
  "upstream_calls (Attempted n # as) = upstream_calls as" "upstream_calls (Counted x # as) = upstream_calls as"
  by (simp_all add: upstream_calls_def)

lemma log_simps [simp]:
  "req_log (put_env e st) = req_log st" "req_log (act a st) = req_log st @ [a]" "req_log (put_breakers b st) = req_log st"
  "req_log (count_metric cfg m st) = req_log st @ (if sc_metrics cfg then [Counted m] else [])"
  "env_of (act a st) = env_of st" "env_of (count_metric cfg m st) = env_of st" "ds_now (count_metric cfg m st) = ds_now st"
  by (simp_all add: put_env_def act_def put_breakers_def count_metric_def env_of_def)

text \<open>
  A part of a log that leaves the stack as it was, calls the upstream at most once and counts at most
  refusals of the circuit breaker.
\<close>

definition neutral :: "string \<Rightarrow> bool \<Rightarrow> ('d, 'h) action list \<Rightarrow> bool" where
  "neutral service metered as \<longleftrightarrow>
     (\<forall>hs. holds as hs = Some hs) \<and> upstream_calls as \<le> 1 \<and> attempts_of as = [] \<and>
     set (metrics_of as) \<subseteq> (if metered then {CircuitBreakerTotal service ''open_rejected''} else {})"

lemma neutral_Nil [simp]: "neutral service metered []"
  by (simp add: neutral_def)

lemma neutral_wrap:
  assumes "neutral service metered as"
  shows "neutral service metered ([Permitted p] @ as @ [Completed p ok])" "neutral service metered ([Picked d] @ as @ [DoneCalled d])"
    "neutral service metered [Acquired h, Called h m, Released h]"
  using assms by (simp_all add: neutral_def holds_append)

lemma connected_log:
  assumes "attempt_connected deps inject incoming ctx req target st = (r, st')"
  shows "\<exists>as. req_log st' = req_log st @ as \<and> neutral service metered as \<and> (\<forall>e. r = Inl e \<longrightarrow> is_status e)"
proof -
  have status: "is_status (map_dial_error c e)" "is_status (map_upstream_error e)" for c e
    by (simp_all add: is_status_def map_dial_error_def map_upstream_error_def)
  obtain x e where a: "acquire_conn (dep_conns deps) ctx target (service_from_target (rq_target req)) (env_of st) = (x, e)"
    by fastforce
  show ?thesis
  proof (cases x)
    case (Inl err)
    then show ?thesis using assms a status by (auto simp: attempt_connected_def intro!: exI [of _ "[]"])
  next
    case (Inr h)
    then show ?thesis using assms a status neutral_wrap(3) [of service metered "[]" h "rq_full_method req"]
      by (auto simp: attempt_connected_def attempt_call_def Let_def split: prod.splits sum.splits)
  qed
qed

lemma guarded_log:
  assumes "attempt_guarded deps cfg inject incoming ctx req target st = (r, st')"
  shows "\<exists>as. req_log st' = req_log st @ as \<and> neutral (service_from_target (rq_target req)) (sc_metrics cfg) as \<and> (\<forall>e. r = Inl e \<longrightarrow> is_status e)"
proof (cases "sh_breakers (fst (ds_world st)) = None")
  case True
  then show ?thesis using assms connected_log by (simp add: attempt_guarded_def)
next
  case False
  obtain x b where a: "set_allow target (ds_now st) (sh_breakers (fst (ds_world st))) = (x, b)" by fastforce
  show ?thesis
  proof (cases x)
    case (Inl err)
    then show ?thesis using assms a False
      by (cases err) (auto simp: attempt_guarded_def is_status_def neutral_def)
  next
    case (Inr p)
    let ?st = "act (Permitted p) (put_breakers b st)"
    obtain r1 st1 where c: "attempt_connected deps inject incoming ctx req target ?st = (r1, st1)" by fastforce
    obtain as where as: "req_log st1 = req_log ?st @ as" "neutral (service_from_target (rq_target req)) (sc_metrics cfg) as" "\<forall>e. r1 = Inl e \<longrightarrow> is_status e"
      using connected_log [OF c] by blast
    have "r = r1" "req_log st' = req_log st @ ([Permitted p] @ as @ [Completed p (\<not> is_circuit_failure cfg (result_err r1))])"
      using assms a False Inr c as(1) by (auto simp: attempt_guarded_def complete_permit_def)
    then show ?thesis using neutral_wrap(1) [OF as(2)] as(3) by blast
  qed
qed

lemma resolve_log:
  assumes "resolve_target res target st = (r, st')"
  shows "case r of Inl e \<Rightarrow> req_log st' = req_log st \<and> is_status e
    | Inr (_, None) \<Rightarrow> req_log st' = req_log st
    | Inr (_, Some d) \<Rightarrow> req_log st' = req_log st @ [Picked d] \<and> (\<exists>pick fin. res = PickerResolver pick fin)"
  using assms by (auto simp: resolve_target_def is_status_def Let_def split: if_splits resolver_dep.splits prod.splits sum.splits option.splits)

lemma attempt_log:
  assumes "invoke_attempt deps cfg inject incoming ctx req st = (r, st')"
  shows "\<exists>as. req_log st' = req_log st @ as \<and> neutral (service_from_target (rq_target req)) (sc_metrics cfg) as \<and> (\<forall>e. r = Inl e \<longrightarrow> is_status e)"
proof -
  obtain x st1 where a: "resolve_target (dep_resolver deps) (rq_target req) st = (x, st1)" by fastforce
  note res = resolve_log [OF a]
  show ?thesis
  proof (cases x)
    case (Inl err)
    then show ?thesis using assms a res by (auto simp: invoke_attempt_def intro!: exI [of _ "[]"])
  next
    case (Inr y)
    obtain target fin where y: "y = (target, fin)" by fastforce
    obtain r1 st2 where g: "attempt_guarded deps cfg inject incoming ctx req target st1 = (r1, st2)" by fastforce
    obtain as where as: "req_log st2 = req_log st1 @ as" "neutral (service_from_target (rq_target req)) (sc_metrics cfg) as" "\<forall>e. r1 = Inl e \<longrightarrow> is_status e"
      using guarded_log [OF g] by blast
    have eq: "r = r1" "st' = call_done (dep_resolver deps) fin st2" using assms a Inr y g by (auto simp: invoke_attempt_def)
    show ?thesis
    proof (cases fin)
      case None
      then show ?thesis using eq res as Inr y by (auto simp: call_done_def)
    next
      case (Some d)
      then have "req_log st' = req_log st @ ([Picked d] @ as @ [DoneCalled d])"
        using eq res as(1) Inr y by (auto simp: call_done_def)
      then show ?thesis using neutral_wrap(2) [OF as(2)] as(3) eq(1) by blast
    qed
  qed
qed

text \<open>The attempts of a request under the retry loop: numbered from 1, and every one after the first counted as a retry.\<close>

definition disciplined :: "proxy_request \<Rightarrow> server_config \<Rightarrow> nat \<Rightarrow> ('w, 'd, 'h) pstate \<Rightarrow> bool" where
  "disciplined req cfg k st \<longleftrightarrow>
     (let service = service_from_target (rq_target req); retry = RetryTotal service (rq_full_method req); ms = metrics_of (req_log st)
      in holds (req_log st) [] = Some [] \<and> upstream_calls (req_log st) \<le> k \<and>
         attempts_of (req_log st) = map (\<lambda>i. int i + 1) [0..<k] \<and>
         (if sc_metrics cfg then set ms \<subseteq> {retry, CircuitBreakerTotal service ''open_rejected''} \<and> count_list ms retry = k - 1
          else ms = []))"

lemma retry_step_log:
  assumes "invoke_retry deps cfg inject incoming ctx req n st = (r, st')"
  shows "\<exists>as. req_log st' = req_log st @ Attempted n #
      (if 1 < n \<and> sc_metrics cfg then [Counted (RetryTotal (service_from_target (rq_target req)) (rq_full_method req))] else []) @ as \<and>
    neutral (service_from_target (rq_target req)) (sc_metrics cfg) as \<and> (\<forall>e. r = Inl e \<longrightarrow> is_status e)"
  using assms attempt_log unfolding invoke_retry_def Let_def by (fastforce split: if_splits)

interpretation attempts: retried "disciplined req cfg" "\<lambda>r. \<forall>e. r = Inl e \<longrightarrow> is_status e"
  "invoke_retry deps cfg inject incoming ctx req" for deps cfg inject incoming ctx req
proof
  fix k and st st' :: "('a, 'b, 'c) pstate" and r
  let ?retry = "RetryTotal (service_from_target (rq_target req)) (rq_full_method req)"
  assume d: "disciplined req cfg k st" and "invoke_retry deps cfg inject incoming ctx req (int k + 1) st = (r, st')"
  from retry_step_log [OF this(2)] obtain as where as: "req_log st' = req_log st @ Attempted (int k + 1) #
      (if 0 < k \<and> sc_metrics cfg then [Counted ?retry] else []) @ as"
    "neutral (service_from_target (rq_target req)) (sc_metrics cfg) as" "\<forall>e. r = Inl e \<longrightarrow> is_status e" by auto
  have "count_list (metrics_of as) ?retry = 0" using as(2) by (auto simp: neutral_def count_list_0_iff split: if_splits)
  then show "disciplined req cfg (Suc k) st' \<and> (\<forall>e. r = Inl e \<longrightarrow> is_status e)"
    using d as by (auto simp: disciplined_def neutral_def holds_append Let_def split: if_splits)
qed (simp add: disciplined_def)

interpretation answers: retried "\<lambda>_ _. True" "\<lambda>r. \<forall>e. r = Inl e \<longrightarrow> is_status e"
  "invoke_retry deps cfg inject incoming ctx req" for deps cfg inject incoming ctx req
  using retry_step_log by unfold_locales blast+

abbreviation do_config_of :: "server_config \<Rightarrow> go_error do_config" where
  "do_config_of cfg \<equiv>
     \<lparr>dc_retry = \<lparr>max_attempts = pol_attempts (sc_retry cfg), initial_backoff = pol_initial (sc_retry cfg),
                  max_backoff = pol_max (sc_retry cfg)\<rparr>,
      dc_retryable = Some (\<lambda>e. is_retryable cfg (Some e))\<rparr>"

lemma limit_request_keeps:
  assumes "limit_request service m st = (ok, st1)"
  shows "req_log st1 = req_log st" "ds_now st1 = ds_now st" "ds_budget st1 = ds_budget st"
    "sh_breakers (fst (ds_world st1)) = sh_breakers (fst (ds_world st))"
  using assms by (auto simp: limit_request_def split: prod.splits)

lemma invoke_cases:
  assumes "invoke_body deps cfg inject incoming ctx ties request st = (out, st')"
  obtains
    (invalid) err where "validate request = Some err" "out = Inl err" "st' = st"
  | (limited) req t st1 where "validate request = None" "request = Some req"
      "limit_request (service_from_target (rq_target req)) (rq_full_method req) st = (False, st1)"
      "out = Inl (StatusErr CodeResourceExhausted t)"
      "st' = count_metric cfg (RateLimitRejected (service_from_target (rq_target req)) (rq_full_method req)) st1"
  | (ran) req st1 result where "validate request = None" "request = Some req"
      "limit_request (service_from_target (rq_target req)) (rq_full_method req) st = (True, st1)"
      "retry_do (request_context cfg (ds_now st) ctx) (do_config_of cfg) ties
         (invoke_retry deps cfg inject incoming (request_context cfg (ds_now st) ctx) req) st1 = (result, st')"
      "out = (case result of
          Inl (Some err) \<Rightarrow> Inl (case ctx_err (request_context cfg (ds_now st) ctx) (ds_now st') of
             Some c \<Rightarrow> from_context_error c | None \<Rightarrow> do_go_error err)
        | Inl None \<Rightarrow> Inr (propagate_metadata [] [] None)
        | Inr (response, header, trailer) \<Rightarrow> Inr (propagate_metadata header trailer (Some response)))"
proof (cases "validate request")
  case (Some err)
  then show thesis using assms invalid by (simp add: invoke_body_def)
next
  case None
  then obtain req where req: "request = Some req" by (cases request) (auto simp: validate_def)
  obtain ok st1 where l: "limit_request (service_from_target (rq_target req)) (rq_full_method req) st = (ok, st1)" by fastforce
  show thesis
  proof (cases ok)
    case False
    then show thesis using assms None req l by (intro limited [of req st1]) (auto simp: invoke_body_def Let_def)
  next
    case True
    let ?ctx = "request_context cfg (ds_now st) ctx"
    obtain result st2 where r: "retry_do ?ctx (do_config_of cfg) ties
        (invoke_retry deps cfg inject incoming ?ctx req) st1 = (result, st2)" by fastforce
    have "st2 = st'" using assms None req l True r limit_request_keeps(2) [OF l]
      by (auto simp: invoke_body_def Let_def split: sum.splits option.splits)
    then show thesis using assms None req l True r limit_request_keeps(2) [OF l]
      by (intro ran [of req st1 result]) (auto simp: invoke_body_def Let_def split: sum.splits option.splits)
  qed
qed

lemma invoke_body_run:
  assumes "invoke deps cfg inject incoming ctx ties request st = (out, st')"
  obtains st1 where "invoke_body deps cfg inject incoming ctx ties request st = (out, st1)"
    "st' = count_request cfg request (ds_now st) (result_err out) st1"
  using assms by (auto simp: invoke_def split: prod.splits)

lemma count_request_keeps:
  "env_of (count_request cfg request t err st) = env_of st" "ds_now (count_request cfg request t err st) = ds_now st"
  "attempts_of (req_log (count_request cfg request t err st)) = attempts_of (req_log st)"
  "holds (req_log (count_request cfg request t err st)) hs = holds (req_log st) hs"
  "upstream_calls (req_log (count_request cfg request t err st)) = upstream_calls (req_log st)"
  by (auto simp: count_request_def holds_append Let_def split: prod.splits option.splits)

lemma disciplined_start: "req_log st = [] \<Longrightarrow> disciplined req cfg 0 st"
  by (simp add: disciplined_def)

lemma normalized_attempts: "max_attempts (retry_normalized (dc_retry (do_config_of cfg))) = max 1 (pol_attempts (sc_retry cfg))"
  by (simp add: retry_normalized_def Let_def)

lemma status_simps [simp]: "is_status (StatusErr c t)" "is_status (from_context_error x)"
  by (simp_all add: is_status_def from_context_error_def split: ctx_error.split)

lemma validate_status: "validate request = Some err \<Longrightarrow> \<exists>t. err = StatusErr CodeInvalidArgument t"
  by (auto simp: validate_def split: option.splits if_splits)

section \<open>What the breakers see\<close>

text \<open>Collaborators that leave the breakers alone: no other request runs meanwhile.\<close>

abbreviation env_breakers :: "'w env \<Rightarrow> breaker_set option" where
  "env_breakers e \<equiv> sh_breakers (ds_world e)"

abbreviation st_breakers :: "('w, 'd, 'h) pstate \<Rightarrow> breaker_set option" where
  "st_breakers st \<equiv> sh_breakers (fst (ds_world st))"

definition quiet_resolver :: "('w, 'd) resolver_dep \<Rightarrow> bool" where
  "quiet_resolver res \<longleftrightarrow>
     (case res of NoResolver \<Rightarrow> True
      | PlainResolver f \<Rightarrow> \<forall>s e. env_breakers (snd (f s e)) = env_breakers e
      | PickerResolver f g \<Rightarrow> (\<forall>s e. env_breakers (snd (f s e)) = env_breakers e) \<and> (\<forall>d e. env_breakers (g d e) = env_breakers e))"

definition quiet :: "('w, 'd, 'h) proxy_deps \<Rightarrow> bool" where
  "quiet deps \<longleftrightarrow>
     quiet_resolver (dep_resolver deps) \<and>
     (\<forall>ctx t s e. env_breakers (snd (acquire_conn (dep_conns deps) ctx t s e)) = env_breakers e) \<and>
     (\<forall>h e. env_breakers (release_conn (dep_conns deps) h e) = env_breakers e) \<and>
     (\<forall>ctx h m f p q e. env_breakers (snd (dep_call deps ctx h m f p q e)) = env_breakers e)"

lemma breakers_simps [simp]:
  "st_breakers (put_env e st) = env_breakers e" "st_breakers (act a st) = st_breakers st"
  "env_breakers (env_of st) = st_breakers st" "st_breakers (put_breakers b st) = b"
  "ds_now (act a st) = ds_now st" "ds_now (put_breakers b st) = ds_now st" "st_breakers (count_metric cfg m st) = st_breakers st"
  by (simp_all add: put_env_def act_def env_of_def put_breakers_def count_metric_def)

lemma quiet_connected:
  assumes "quiet deps" "attempt_connected deps inject incoming ctx req target st = (r, st')"
  shows "st_breakers st' = st_breakers st"
proof -
  have q: "env_breakers e' = env_breakers e" if "acquire_conn (dep_conns deps) ctx t s e = (x, e')" for t s e x e'
    using assms(1) that unfolding quiet_def by (metis snd_conv)
  have c: "env_breakers e' = env_breakers e" if "dep_call deps ctx h m f p y e = (x, e')" for h m f p y e x e'
    using assms(1) that unfolding quiet_def by (metis snd_conv)
  have r: "env_breakers (release_conn (dep_conns deps) h e) = env_breakers e" for h e
    using assms(1) by (simp add: quiet_def)
  show ?thesis using assms(2)
    by (auto simp: attempt_connected_def attempt_call_def Let_def r split: prod.splits sum.splits dest!: q c)
qed

lemma quiet_resolve:
  assumes "quiet deps"
  shows "resolve_target (dep_resolver deps) target st = (x, st1) \<Longrightarrow> st_breakers st1 = st_breakers st"
    "st_breakers (call_done (dep_resolver deps) fin st) = st_breakers st"
proof -
  have q: "quiet_resolver (dep_resolver deps)" using assms by (simp add: quiet_def)
  show "st_breakers (call_done (dep_resolver deps) fin st) = st_breakers st"
    using q by (auto simp: call_done_def quiet_resolver_def split: option.splits resolver_dep.splits)
  show "st_breakers st1 = st_breakers st" if "resolve_target (dep_resolver deps) target st = (x, st1)"
  proof (cases "dep_resolver deps")
    case (PlainResolver f)
    then have "env_breakers e' = env_breakers e" if "f s e = (y, e')" for s e y e'
      using q that by (auto simp: quiet_resolver_def) (metis snd_conv)
    then show ?thesis using that PlainResolver
      by (auto simp: resolve_target_def Let_def split: if_splits prod.splits sum.splits)
  next
    case (PickerResolver f g)
    then have "env_breakers e' = env_breakers e" if "f s e = (y, e')" for s e y e'
      using q that by (auto simp: quiet_resolver_def) (metis snd_conv)
    then show ?thesis using that PickerResolver
      by (auto simp: resolve_target_def Let_def split: if_splits prod.splits sum.splits option.splits)
  qed (use that in \<open>auto simp: resolve_target_def Let_def split: if_splits\<close>)
qed

section \<open>Metadata\<close>

lemma fold_del_reserved:
  "gm_get (fold (\<lambda>key out. if is_reserved_metadata key then gm_del key out else out) ks m) k =
   (if k \<in> set ks \<and> is_reserved_metadata k then None else gm_get m k)"
  by (induction ks arbitrary: m) auto

lemma fold_carrier_other:
  "k \<notin> (to_lower \<circ> fst) ` set inject \<Longrightarrow> gm_get (fold carrier_set inject m) k = gm_get m k"
  by (induction inject arbitrary: m) (auto simp: carrier_set_def)

lemma gm_get_fst: "gm_get m k = Some v \<Longrightarrow> k \<in> fst ` set m"
  by (force dest: gm_get_SomeD)

section \<open>Properties\<close>

text \<open>
  C2: no request leaks. Whatever the resolver, the pool, the dialer and the upstream do, and whatever
  other requests do meanwhile, every endpoint pick, circuit permit and connection that an \<open>Invoke\<close>
  obtains over all its attempts is given back exactly once, in reverse order, before it returns; the
  upstream is called only on a connection held at that moment, and at most \<open>MaxAttempts\<close> times.
\<close>

theorem invoke_disciplined:
  assumes "invoke deps cfg inject incoming ctx ties request st = (out, st')" "req_log st = []"
  shows "holds (req_log st') [] = Some [] \<and> int (upstream_calls (req_log st')) \<le> max 1 (pol_attempts (sc_retry cfg))"
proof -
  obtain st1 where body: "invoke_body deps cfg inject incoming ctx ties request st = (out, st1)"
    and st': "st' = count_request cfg request (ds_now st) (result_err out) st1" by (rule invoke_body_run [OF assms(1)])
  from body have "holds (req_log st1) [] = Some [] \<and> int (upstream_calls (req_log st1)) \<le> max 1 (pol_attempts (sc_retry cfg))"
  proof (cases rule: invoke_cases)
    case (ran req st2 result)
    have "disciplined req cfg 0 st2" using limit_request_keeps(1) [OF ran(3)] assms(2) by (simp add: disciplined_start)
    from attempts.retry_do_keeps [OF this ran(4)] obtain j
      where "int j \<le> max 1 (pol_attempts (sc_retry cfg))" "disciplined req cfg j st1"
      unfolding normalized_attempts by blast
    then show ?thesis by (auto simp: disciplined_def Let_def)
  next
    case (limited req t st2)
    then show ?thesis using limit_request_keeps(1) [OF limited(3)] assms(2) by simp
  qed (use assms(2) in simp)
  then show ?thesis by (simp add: st' count_request_keeps)
qed


text \<open>
  C21: the errors of \<open>Invoke\<close>. Every error returned to the caller is a gRPC status. An invalid request
  is refused with InvalidArgument before anything else happens; a request over its rate limit with
  ResourceExhausted, leaving everything but the limiter as it was; and once the attempts have run, a
  request whose context is done reports the context's own status, whatever the last attempt said.
\<close>

theorem invoke_errors:
  assumes "invoke deps cfg inject incoming ctx ties request st = (Inl e, st')"
  shows "is_status e \<and>
    (case validate request of
       Some err \<Rightarrow> e = err \<and> env_of st' = env_of st \<and> status_code (Some e) = CodeInvalidArgument
     | None \<Rightarrow> \<exists>req ok st1. request = Some req \<and>
         limit_request (service_from_target (rq_target req)) (rq_full_method req) st = (ok, st1) \<and>
         (if ok then \<forall>c. ctx_err (request_context cfg (ds_now st) ctx) (ds_now st') = Some c \<longrightarrow> e = from_context_error c
          else env_of st' = env_of st1 \<and> status_code (Some e) = CodeResourceExhausted))"
proof -
  obtain st1 where body: "invoke_body deps cfg inject incoming ctx ties request st = (Inl e, st1)"
    and st': "st' = count_request cfg request (ds_now st) (result_err (Inl e :: go_error + proxy_reply)) st1"
    by (rule invoke_body_run [OF assms])
  note keeps = count_request_keeps(1,2) [of cfg request "ds_now st" "result_err (Inl e :: go_error + proxy_reply)" st1, folded st']
  from body show ?thesis
  proof (cases rule: invoke_cases)
    case (invalid err)
    then show ?thesis using validate_status [of request err] keeps by (auto simp: status_code_def)
  next
    case (limited req t st2)
    then show ?thesis using keeps by (auto simp: status_code_def)
  next
    case (ran req st2 result)
    have "outcome_good (\<lambda>r. \<forall>e. r = Inl e \<longrightarrow> is_status e) (request_context cfg (ds_now st) ctx) result st1"
      using answers.retry_do_keeps [OF TrueI ran(4)] by blast
    then show ?thesis using ran keeps
      by (auto simp: outcome_good_def do_go_error_def split: sum.splits option.splits do_error.splits)
  qed
qed

text \<open>
  C20: the feedback to the circuit breaker. With no other request meanwhile, an attempt on a resolved
  target changes the breakers exactly by the answer of \<open>Allow\<close> and, if a permit was granted, by
  completing that permit once, as a failure just when the attempt's own status is one of
  \<open>FailureCodes\<close>; a refused attempt makes no upstream call and reports Unavailable, or Internal for
  an empty target, and only a refusal by an open breaker is counted, once.
\<close>

theorem attempt_feedback:
  assumes "quiet deps" "invoke_attempt deps cfg inject incoming ctx req st = (r, st')"
    and "resolve_target (dep_resolver deps) (rq_target req) st = (Inr (target, fin), st1)" "st_breakers st = Some s"
  shows "case set_allow target (ds_now st1) (Some s) of
      (Inl e, b) \<Rightarrow> st_breakers st' = b \<and> upstream_calls (req_log st') = upstream_calls (req_log st) \<and>
        status_code (result_err r) = (if e = ErrCircuitOpen then CodeUnavailable else CodeInternal) \<and>
        metrics_of (req_log st') = metrics_of (req_log st) @ (if e = ErrCircuitOpen \<and> sc_metrics cfg
          then [CircuitBreakerTotal (service_from_target (rq_target req)) ''open_rejected''] else [])
    | (Inr p, b) \<Rightarrow> \<exists>t. st_breakers st' = map_option (\<lambda>s. snd (permit_done p (\<not> is_circuit_failure cfg (result_err r)) t s)) b"
proof -
  note q = quiet_resolve [OF assms(1)]
  have b1: "st_breakers st1 = Some s" using q(1) [OF assms(3)] assms(4) by simp
  obtain r1 st2 where g: "attempt_guarded deps cfg inject incoming ctx req target st1 = (r1, st2)" by fastforce
  have r: "r = r1" "st' = call_done (dep_resolver deps) fin st2"
    using assms(2,3) g by (auto simp: invoke_attempt_def)
  obtain x b where a: "set_allow target (ds_now st1) (Some s) = (x, b)" by fastforce
  show ?thesis
  proof (cases x)
    case (Inl e)
    then have "st_breakers st2 = b" "req_log st2 = req_log st1 @ (if e = ErrCircuitOpen \<and> sc_metrics cfg
          then [Counted (CircuitBreakerTotal (service_from_target (rq_target req)) ''open_rejected'')] else [])"
        "status_code (result_err r1) = (if e = ErrCircuitOpen then CodeUnavailable else CodeInternal)"
      using g a b1 by (cases e; force simp: attempt_guarded_def result_err_def status_code_def)+
    moreover have "upstream_calls (req_log st1) = upstream_calls (req_log st)" "metrics_of (req_log st1) = metrics_of (req_log st)"
      using resolve_log [OF assms(3)] by (cases fin; auto)+
    moreover have "upstream_calls (req_log (call_done (dep_resolver deps) fin st2)) = upstream_calls (req_log st2)"
      "metrics_of (req_log (call_done (dep_resolver deps) fin st2)) = metrics_of (req_log st2)"
      by (auto simp: call_done_def split: option.splits resolver_dep.splits)
    ultimately show ?thesis using a Inl r quiet_resolve(2) [OF assms(1), of fin st2] by simp
  next
    case (Inr p)
    let ?st = "act (Permitted p) (put_breakers b st1)"
    obtain r2 st3 where c: "attempt_connected deps inject incoming ctx req target ?st = (r2, st3)" by fastforce
    have "r1 = r2" "st2 = complete_permit p (\<not> is_circuit_failure cfg (result_err r2)) st3"
      using g a b1 Inr c by (auto simp: attempt_guarded_def)
    moreover have "st_breakers st3 = b" using quiet_connected [OF assms(1) c] by simp
    ultimately show ?thesis using a Inr r quiet_resolve(2) [OF assms(1), of fin st2] by (auto simp: complete_permit_def)
  qed
qed


section \<open>Witnesses\<close>

definition demo_deps :: "(unit, nat, nat) proxy_deps" where
  "demo_deps =
     \<lparr>dep_resolver = PickerResolver (\<lambda>service e. (Inr (''h:1'', Some 3), e)) (\<lambda>d e. e),
      dep_conns = PlainPool (\<lambda>ctx target e. (Inr 7, e)) (\<lambda>h e. e),
      dep_call = (\<lambda>ctx h m method passthrough payload e.
        ((Inl (StatusErr CodeUnavailable (Text ''down'')), [], []), e))\<rparr>"

definition demo_cfg :: server_config where
  "demo_cfg = normalize_server_config (default_server_config\<lparr>sc_failure_codes := Some [(CodeUnavailable, True)]\<rparr>)"

definition demo_request :: proxy_request where
  "demo_request = \<lparr>rq_target = ''service://echo'', rq_full_method = ''/a.B/C'', rq_payload = Some \<lparr>pl_data = [1]\<rparr>, rq_passthrough = False\<rparr>"

definition demo_state :: "(unit, nat, nat) pstate" where
  "demo_state = \<lparr>ds_now = 0, ds_budget = None,
     ds_world = (\<lparr>sh_limiter = None, sh_breakers = Some (new_breaker_set \<lparr>window_size = 1, minimum_requests = 1,
        failure_threshold = Fin 1, cooldown = 5, half_open_max = 1\<rparr>), sh_rest = ()\<rparr>, [])\<rparr>"

abbreviation demo_context :: go_context where
  "demo_context \<equiv> \<lparr>done_at = None, done_err = Canceled\<rparr>"

abbreviation demo_invoke :: "(go_error + proxy_reply) \<times> (unit, nat, nat) pstate" where
  "demo_invoke \<equiv> invoke demo_deps demo_cfg [] None demo_context (\<lambda>_. True) (Some demo_request) demo_state"

theorem invoke_disciplined_witness:
  "holds (req_log (snd demo_invoke)) [] = Some [] \<and> int (upstream_calls (req_log (snd demo_invoke))) \<le> 1"
proof -
  obtain out st' where run: "demo_invoke = (out, st')" by fastforce
  have "max 1 (pol_attempts (sc_retry demo_cfg)) = 1"
    by (simp add: demo_cfg_def normalize_server_config_def default_server_config_def Let_def)
  then show ?thesis using invoke_disciplined [OF run] run by (simp add: demo_state_def)
qed


lemma demo_valid: "validate (Some demo_request) = None"
  by code_simp

lemma demo_limit: "limit_request service m demo_state = (True, demo_state)"
  by (simp add: limit_request_def demo_state_def limiter_allow_def)

theorem invoke_errors_witness:
  "\<exists>e st'. invoke demo_deps demo_cfg [] None demo_context (\<lambda>_. True) (Some (demo_request\<lparr>rq_payload := None\<rparr>)) demo_state = (Inl e, st') \<and>
     is_status e \<and> status_code (Some e) = CodeInvalidArgument"
proof -
  let ?q = "Some (demo_request\<lparr>rq_payload := None\<rparr>)"
  have v: "validate ?q \<noteq> None" by code_simp
  then obtain e st' where run: "invoke demo_deps demo_cfg [] None demo_context (\<lambda>_. True) ?q demo_state = (Inl e, st')"
    by (auto simp: invoke_def invoke_body_def)
  then show ?thesis using invoke_errors [OF run] v by auto
qed

lemma demo_quiet: "quiet demo_deps"
  by (simp add: quiet_def quiet_resolver_def demo_deps_def acquire_conn_def release_conn_def)

lemma demo_resolve:
  "resolve_target (dep_resolver demo_deps) (rq_target demo_request) demo_state =
     (Inr (''h:1'', Some 3), act (Picked 3) demo_state)"
proof -
  have "has_prefix ''service://echo'' service_prefix" "trim_space (trim_prefix ''service://echo'' service_prefix) = ''echo''"
    by code_simp+
  then show ?thesis
    by (simp add: resolve_target_def demo_deps_def demo_request_def Let_def put_env_def env_of_def demo_state_def)
qed

theorem attempt_feedback_witness:
  "\<exists>r st' p b t. invoke_attempt demo_deps demo_cfg [] None demo_context demo_request demo_state = (r, st') \<and>
     set_allow ''h:1'' 0 (st_breakers demo_state) = (Inr p, b) \<and>
     st_breakers st' = map_option (\<lambda>s. snd (permit_done p (\<not> is_circuit_failure demo_cfg (result_err r)) t s)) b"
proof -
  obtain r st' where run: "invoke_attempt demo_deps demo_cfg [] None demo_context demo_request demo_state = (r, st')" by fastforce
  obtain s where s: "st_breakers demo_state = Some s" "breakers s = []" "cb_state (new_circuit_breaker (bs_cfg s)) = CircuitClosed"
    by (simp add: demo_state_def new_breaker_set_def new_circuit_breaker_def Let_def)
  obtain p b where a: "set_allow ''h:1'' 0 (Some s) = (Inr p, b)"
    using s by (auto simp: set_allow_def set_breaker_def cb_allow_def Let_def split: prod.splits)
  have "ds_now (act (Picked 3) demo_state) = 0" by (simp add: demo_state_def)
  then show ?thesis using attempt_feedback [OF demo_quiet run demo_resolve s(1)] run s(1) a by auto
qed


end
