(* ===== verification/Grpc_Pool.thy ===== *)
theory Grpc_Pool
  imports Proxy
begin

text \<open>
  \<^verbatim>\<open>internal/proxy/connection_pool.go\<close>: the connection pool of the sidecar, a \<open>Connection_Pool\<close> whose keys
  are service and target and whose dialer chooses the credentials of the service. \<open>grpc.DialContext\<close>
  is the argument \<open>dial\<close>: the connection it opens, or its error. Its result has the type of a pointer,
  so a failed dial hands the pool an interface that holds a nil pointer.
\<close>

section \<open>Pool keys\<close>

definition pool_key_separator :: char where
  "pool_key_separator = char_of (0 :: nat)"

definition pool_key :: "string \<Rightarrow> string \<Rightarrow> string" where
  "pool_key service target = service @ [pool_key_separator] @ target"

definition split_pool_key :: "string \<Rightarrow> string \<times> string" where
  "split_pool_key key =
     (let (service, target, found) = cut pool_key_separator key in if \<not> found then ([], key) else (service, target))"

section \<open>The dialer\<close>

record 'c grpc_pool_config =
  gp_max :: int
  gp_idle :: int
  gp_reap :: int
  gp_keepalive :: int
  gp_keepalive_timeout :: int
  gp_credentials :: "(string \<Rightarrow> go_error + 'c) option"

text \<open>No credentials stand for \<open>insecure.NewCredentials()\<close>; keepalive is the time, timeout and \<open>PermitWithoutStream\<close>.\<close>

record 'c dial_options =
  do_credentials :: "'c option"
  do_block :: bool
  do_keepalive :: "(int \<times> int \<times> bool) option"

definition core_config :: "'c grpc_pool_config \<Rightarrow> pool_config" where
  "core_config cfg = \<lparr>max_conns = gp_max cfg, max_idle = gp_idle cfg, reap_interval = gp_reap cfg\<rparr>"

definition dial_plan :: "'c grpc_pool_config \<Rightarrow> string \<Rightarrow> go_error + string \<times> 'c dial_options" where
  "dial_plan cfg key =
     (let (service, target) = split_pool_key key;
          keepalive =
            (if 0 < gp_keepalive cfg
             then Some (gp_keepalive cfg, if gp_keepalive_timeout cfg \<le> 0 then 5 * second else gp_keepalive_timeout cfg, True)
             else None)
      in case gp_credentials cfg of
           None \<Rightarrow> Inr (target, \<lparr>do_credentials = None, do_block = True, do_keepalive = keepalive\<rparr>)
         | Some credentials_for \<Rightarrow>
             (if service = [] then Inl (PlainErr ''proxy: service identity is required for secure upstream'')
              else case credentials_for service of
                     Inl err \<Rightarrow> Inl err
                   | Inr c \<Rightarrow> Inr (target, \<lparr>do_credentials = Some c, do_block = True, do_keepalive = keepalive\<rparr>)))"

definition grpc_dialer ::
  "'c grpc_pool_config \<Rightarrow> (string \<Rightarrow> 'c dial_options \<Rightarrow> go_error + nat) \<Rightarrow> string \<Rightarrow> conn \<times> go_error option" where
  "grpc_dialer cfg dial key =
     (case dial_plan cfg key of
        Inl err \<Rightarrow> (NilConn, Some err)
      | Inr (target, opts) \<Rightarrow> (case dial target opts of Inl err \<Rightarrow> (NilPtr, Some err) | Inr c \<Rightarrow> (ConnPtr c, None)))"

text \<open>\<open>CountingDialer\<close>, a dialer without a pool (used by the tests) that counts the successes of \<open>grpc.DialContext\<close>.\<close>

definition counting_dial :: "('c dial_options \<Rightarrow> go_error + nat) \<Rightarrow> int \<Rightarrow> (go_error + nat) \<times> int" where
  "counting_dial dial n =
     (let r = dial \<lparr>do_credentials = None, do_block = True, do_keepalive = None\<rparr>
      in (r, case r of Inl _ \<Rightarrow> n | Inr _ \<Rightarrow> wrap64 (n + 1)))"

section \<open>Acquiring\<close>

definition new_grpc_pool :: "'c grpc_pool_config \<Rightarrow> go_error pool_error + conn_pool" where
  "new_grpc_pool cfg = new_pool (core_config cfg) False"

text \<open>
  The key under which \<open>Acquire\<close> and \<open>AcquireForService\<close> enter the pool, and the type assertion of
  \<open>acquire\<close>, which only a nil interface fails.
\<close>

definition acquire_key :: "string option \<Rightarrow> string \<Rightarrow> string" where
  "acquire_key service target = (case service of None \<Rightarrow> target | Some s \<Rightarrow> pool_key s target)"

definition assert_grpc :: "conn \<Rightarrow> go_error pool_error + conn" where
  "assert_grpc c = (if c = NilConn then Inl ErrPoolClosed else Inr c)"

text \<open>
  Every state of the pool under callers, dials, reaper and \<open>Close\<close>, with the plan under which each
  connection was dialed.
\<close>

inductive grpc_reach :: "'c grpc_pool_config \<Rightarrow> pool_world \<Rightarrow> (conn \<times> string \<times> 'c dial_options) list \<Rightarrow> bool" for cfg where
  start: "new_grpc_pool cfg = Inr p \<Longrightarrow> grpc_reach cfg (pool_start p) []"
| other: "grpc_reach cfg w dialed \<Longrightarrow> event_ok (ev :: go_error pool_event) w \<Longrightarrow>
     (\<forall>t a cn err now. ev \<noteq> EvDialed t a cn err now) \<Longrightarrow> grpc_reach cfg (pool_exec ev w) dialed"
| dialed: "grpc_reach cfg w dialed \<Longrightarrow> grpc_dialer cfg dial t = (cn, err) \<Longrightarrow> event_ok (EvDialed t a cn err now) w \<Longrightarrow>
     grpc_reach cfg (pool_exec (EvDialed t a cn err now) w)
       (case dial_plan cfg t of Inr (target, opts) \<Rightarrow> (if err = None then (cn, target, opts) # dialed else dialed) | Inl _ \<Rightarrow> dialed)"

section \<open>Lemmas\<close>

lemma split_pool_key_inverse: "pool_key_separator \<notin> set service \<Longrightarrow> split_pool_key (pool_key service target) = (service, target)"
  by (simp add: split_pool_key_def pool_key_def cut_append)

definition plans_ok :: "'c grpc_pool_config \<Rightarrow> pool_world \<Rightarrow> (conn \<times> string \<times> 'c dial_options) list \<Rightarrow> bool" where
  "plans_ok cfg w dialed \<longleftrightarrow>
     (\<forall>t a e. (t, a) \<in> owners (pw_pool w) (pw_dials w) \<longrightarrow> e \<in> set (tp_entries (p_tps (pw_pool w) ! a)) \<longrightarrow>
        (\<exists>target opts. dial_plan cfg t = Inr (target, opts) \<and> (pe_conn (p_heap (pw_pool w) ! e), target, opts) \<in> set dialed))"

lemma plans_from: "plans_ok cfg w dialed \<Longrightarrow> entries_from w v \<Longrightarrow> plans_ok cfg v dialed"
  unfolding plans_ok_def entries_from_def by metis

lemma other_from:
  "world_inv w \<Longrightarrow> event_ok ev w \<Longrightarrow> (\<forall>t a cn err now. ev \<noteq> EvDialed t a cn err now) \<Longrightarrow> entries_from w (pool_exec ev w)"
  by (cases ev) (simp_all only: acquire_from release_from reap_from close_from, blast)

lemma plans_dialed:
  assumes inv: "world_inv w" and ok: "event_ok (EvDialed t a cn err now) w" and plans: "plans_ok cfg w dialed"
    and d: "grpc_dialer cfg dial t = (cn, err)"
  shows "plans_ok cfg (pool_exec (EvDialed t a cn err now) w)
    (case dial_plan cfg t of Inr (target, opts) \<Rightarrow> (if err = None then (cn, target, opts) # dialed else dialed) | Inl _ \<Rightarrow> dialed)"
    (is "plans_ok cfg ?v ?log")
  unfolding plans_ok_def
proof (intro allI impI)
  fix u b e assume u: "(u, b) \<in> owners (pw_pool ?v) (pw_dials ?v)" "e \<in> set (tp_entries (p_tps (pw_pool ?v) ! b))"
  have sub: "set dialed \<subseteq> set ?log" by (auto split: sum.splits)
  have new: "\<exists>target opts. dial_plan cfg t = Inr (target, opts) \<and> (cn, target, opts) \<in> set ?log" if "err = None"
    using d that by (auto simp: grpc_dialer_def split: sum.splits prod.splits)
  from dialed_from [OF inv ok u refl]
  show "\<exists>target opts. dial_plan cfg u = Inr (target, opts) \<and> (pe_conn (p_heap (pw_pool ?v) ! e), target, opts) \<in> set ?log"
  proof (elim disjE conjE)
    assume "(u, b) \<in> owners (pw_pool w) (pw_dials w)" "e \<in> set (tp_entries (p_tps (pw_pool w) ! b))"
      and c: "pe_conn (p_heap (pw_pool ?v) ! e) = pe_conn (p_heap (pw_pool w) ! e)"
    then obtain target opts where "dial_plan cfg u = Inr (target, opts)" "(pe_conn (p_heap (pw_pool w) ! e), target, opts) \<in> set dialed"
      using plans unfolding plans_ok_def by blast
    then show ?thesis using sub c by auto
  next
    assume "u = t" "err = None" "pe_conn (p_heap (pw_pool ?v) ! e) = cn"
    then show ?thesis using new by simp
  qed
qed

lemma grpc_reach_inv: "grpc_reach cfg w dialed \<Longrightarrow> world_inv w \<and> plans_ok cfg w dialed"
proof (induction rule: grpc_reach.induct)
  case (start p)
  then show ?case using pool_normalized_ok [of "core_config cfg"]
    by (auto simp: new_grpc_pool_def new_pool_def pool_start_def world_inv_def pool_inv_defs owners_def live_def open_conns_def plans_ok_def)
next
  case (other w dialed ev)
  then show ?case using exec_inv [of w ev] other_from [of w ev] plans_from by blast
next
  case (dialed w dialed dial t cn err a now)
  then show ?case using exec_inv [of w "EvDialed t a cn err now"] plans_dialed by blast
qed

lemma got_entry:
  assumes "acquire_enter t cerr p = (EnterGot e, q)"
  shows "\<exists>a. gm_get (p_targets q) t = Some a \<and> e \<in> set (tp_entries (p_tps q ! a))"
proof -
  have nc: "t \<noteq> []" "\<not> p_closed p" using assms by (auto simp: acquire_enter_def split: if_splits)
  obtain a p1 where en: "ensure_target t p = (a, p1)" by fastforce
  then have t: "gm_get (p_targets p1) t = Some a" by (auto simp: ensure_target_def Let_def split: option.splits)
  from assms nc en show ?thesis
  proof (cases rule: acquire_enter_cases)
    case (got d idle)
    then show ?thesis using t least_active_Some [of "p_heap p1" _ idle d] by (auto simp: entry_use_def)
  qed auto
qed

lemma got_plan:
  assumes "grpc_reach cfg w dialed" "acquire_enter t cerr (pw_pool w) = (EnterGot e, q)"
  shows "\<exists>target opts. dial_plan cfg t = Inr (target, opts) \<and> (pe_conn (p_heap q ! e), target, opts) \<in> set dialed"
proof -
  have inv: "world_inv w" "plans_ok cfg w dialed" using grpc_reach_inv [OF assms(1)] by auto
  obtain a where a: "gm_get (p_targets q) t = Some a" "e \<in> set (tp_entries (p_tps q ! a))" using got_entry [OF assms(2)] by blast
  show ?thesis using acquire_entry_origin [OF inv(1) assms(2) a(2), of t] a(1) inv(2) unfolding plans_ok_def by metis
qed

lemma secure_plan:
  assumes "dial_plan cfg key = Inr (target, opts)" "gp_credentials cfg = Some credentials_for" "split_pool_key key = (s, u)"
  shows "target = u" "s \<noteq> []" "\<exists>c. credentials_for s = Inr c \<and> do_credentials opts = Some c"
  using assms by (auto simp: dial_plan_def Let_def split: if_splits sum.splits)

section \<open>Properties\<close>

text \<open>
  C12: a pooled connection is reused only for the identity it was opened for. On a pool with
  credentials, whenever \<open>AcquireForService\<close> is served from the pool, the connection was dialed to that
  very target with the credentials of that very service; \<open>Acquire\<close>, which names no service, is never
  served from the pool.
\<close>

theorem secure_reuse:
  assumes "grpc_reach cfg w dialed" "gp_credentials cfg = Some credentials_for"
    and "acquire_enter (acquire_key service target) cerr (pw_pool w) = (EnterGot e, q)"
    and "case service of None \<Rightarrow> pool_key_separator \<notin> set target | Some s \<Rightarrow> pool_key_separator \<notin> set s"
  shows "\<exists>s c opts. service = Some s \<and> s \<noteq> [] \<and> credentials_for s = Inr c \<and> do_credentials opts = Some c \<and>
    (pe_conn (p_heap q ! e), target, opts) \<in> set dialed"
proof (cases service)
  case None
  then have "split_pool_key target = ([], target)" using assms(4) by (simp add: split_pool_key_def cut_free)
  then have "\<exists>err. dial_plan cfg target = Inl err" using assms(2) by (simp add: dial_plan_def)
  then show ?thesis using got_plan [OF assms(1,3)] None by (auto simp: acquire_key_def)
next
  case (Some s)
  then have k: "split_pool_key (pool_key s target) = (s, target)" using assms(4) split_pool_key_inverse by simp
  obtain u opts where p: "dial_plan cfg (pool_key s target) = Inr (u, opts)" "(pe_conn (p_heap q ! e), u, opts) \<in> set dialed"
    using got_plan [OF assms(1,3)] Some by (auto simp: acquire_key_def)
  note plan = secure_plan [OF p(1) assms(2) k]
  from plan(3) obtain c where "credentials_for s = Inr c" "do_credentials opts = Some c" by blast
  then show ?thesis using plan(1,2) Some p(2) by (intro exI [of _ s] exI [of _ c] exI [of _ opts]) simp
qed

text \<open>
  Pool keys. Splitting a key returns the service and the target it was made of, distinct pairs have
  distinct keys, and no such key is the key of a plain target, as long as no service and no plain
  target contains a zero byte.
\<close>

theorem pool_key_roundtrip:
  assumes "pool_key_separator \<notin> set s" "pool_key_separator \<notin> set s'" "pool_key_separator \<notin> set bare"
  shows "split_pool_key (pool_key s t) = (s, t) \<and> split_pool_key bare = ([], bare) \<and>
    (pool_key s t = pool_key s' t' \<longrightarrow> s = s' \<and> t = t') \<and> pool_key s t \<noteq> bare"
proof -
  have k: "split_pool_key (pool_key s t) = (s, t)" "split_pool_key (pool_key s' t') = (s', t')"
    using assms split_pool_key_inverse by blast+
  have "pool_key s t = pool_key s' t' \<longrightarrow> s = s' \<and> t = t'" using k by (metis prod.inject)
  moreover have "pool_key s t \<noteq> bare" using assms(3) by (auto simp: pool_key_def)
  moreover have "split_pool_key bare = ([], bare)" using assms(3) by (simp add: split_pool_key_def cut_free)
  ultimately show ?thesis using k(1) by blast
qed

theorem pool_key_roundtrip_witness:
  "split_pool_key (pool_key ''echo'' ''h:1'') = (''echo'', ''h:1'') \<and> pool_key ''echo'' ''h:1'' \<noteq> ''h:1''"
proof -
  have "pool_key_separator \<notin> set ''echo''" "pool_key_separator \<notin> set ''h:1''" by code_simp+
  from pool_key_roundtrip [OF this(1,1,2), of "''h:1''" "[]"] show ?thesis by blast
qed

text \<open>
  A dial that fails after \<open>Close\<close> makes the pool call \<open>Close\<close> on a nil \<open>*grpc.ClientConn\<close>: the
  dialer's nil pointer becomes a non-nil \<open>Conn\<close>, so the pool's test against nil does not hold it back.
  The late dial also puts its target back into the closed pool.
\<close>

theorem late_dial_closes_nil_pointer:
  assumes "grpc_reach cfg w dialed" "p_closed (pw_pool w)" "(t, a) \<in># pw_dials w"
    and "dial_plan cfg t = Inr (target, opts)" "dial target opts = Inl er"
  shows "grpc_dialer cfg dial t = (NilPtr, Some er) \<and>
    NilPtr \<in># pw_shut (pool_exec (EvDialed t a NilPtr (Some er) now) w) \<and>
    gm_get (p_targets (pw_pool (pool_exec (EvDialed t a NilPtr (Some er) now) w))) t = Some a"
proof -
  have inv: "world_inv w" using grpc_reach_inv [OF assms(1)] by simp
  show ?thesis
    using acquire_dialed_eq [OF inv assms(3), of NilPtr "Some er" now] dial_owner(3) [OF inv assms(3)] assms(2,4,5)
    by (auto simp: grpc_dialer_def dial_settled_def)
qed

section \<open>Witness\<close>

definition demo_secure :: "nat grpc_pool_config" where
  "demo_secure = \<lparr>gp_max = 1, gp_idle = 10, gp_reap = 5, gp_keepalive = 0, gp_keepalive_timeout = 0,
     gp_credentials = Some (\<lambda>s. Inr 42)\<rparr>"

abbreviation demo_key :: string where
  "demo_key \<equiv> acquire_key (Some ''echo'') ''h:1''"

definition demo_pool_world :: "pool_world" where
  "demo_pool_world = \<lparr>pw_pool = \<lparr>p_cfg = core_config demo_secure, p_targets = [(demo_key, 0)], p_created = 1, p_closed = False,
       p_heap = [\<lparr>pe_conn = ConnPtr 7, pe_active = 1, pe_last = 3, pe_closing = False\<rparr>],
       p_tps = [\<lparr>tp_entries = [0], tp_creating = 0\<rparr>]\<rparr>, pw_handles = [(0, False)], pw_dials = {#}, pw_waiting = {#},
     pw_opened = {#ConnPtr 7#}, pw_shut = {#}\<rparr>"

abbreviation demo_opts :: "nat dial_options" where
  "demo_opts \<equiv> \<lparr>do_credentials = Some 42, do_block = True, do_keepalive = None\<rparr>"

lemma demo_plan: "dial_plan demo_secure demo_key = Inr (''h:1'', demo_opts)"
proof -
  have "split_pool_key demo_key = (''echo'', ''h:1'')" by code_simp
  then show ?thesis by (simp add: dial_plan_def demo_secure_def)
qed

definition demo_dialing_world :: pool_world where
  "demo_dialing_world = \<lparr>pw_pool = \<lparr>p_cfg = core_config demo_secure, p_targets = [(demo_key, 0)], p_created = 0, p_closed = False,
       p_heap = [], p_tps = [\<lparr>tp_entries = [], tp_creating = 1\<rparr>]\<rparr>, pw_handles = [], pw_dials = {#(demo_key, 0)#},
     pw_waiting = {#}, pw_opened = {#}, pw_shut = {#}\<rparr>"

lemma demo_dialing_grpc: "grpc_reach demo_secure demo_dialing_world []"
proof -
  let ?p = "\<lparr>p_cfg = core_config demo_secure, p_targets = [], p_created = 0, p_closed = False, p_heap = [], p_tps = []\<rparr>"
  let ?acq = "EvAcquire demo_key None :: go_error pool_event"
  have "new_grpc_pool demo_secure = Inr ?p"
    by (simp add: new_grpc_pool_def new_pool_def pool_normalized_def core_config_def demo_secure_def Let_def)
  from grpc_reach.start [OF this] have "grpc_reach demo_secure (pool_start ?p) []" .
  from grpc_reach.other [OF this, of ?acq] have r: "grpc_reach demo_secure (pool_exec ?acq (pool_start ?p)) []" by simp
  have k: "demo_key \<noteq> []" by (simp add: acquire_key_def pool_key_def)
  have "pool_exec ?acq (pool_start ?p) = demo_dialing_world"
    using k by (simp add: demo_dialing_world_def pool_start_def acquire_enter_def ensure_target_def least_active_def Let_def gm_set_def core_config_def demo_secure_def)
  then show ?thesis using r by simp
qed

lemma demo_grpc_reach: "grpc_reach demo_secure demo_pool_world [(ConnPtr 7, ''h:1'', demo_opts)]"
proof -
  have d: "grpc_dialer demo_secure (\<lambda>_ _. Inr 7) demo_key = (ConnPtr 7, None)" by (simp add: grpc_dialer_def demo_plan)
  let ?ev = "EvDialed demo_key 0 (ConnPtr 7) (None :: go_error option) 3"
  from grpc_reach.dialed [OF demo_dialing_grpc d, of 0 3]
  have "grpc_reach demo_secure (pool_exec ?ev demo_dialing_world) [(ConnPtr 7, ''h:1'', demo_opts)]"
    unfolding demo_plan by (simp add: demo_dialing_world_def)
  moreover have "pool_exec ?ev demo_dialing_world = demo_pool_world"
    by (simp add: acquire_dialed_def gm_get_Cons Let_def in64_def demo_dialing_world_def demo_pool_world_def)
  ultimately show ?thesis by simp
qed

theorem secure_reuse_witness:
  "\<exists>e q s c opts. acquire_enter demo_key (None :: go_error option) (pw_pool demo_pool_world) = (EnterGot e, q) \<and>
     Some ''echo'' = Some s \<and> s \<noteq> [] \<and> do_credentials opts = Some c \<and>
     (pe_conn (p_heap q ! e), ''h:1'', opts) \<in> set [(ConnPtr 7, ''h:1'', demo_opts)]"
proof -
  have k: "demo_key \<noteq> []" by (simp add: acquire_key_def pool_key_def)
  obtain q where got: "acquire_enter demo_key (None :: go_error option) (pw_pool demo_pool_world) = (EnterGot 0, q)"
    using k by (simp add: acquire_enter_def ensure_target_def least_active_def Let_def gm_get_Cons demo_pool_world_def core_config_def demo_secure_def)
  have "gp_credentials demo_secure = Some (\<lambda>s. Inr 42)" by (simp add: demo_secure_def)
  moreover have "case Some ''echo'' of None \<Rightarrow> pool_key_separator \<notin> set ''h:1'' | Some s \<Rightarrow> pool_key_separator \<notin> set s"
    by code_simp
  ultimately have "\<exists>s c opts. Some ''echo'' = Some s \<and> s \<noteq> [] \<and> (Inr 42 :: go_error + nat) = Inr c \<and> do_credentials opts = Some c \<and>
    (pe_conn (p_heap q ! 0), ''h:1'', opts) \<in> set [(ConnPtr 7, ''h:1'', demo_opts)]"
    by (rule secure_reuse [OF demo_grpc_reach _ got])
  then show ?thesis using got by blast
qed

definition demo_closed_world :: pool_world where
  "demo_closed_world = \<lparr>pw_pool = \<lparr>p_cfg = core_config demo_secure, p_targets = [], p_created = 0, p_closed = True,
       p_heap = [], p_tps = [\<lparr>tp_entries = [], tp_creating = 1\<rparr>]\<rparr>, pw_handles = [], pw_dials = {#(demo_key, 0)#},
     pw_waiting = {#}, pw_opened = {#}, pw_shut = {#}\<rparr>"

lemma demo_closed_grpc_reach: "grpc_reach demo_secure demo_closed_world []"
proof -
  let ?cl = "EvClose [demo_key] :: go_error pool_event"
  from grpc_reach.other [OF demo_dialing_grpc, of ?cl]
  have "grpc_reach demo_secure (pool_exec ?cl demo_dialing_world) []" by (simp add: map_order_def demo_dialing_world_def)
  moreover have "pool_exec ?cl demo_dialing_world = demo_closed_world"
    by (simp add: demo_dialing_world_def demo_closed_world_def close_pool_def close_target_def gm_get_Cons)
  ultimately show ?thesis by simp
qed

theorem late_dial_closes_nil_pointer_witness:
  "NilPtr \<in># pw_shut (pool_exec (EvDialed demo_key 0 NilPtr (Some (PlainErr ''refused'')) 9) demo_closed_world)"
  using late_dial_closes_nil_pointer [OF demo_closed_grpc_reach _ _ demo_plan, of 0 "\<lambda>_ _. Inl (PlainErr ''refused'')" "PlainErr ''refused''" 9]
  by (simp add: demo_closed_world_def)

end
