(* ===== verification/Go_Json.thy ===== *)
theory Go_Json
  imports Go_Strings
begin

text \<open>
  The parts of Go's \<open>encoding/json\<close>, \<open>encoding/base64\<close> and \<open>strconv.ParseInt\<close> that the etcd
  client, the registry and the registrar use.

  JSON documents are values of the datatype \<open>json\<close>; a number keeps its literal text. What a
  struct decoder of Go does with a document is exact: member names are matched up to case folding,
  a later member of the same name overrides an earlier one, \<open>null\<close> leaves a field as it is, unknown
  members are skipped and a value of the wrong type is an error. (An array member that occurs
  twice in one object is read as its last occurrence.)
\<close>

named_theorems result_simps \<open>evaluation of fallible computations\<close>

section \<open>Fallible computations\<close>

definition res_bind :: "'e + 'a \<Rightarrow> ('a \<Rightarrow> 'e + 'b) \<Rightarrow> 'e + 'b" where
  "res_bind r f = (case r of Inl e \<Rightarrow> Inl e | Inr x \<Rightarrow> f x)"

lemma res_bind_simps [simp, result_simps]: "res_bind (Inl e) f = Inl e" "res_bind (Inr x) f = f x"
  by (simp_all add: res_bind_def)

lemma res_bind_Inr_iff [result_simps]: "res_bind r f = Inr y \<longleftrightarrow> (\<exists>x. r = Inr x \<and> f x = Inr y)"
  by (cases r) auto

text \<open>A loop that collects the result of each element and returns the first error.\<close>

fun res_map :: "('a \<Rightarrow> 'e + 'b) \<Rightarrow> 'a list \<Rightarrow> 'e + 'b list" where
  "res_map f [] = Inr []"
| "res_map f (x # xs) = res_bind (f x) (\<lambda>y. res_bind (res_map f xs) (\<lambda>ys. Inr (y # ys)))"

lemma res_map_Inr_iff [result_simps]: "res_map f xs = Inr ys \<longleftrightarrow> list_all2 (\<lambda>x y. f x = Inr y) xs ys"
proof (induction xs arbitrary: ys)
  case (Cons x xs)
  then show ?case by (cases ys) (auto simp: res_bind_Inr_iff list_all2_Cons1)
qed auto

lemma res_map_total: "(\<And>x. x \<in> set xs \<Longrightarrow> f x = Inr (g x)) \<Longrightarrow> res_map f xs = Inr (map g xs)"
  by (induction xs) auto

lemma list_all2_mem: "list_all2 P xs ys \<Longrightarrow> x \<in> set xs \<Longrightarrow> \<exists>y \<in> set ys. P x y"
  by (induction rule: list_all2_induct) auto

section \<open>JSON documents\<close>

datatype json = JNull | JBool bool | JNum string | JStr string | JArr "json list"
  | JObj "(string \<times> json) list"

datatype json_error = JTypeError | JEnd string

text \<open>
  The name folding of struct decoders: ASCII letters in upper case, and the Kelvin sign and the
  long s, the two other runes that fold to ASCII letters.
\<close>

definition upper_char :: "char \<Rightarrow> char" where
  "upper_char c = (if 97 \<le> (of_char c :: nat) \<and> (of_char c :: nat) \<le> 122 then char_of (of_char c - 32 :: nat) else c)"

function fold_name :: "string \<Rightarrow> string" where
  "fold_name s =
     (case s of [] \<Rightarrow> []
      | c # cs \<Rightarrow>
          if has_prefix s (bytes [226, 132, 170]) then CHR ''K'' # fold_name (drop 3 s)
          else if has_prefix s (bytes [197, 191]) then CHR ''S'' # fold_name (drop 2 s)
          else upper_char c # fold_name cs)"
  by pat_completeness auto
termination by (relation "measure length") auto

declare fold_name.simps [simp del]

definition named :: "string \<Rightarrow> (string \<times> json) list \<Rightarrow> json list" where
  "named name ms = map snd (filter (\<lambda>(k, v). fold_name k = fold_name name) ms)"

text \<open>The members a struct is decoded from.\<close>

fun members :: "json \<Rightarrow> json_error + (string \<times> json) list" where
  "members (JObj ms) = Inr ms"
| "members JNull = Inr []"
| "members _ = Inl JTypeError"

fun string_from :: "string \<Rightarrow> json list \<Rightarrow> json_error + string" where
  "string_from s [] = Inr s"
| "string_from s (JStr t # vs) = string_from t vs"
| "string_from s (JNull # vs) = string_from s vs"
| "string_from s (_ # vs) = Inl JTypeError"

definition string_field :: "string \<Rightarrow> (string \<times> json) list \<Rightarrow> json_error + string" where
  "string_field name ms = string_from [] (named name ms)"

text \<open>A \<open>json.RawMessage\<close> field: \<^term>\<open>None\<close> is the empty message of an absent member.\<close>

definition raw_field :: "string \<Rightarrow> (string \<times> json) list \<Rightarrow> json option" where
  "raw_field name ms = (case named name ms of [] \<Rightarrow> None | vs \<Rightarrow> Some (last vs))"

definition struct_field :: "string \<Rightarrow> (string \<times> json) list \<Rightarrow> json_error + (string \<times> json) list" where
  "struct_field name ms = res_bind (res_map members (named name ms)) (\<lambda>mss. Inr (concat mss))"

fun array_from :: "json list \<Rightarrow> json list \<Rightarrow> json_error + json list" where
  "array_from a [] = Inr a"
| "array_from a (JArr b # vs) = array_from b vs"
| "array_from a (JNull # vs) = array_from [] vs"
| "array_from a (_ # vs) = Inl JTypeError"

definition array_field :: "string \<Rightarrow> (string \<times> json) list \<Rightarrow> json_error + json list" where
  "array_field name ms = array_from [] (named name ms)"

section \<open>strconv.ParseInt\<close>

text \<open>
  \<open>strconv.ParseInt(s, 10, 64)\<close> with the value it returns beside an error: 0 for a syntax error and
  the nearest bound for a range error, which callers that drop the error go on with. Digits are
  read from the left, so a value that is already out of range hides a later syntax error.
\<close>

datatype num_error = ErrSyntax | ErrRange

fun parse_uint_loop :: "nat \<Rightarrow> string \<Rightarrow> nat \<times> num_error option" where
  "parse_uint_loop n [] = (n, None)"
| "parse_uint_loop n (c # cs) =
     (if \<not> is_digit c then (0, Some ErrSyntax)
      else if (2 ^ 64 - 1) div 10 + 1 \<le> n then (2 ^ 64 - 1, Some ErrRange)
      else let n1 = n * 10 + nat (digit_val c)
           in if 2 ^ 64 - 1 < n1 then (2 ^ 64 - 1, Some ErrRange) else parse_uint_loop n1 cs)"

definition parse_uint :: "string \<Rightarrow> nat \<times> num_error option" where
  "parse_uint s = (if s = [] then (0, Some ErrSyntax) else parse_uint_loop 0 s)"

definition parse_int64 :: "string \<Rightarrow> int \<times> num_error option" where
  "parse_int64 s =
     (if s = [] then (0, Some ErrSyntax)
      else let (neg, ds) = (if hd s = CHR ''+'' then (False, tl s)
                            else if hd s = CHR ''-'' then (True, tl s) else (False, s))
           in (case parse_uint ds of
                 (_, Some ErrSyntax) \<Rightarrow> (0, Some ErrSyntax)
               | (un, _) \<Rightarrow>
                   if \<not> neg \<and> 2 ^ 63 \<le> un then (2 ^ 63 - 1, Some ErrRange)
                   else if neg \<and> 2 ^ 63 < un then (- (2 ^ 63), Some ErrRange)
                   else (if neg then - int un else int un, None)))"

text \<open>An \<open>int64\<close> field: a literal that does not parse is a type error.\<close>

fun int_from :: "int \<Rightarrow> json list \<Rightarrow> json_error + int" where
  "int_from n [] = Inr n"
| "int_from n (JNum t # vs) =
     (case parse_int64 t of (m, None) \<Rightarrow> int_from m vs | (_, Some _) \<Rightarrow> Inl JTypeError)"
| "int_from n (JNull # vs) = int_from n vs"
| "int_from n (_ # vs) = Inl JTypeError"

definition int_field :: "string \<Rightarrow> (string \<times> json) list \<Rightarrow> json_error + int" where
  "int_field name ms = int_from 0 (named name ms)"

section \<open>Standard base64\<close>

definition b64_char :: "nat \<Rightarrow> char" where
  "b64_char d =
     (if d < 26 then char_of (65 + d) else if d < 52 then char_of (71 + d)
      else if d < 62 then char_of (d - 4) else if d = 62 then CHR ''+'' else CHR ''/'')"

text \<open>The 6-bit value of a character of the alphabet.\<close>

definition b64_val :: "char \<Rightarrow> nat option" where
  "b64_val c =
     (let n = of_char c :: nat
      in if 65 \<le> n \<and> n \<le> 90 then Some (n - 65)
         else if 97 \<le> n \<and> n \<le> 122 then Some (n - 71)
         else if 48 \<le> n \<and> n \<le> 57 then Some (n + 4)
         else if n = 43 then Some 62
         else if n = 47 then Some 63 else None)"

definition b64_quad :: "nat \<Rightarrow> string" where
  "b64_quad n = [b64_char (n div 262144), b64_char (n div 4096 mod 64), b64_char (n div 64 mod 64),
                 b64_char (n mod 64)]"

fun b64_encode :: "string \<Rightarrow> string" where
  "b64_encode [] = []"
| "b64_encode [a] = take 2 (b64_quad (of_char a * 65536)) @ ''==''"
| "b64_encode [a, b] = take 3 (b64_quad (of_char a * 65536 + of_char b * 256)) @ ''=''"
| "b64_encode (a # b # c # s) =
     b64_quad (of_char a * 65536 + of_char b * 256 + of_char c) @ b64_encode s"

text \<open>
  \<open>DecodeString\<close>, with the bytes decoded before the error, which \<open>decodeKV\<close> keeps. Line breaks
  are skipped; after a padded group anything that follows is an error.
\<close>

definition b64_bytes :: "nat \<Rightarrow> string" where
  "b64_bytes n = [char_of (n div 65536), char_of (n div 256 mod 256), char_of (n mod 256)]"

fun b64_decode_loop :: "string \<Rightarrow> string \<times> bool" where
  "b64_decode_loop [] = ([], True)"
| "b64_decode_loop (a # b # c # d # s) =
     (case (b64_val a, b64_val b, b64_val c, b64_val d) of
        (Some i, Some j, Some k, Some l) \<Rightarrow>
          (case b64_decode_loop s of
             (bs, ok) \<Rightarrow> (b64_bytes (i * 262144 + j * 4096 + k * 64 + l) @ bs, ok))
      | (Some i, Some j, Some k, None) \<Rightarrow>
          if d = CHR ''='' then (take 2 (b64_bytes (i * 262144 + j * 4096 + k * 64)), s = []) else ([], False)
      | (Some i, Some j, None, None) \<Rightarrow>
          if c = CHR ''='' \<and> d = CHR ''='' then (take 1 (b64_bytes (i * 262144 + j * 4096)), s = [])
          else ([], False)
      | _ \<Rightarrow> ([], False))"
| "b64_decode_loop _ = ([], False)"

definition b64_decode :: "string \<Rightarrow> string \<times> bool" where
  "b64_decode s = b64_decode_loop (filter (\<lambda>c. c \<noteq> char_of (10 :: nat) \<and> c \<noteq> char_of (13 :: nat)) s)"

section \<open>Lemmas\<close>

lemma b64_val_char: "d < 64 \<Longrightarrow> b64_val (b64_char d) = Some d"
  by (auto simp: b64_val_def b64_char_def Let_def)

lemma b64_char_printable:
  "d < 64 \<Longrightarrow> (of_char (b64_char d) :: nat) \<noteq> 61 \<and> (of_char (b64_char d) :: nat) \<noteq> 10 \<and>
     (of_char (b64_char d) :: nat) \<noteq> 13"
  by (auto simp: b64_char_def)

lemma b64_val_pad [simp]: "b64_val (CHR ''='') = None"
  by (simp add: b64_val_def)

lemma b64_quad_sum:
  "(n :: nat) div 262144 * 262144 + n div 4096 mod 64 * 4096 + n div 64 mod 64 * 64 + n mod 64 = n"
proof -
  have "n div 64 div 64 = n div 4096" "n div 4096 div 64 = n div 262144"
    by (simp_all flip: div_mult2_eq)
  then have "n div 262144 * 64 + n div 4096 mod 64 = n div 4096"
    "n div 4096 * 64 + n div 64 mod 64 = n div 64" "n div 64 * 64 + n mod 64 = n"
    by (metis div_mult_mod_eq)+
  then show ?thesis by linarith
qed

lemma b64_quad_vals:
  assumes "n < 16777216"
  shows "b64_val (b64_char (n div 262144)) = Some (n div 262144)"
    "b64_val (b64_char (n div 4096 mod 64)) = Some (n div 4096 mod 64)"
    "b64_val (b64_char (n div 64 mod 64)) = Some (n div 64 mod 64)"
    "b64_val (b64_char (n mod 64)) = Some (n mod 64)"
  using assms by (simp_all add: b64_val_char less_mult_imp_div_less)

text \<open>One group of three bytes: its number is below \<open>2 ^ 24\<close>, its digits give the number back, and the
  number gives the bytes back.\<close>

lemma group_less:
  "(of_char a :: nat) * 65536 < 16777216"
  "(of_char a :: nat) * 65536 + of_char b * 256 < 16777216"
  "(of_char a :: nat) * 65536 + of_char b * 256 + of_char c < 16777216"
  using nat_of_char_less_256 [of a] nat_of_char_less_256 [of b] nat_of_char_less_256 [of c] by linarith+

lemma div_low: "c < k \<Longrightarrow> (x * k + c) div k = (x :: nat)"
  and mod_low: "c < k \<Longrightarrow> (x * k + c) mod k = (c :: nat)"
  by simp_all

lemma b64_bytes_group:
  "b64_bytes (of_char a * 65536 + of_char b * 256 + of_char c) = [a, b, c]"
proof -
  let ?a = "of_char a :: nat" and ?b = "of_char b :: nat" and ?c = "of_char c :: nat"
  have n: "?a * 65536 + ?b * 256 + ?c = (?a * 256 + ?b) * 256 + ?c" by simp
  have c: "?c < 256" and b: "?b < 256" by simp_all
  have "((?a * 256 + ?b) * 256 + ?c) div 256 = ?a * 256 + ?b" using c by (rule div_low)
  moreover have "((?a * 256 + ?b) * 256 + ?c) div 65536 = ((?a * 256 + ?b) * 256 + ?c) div 256 div 256"
    by (simp flip: div_mult2_eq)
  moreover have "(?a * 256 + ?b) div 256 = ?a" using b by simp
  moreover have "((?a * 256 + ?b) * 256 + ?c) mod 256 = ?c" "(?a * 256 + ?b) mod 256 = ?b"
    using b c by (intro mod_low; simp)+
  ultimately show ?thesis unfolding n b64_bytes_def by (simp only: char_of_char)
qed

lemma b64_bytes_short:
  "take 2 (b64_bytes (of_char a * 65536 + of_char b * 256)) = [a, b]"
  "take 1 (b64_bytes (of_char a * 65536)) = [a]"
  using b64_bytes_group [of a b "char_of (0 :: nat)"]
    b64_bytes_group [of a "char_of (0 :: nat)" "char_of (0 :: nat)"] by simp_all

lemma group_low_zero:
  "((of_char a :: nat) * 65536 + of_char b * 256) mod 64 = 0"
  "((of_char a :: nat) * 65536) div 64 mod 64 = 0" "((of_char a :: nat) * 65536) mod 64 = 0"
proof -
  have "(of_char a :: nat) * 65536 + of_char b * 256 = (of_char a * 1024 + of_char b * 4) * 64" by simp
  then show "((of_char a :: nat) * 65536 + of_char b * 256) mod 64 = 0" by (metis mod_mult_self2_is_0)
  have "(of_char a :: nat) * 65536 = (of_char a * 16 * 64) * 64" by simp
  then show "((of_char a :: nat) * 65536) div 64 mod 64 = 0" "((of_char a :: nat) * 65536) mod 64 = 0"
    by (metis mod_mult_self2_is_0 nonzero_mult_div_cancel_right zero_neq_numeral)+
qed

lemma decode_quads:
  assumes "n < 16777216"
  shows "b64_decode_loop (b64_quad n @ s) = (b64_bytes n @ fst (b64_decode_loop s), snd (b64_decode_loop s))"
    "n mod 64 = 0 \<Longrightarrow> b64_decode_loop (take 3 (b64_quad n) @ ''='') = (take 2 (b64_bytes n), True)"
    "n mod 64 = 0 \<Longrightarrow> n div 64 mod 64 = 0 \<Longrightarrow>
      b64_decode_loop (take 2 (b64_quad n) @ ''=='') = (take 1 (b64_bytes n), True)"
  using b64_quad_sum [of n]
  by (simp_all add: b64_quad_def b64_quad_vals [OF assms] numeral_3_eq_3 split: prod.splits)

lemma b64_decode_loop_encode: "b64_decode_loop (b64_encode s) = (s, True)"
proof (induction s rule: b64_encode.induct)
  case (2 a)
  show ?case using decode_quads(3) [OF group_less(1) [of a] group_low_zero(3,2)] b64_bytes_short(2) [of a]
    by (simp only: b64_encode.simps)
next
  case (3 a b)
  show ?case using decode_quads(2) [OF group_less(2) [of a b] group_low_zero(1)] b64_bytes_short(1) [of a b]
    by (simp only: b64_encode.simps)
next
  case (4 a b c s)
  then show ?case using decode_quads(1) [OF group_less(3) [of a b c]]
    by (simp only: b64_encode.simps b64_bytes_group) simp
qed simp

lemma b64_encode_no_break:
  "c \<in> set (b64_encode s) \<Longrightarrow> (of_char c :: nat) \<noteq> 10 \<and> (of_char c :: nat) \<noteq> 13"
proof (induction s rule: b64_encode.induct)
  case (2 a)
  then show ?case using b64_char_printable
    by (auto simp: b64_quad_def less_mult_imp_div_less)
next
  case (3 a b)
  then show ?case using b64_char_printable group_less(2) [of a b]
    by (auto simp: b64_quad_def less_mult_imp_div_less numeral_3_eq_3)
next
  case (4 a b d s)
  then show ?case using b64_char_printable group_less(3) [of a b d]
    by (auto simp: b64_quad_def less_mult_imp_div_less)
qed simp

lemma b64_decode_encode [simp]: "b64_decode (b64_encode s) = (s, True)"
proof -
  have "filter (\<lambda>c. c \<noteq> char_of (10 :: nat) \<and> c \<noteq> char_of (13 :: nat)) (b64_encode s) = b64_encode s"
    using b64_encode_no_break by (intro filter_True) force
  then show ?thesis by (simp add: b64_decode_def b64_decode_loop_encode)
qed

lemma b64_encode_inj: "b64_encode s = b64_encode t \<Longrightarrow> s = t"
  by (metis b64_decode_encode prod.inject)

subsection \<open>Member names\<close>

lemma fold_name_ascii: "list_all (\<lambda>c. (of_char c :: nat) < 128) s \<Longrightarrow> fold_name s = map upper_char s"
proof (induction s)
  case Nil
  then show ?case by (subst fold_name.simps) simp
next
  case (Cons c s)
  have "\<not> has_prefix (c # s) (bytes [226, 132, 170])" "\<not> has_prefix (c # s) (bytes [197, 191])"
    using Cons.prems by (auto simp: has_prefix_def bytes_def)
  with Cons show ?case by (subst fold_name.simps) simp
qed

subsection \<open>Integers\<close>

lemma dec_val_Cons: "dec_val (c # cs) = digit_val c * 10 ^ length cs + dec_val cs"
  by (induction cs rule: rev_induct) (simp_all add: dec_val_def algebra_simps)

lemma dec_val_nonneg: "list_all is_digit ds \<Longrightarrow> 0 \<le> dec_val ds"
  by (induction ds) (simp_all add: dec_val_Cons digit_val_def is_digit_def, simp add: dec_val_def)

lemma parse_uint_loop_digits:
  "list_all is_digit ds \<Longrightarrow> int n * 10 ^ length ds + dec_val ds < 2 ^ 64 \<Longrightarrow>
     parse_uint_loop n ds = (nat (int n * 10 ^ length ds + dec_val ds), None)"
proof (induction ds arbitrary: n)
  case Nil
  then show ?case by (simp add: dec_val_def)
next
  case (Cons c cs)
  let ?m = "n * 10 + nat (digit_val c)"
  have d: "0 \<le> digit_val c" "digit_val c \<le> 9" using Cons.prems(1) by (auto simp: is_digit_def digit_val_def)
  have e: "int ?m * 10 ^ length cs + dec_val cs = int n * 10 ^ length (c # cs) + dec_val (c # cs)"
    using d(1) by (simp add: dec_val_Cons algebra_simps)
  have "int ?m \<le> int ?m * 10 ^ length cs" by (simp add: mult_le_cancel_left1)
  with e Cons.prems dec_val_nonneg [of cs] have m: "int ?m < 2 ^ 64" by simp
  then have "?m < 2 ^ 64" by (metis of_nat_less_iff of_nat_numeral of_nat_power)
  then have "\<not> 2 ^ 64 - 1 < ?m" "\<not> (2 ^ 64 - 1) div 10 + 1 \<le> n" by auto
  with Cons.IH [of ?m] Cons.prems e show ?case by (simp add: Let_def)
qed

lemma parse_int64_itoa [simp]: "in64 x \<Longrightarrow> parse_int64 (itoa x) = (x, None)"
proof -
  assume x: "in64 x"
  obtain d ds where d: "nat_to_dec (nat \<bar>x\<bar>) = d # ds" "is_digit d"
    using nat_to_dec_hd by blast
  then have all: "list_all is_digit (d # ds)" and v: "dec_val (d # ds) = \<bar>x\<bar>"
    using nat_to_dec_digits [of "nat \<bar>x\<bar>"] dec_val_nat_to_dec [of "nat \<bar>x\<bar>"] by auto
  have abs64: "\<bar>x\<bar> < 2 ^ 64" using x by (auto simp: in64_def)
  have u: "parse_uint (d # ds) = (nat \<bar>x\<bar>, None)"
    using parse_uint_loop_digits [OF all, of 0] v abs64 by (simp add: parse_uint_def del: parse_uint_loop.simps)
  show ?thesis
  proof (cases "x < 0")
    case True
    then have "itoa x = CHR ''-'' # d # ds" using d by (simp add: itoa_def)
    with u x True show ?thesis by (simp add: parse_int64_def in64_def)
  next
    case False
    then have "itoa x = d # ds" using d by (simp add: itoa_def)
    with u x False digit_no_sign [OF d(2)] show ?thesis by (simp add: parse_int64_def in64_def)
  qed
qed

lemma parse_int64_in64: "in64 (fst (parse_int64 s))"
  by (auto simp: parse_int64_def in64_def Let_def split: prod.splits option.splits num_error.splits)

end
