(* ===== verification/Etcd_Http.thy ===== *)
theory Etcd_Http
  imports Go_Json
begin

text \<open>
  \<^verbatim>\<open>internal/etcdhttp/client.go\<close>: the client of etcd's JSON gateway. A request is the record the
  code hands to \<open>http.Client.Do\<close>, with its body as a JSON document. The network is an argument of
  every call, a function on a state of its own: what \<open>url.Parse\<close> rejects and how a request is
  answered. The body of an answer is the sequence of documents its \<open>json.Decoder\<close> reads and the
  error that ends it, so a one-shot call and the watch stream read it alike.
\<close>

section \<open>Requests and answers\<close>

record http_request =
  rq_method :: string
  rq_url :: string
  rq_content_type :: string
  rq_body :: json

record http_response =
  rs_status :: int
  rs_status_text :: string
  rs_text :: string
  rs_values :: "json list"
  rs_end :: string

record 's http_net =
  url_error :: "string \<Rightarrow> string option"
  do_request :: "http_request \<Rightarrow> 's \<Rightarrow> (string + http_response) \<times> 's"

datatype etcd_error =
    BadRequest string
  | TransportError string
  | StatusError string string string
  | KeepaliveDecode json_error
  | DecodeError json_error
  | NumberError num_error
  | CorruptInput

type_synonym 'a etcd_result = "etcd_error + 'a"

section \<open>The client\<close>

record etcd_client =
  endpoint_url :: string

definition trim_right_char :: "char \<Rightarrow> string \<Rightarrow> string" where
  "trim_right_char c s = rev (dropWhile (\<lambda>x. x = c) (rev s))"

definition new_etcd_client :: "string \<Rightarrow> etcd_client" where
  "new_etcd_client e = \<lparr>endpoint_url = trim_right_char CHR ''/'' e\<rparr>"

record kv =
  kv_key :: string
  kv_value :: string
  kv_mod_revision :: int

record etcd_event =
  ee_type :: string
  ee_kv :: kv
  ee_prev_kv :: kv
  ee_revision :: int

text \<open>
  \<open>prefixEnd\<close> walks from the last byte to the first, dropping bytes \<open>0xff\<close>, and increments the
  first other byte it meets; the argument is the slice still to look at, last byte first.
\<close>

fun prefix_end_loop :: "string \<Rightarrow> string" where
  "prefix_end_loop [] = [char_of (0 :: nat)]"
| "prefix_end_loop (c # cs) =
     (if of_char c < (255 :: nat) then rev (char_of (of_char c + 1 :: nat) # cs) else prefix_end_loop cs)"

definition prefix_end :: "string \<Rightarrow> string" where
  "prefix_end p = prefix_end_loop (rev p)"

definition b64 :: "string \<Rightarrow> string" where
  "b64 v = b64_encode v"

text \<open>
  \<open>parseInt\<close> of a raw member: absent is 0, a string is unquoted, and the text of any other value is
  parsed as it stands, which fails unless it is a number. The value comes with the error because
  most callers drop the error.
\<close>

definition parse_raw_int :: "json option \<Rightarrow> int \<times> num_error option" where
  "parse_raw_int raw =
     (case raw of
        None \<Rightarrow> (0, None)
      | Some (JStr s) \<Rightarrow> parse_int64 s
      | Some (JNum t) \<Rightarrow> parse_int64 t
      | Some _ \<Rightarrow> (0, Some ErrSyntax))"

definition new_request :: "'s http_net \<Rightarrow> etcd_client \<Rightarrow> string \<Rightarrow> json \<Rightarrow> http_request etcd_result" where
  "new_request net c path body =
     (case url_error net (endpoint_url c @ path) of
        Some e \<Rightarrow> Inl (BadRequest e)
      | None \<Rightarrow> Inr \<lparr>rq_method = ''POST'', rq_url = endpoint_url c @ path,
                    rq_content_type = ''application/json'', rq_body = body\<rparr>)"

definition decode_first :: "(json \<Rightarrow> json_error + 'a) \<Rightarrow> http_response \<Rightarrow> json_error + 'a" where
  "decode_first dec rs = (case rs_values rs of [] \<Rightarrow> Inl (JEnd (rs_end rs)) | v # _ \<Rightarrow> dec v)"

text \<open>Sending a request and the check of the status class that \<open>post\<close>, \<open>KeepAliveOnce\<close> and
  \<open>WatchPrefix\<close> share; \<open>label\<close> is what the error message names.\<close>

definition send :: "'s http_net \<Rightarrow> etcd_client \<Rightarrow> string \<Rightarrow> string \<Rightarrow> json \<Rightarrow> 's \<Rightarrow> http_response etcd_result \<times> 's" where
  "send net c path label body s =
     (case new_request net c path body of
        Inl e \<Rightarrow> (Inl e, s)
      | Inr rq \<Rightarrow>
          (case do_request net rq s of
             (Inl e, s') \<Rightarrow> (Inl (TransportError e), s')
           | (Inr rs, s') \<Rightarrow>
               (if go_div (rs_status rs) 100 \<noteq> 2
                then Inl (StatusError label (rs_status_text rs) (take 4096 (rs_text rs)))
                else Inr rs, s')))"

definition post ::
  "'s http_net \<Rightarrow> etcd_client \<Rightarrow> string \<Rightarrow> json \<Rightarrow> (json \<Rightarrow> json_error + 'a) \<Rightarrow> 's \<Rightarrow> 'a etcd_result \<times> 's" where
  "post net c path body dec s =
     (case send net c path path body s of
        (Inl e, s') \<Rightarrow> (Inl e, s')
      | (Inr rs, s') \<Rightarrow> (map_sum DecodeError id (decode_first dec rs), s'))"

section \<open>Leases\<close>

definition grant_body :: "int \<Rightarrow> json" where
  "grant_body ttl = JObj [(''TTL'', JNum (itoa ttl))]"

definition decode_grant :: "json \<Rightarrow> json_error + json option" where
  "decode_grant j = res_bind (members j) (\<lambda>ms. Inr (raw_field ''ID'' ms))"

definition int_result :: "int \<times> num_error option \<Rightarrow> int etcd_result" where
  "int_result r = (case r of (n, None) \<Rightarrow> Inr n | (_, Some e) \<Rightarrow> Inl (NumberError e))"

definition grant :: "'s http_net \<Rightarrow> etcd_client \<Rightarrow> int \<Rightarrow> 's \<Rightarrow> int etcd_result \<times> 's" where
  "grant net c ttl s =
     (case post net c ''/v3/lease/grant'' (grant_body ttl) decode_grant s of
        (Inl e, s') \<Rightarrow> (Inl e, s')
      | (Inr i, s') \<Rightarrow> (int_result (parse_raw_int i), s'))"

definition lease_body :: "int \<Rightarrow> json" where
  "lease_body l = JObj [(''ID'', JStr (itoa l))]"

text \<open>Decoding into a \<open>map[string]any\<close> needs an object or \<open>null\<close>; into an \<open>any\<close>, any document.\<close>

definition decode_map :: "json \<Rightarrow> json_error + unit" where
  "decode_map j = res_bind (members j) (\<lambda>_. Inr ())"

definition decode_any :: "json \<Rightarrow> json_error + unit" where
  "decode_any j = Inr ()"

definition keep_alive_once :: "'s http_net \<Rightarrow> etcd_client \<Rightarrow> int \<Rightarrow> 's \<Rightarrow> unit etcd_result \<times> 's" where
  "keep_alive_once net c l s =
     (case send net c ''/v3/lease/keepalive'' ''keepalive'' (lease_body l) s of
        (Inl e, s') \<Rightarrow> (Inl e, s')
      | (Inr rs, s') \<Rightarrow> (map_sum KeepaliveDecode id (decode_first decode_map rs), s'))"

definition revoke :: "'s http_net \<Rightarrow> etcd_client \<Rightarrow> int \<Rightarrow> 's \<Rightarrow> unit etcd_result \<times> 's" where
  "revoke net c l s = post net c ''/v3/lease/revoke'' (lease_body l) decode_any s"

section \<open>Keys\<close>

definition put_body :: "string \<Rightarrow> string \<Rightarrow> int \<Rightarrow> json" where
  "put_body k v l =
     JObj ((''key'', JStr (b64 k)) # (if l \<noteq> 0 then [(''lease'', JStr (itoa l))] else [])
           @ [(''value'', JStr (b64 v))])"

definition put :: "'s http_net \<Rightarrow> etcd_client \<Rightarrow> string \<Rightarrow> string \<Rightarrow> int \<Rightarrow> 's \<Rightarrow> unit etcd_result \<times> 's" where
  "put net c k v l s = post net c ''/v3/kv/put'' (put_body k v l) decode_any s"

definition delete_body :: "string \<Rightarrow> json" where
  "delete_body k = JObj [(''key'', JStr (b64 k))]"

definition delete_key :: "'s http_net \<Rightarrow> etcd_client \<Rightarrow> string \<Rightarrow> 's \<Rightarrow> unit etcd_result \<times> 's" where
  "delete_key net c k s = post net c ''/v3/kv/deleterange'' (delete_body k) decode_any s"

text \<open>The anonymous struct of a key-value pair, shared by range answers and watch events.\<close>

record raw_kv =
  rk_key :: string
  rk_value :: string
  rk_mod :: "json option"

definition decode_raw_kv :: "(string \<times> json) list \<Rightarrow> json_error + raw_kv" where
  "decode_raw_kv ms =
     res_bind (string_field ''Key'' ms) (\<lambda>k. res_bind (string_field ''Value'' ms) (\<lambda>v.
       Inr \<lparr>rk_key = k, rk_value = v, rk_mod = raw_field ''mod_revision'' ms\<rparr>))"

definition range_body :: "string \<Rightarrow> json" where
  "range_body p = JObj [(''key'', JStr (b64 p)), (''range_end'', JStr (b64 (prefix_end p)))]"

definition decode_range :: "json \<Rightarrow> json_error + raw_kv list \<times> json option" where
  "decode_range j =
     res_bind (members j) (\<lambda>ms. res_bind (struct_field ''header'' ms) (\<lambda>h.
       res_bind (array_field ''kvs'' ms) (\<lambda>items.
         res_bind (res_map (\<lambda>item. res_bind (members item) decode_raw_kv) items) (\<lambda>kvs.
           Inr (kvs, raw_field ''revision'' h)))))"

definition decode_b64 :: "string \<Rightarrow> string etcd_result" where
  "decode_b64 s = (case b64_decode s of (bs, True) \<Rightarrow> Inr bs | (_, False) \<Rightarrow> Inl CorruptInput)"

definition range_kv :: "raw_kv \<Rightarrow> kv etcd_result" where
  "range_kv item =
     res_bind (decode_b64 (rk_key item)) (\<lambda>k. res_bind (decode_b64 (rk_value item)) (\<lambda>v.
       Inr \<lparr>kv_key = k, kv_value = v, kv_mod_revision = fst (parse_raw_int (rk_mod item))\<rparr>))"

definition range_prefix :: "'s http_net \<Rightarrow> etcd_client \<Rightarrow> string \<Rightarrow> 's \<Rightarrow> (kv list \<times> int) etcd_result \<times> 's" where
  "range_prefix net c p s =
     (case post net c ''/v3/kv/range'' (range_body p) decode_range s of
        (Inl e, s') \<Rightarrow> (Inl e, s')
      | (Inr (items, rv), s') \<Rightarrow>
          (res_bind (res_map range_kv items) (\<lambda>kvs. Inr (kvs, fst (parse_raw_int rv))), s'))"

section \<open>Watching\<close>

definition watch_body :: "string \<Rightarrow> int \<Rightarrow> json" where
  "watch_body p start =
     JObj [(''create_request'', JObj [(''key'', JStr (b64 p)), (''prev_kv'', JBool True),
       (''progress_notify'', JBool True), (''range_end'', JStr (b64 (prefix_end p))),
       (''start_revision'', JStr (itoa start))])]"

record raw_event =
  re_type :: string
  re_kv :: raw_kv
  re_prev :: raw_kv

definition decode_raw_event :: "json \<Rightarrow> json_error + raw_event" where
  "decode_raw_event j =
     res_bind (members j) (\<lambda>ms. res_bind (string_field ''type'' ms) (\<lambda>t.
       res_bind (struct_field ''kv'' ms) (\<lambda>k. res_bind (decode_raw_kv k) (\<lambda>kv.
         res_bind (struct_field ''prev_kv'' ms) (\<lambda>pk. res_bind (decode_raw_kv pk) (\<lambda>pv.
           Inr \<lparr>re_type = t, re_kv = kv, re_prev = pv\<rparr>))))))"

definition decode_watch :: "json \<Rightarrow> json_error + raw_event list \<times> json option" where
  "decode_watch j =
     res_bind (members j) (\<lambda>ms. res_bind (struct_field ''result'' ms) (\<lambda>r.
       res_bind (struct_field ''header'' r) (\<lambda>h. res_bind (array_field ''events'' r) (\<lambda>es.
         res_bind (res_map decode_raw_event es) (\<lambda>evs. Inr (evs, raw_field ''revision'' h))))))"

text \<open>Unlike \<open>RangePrefix\<close>, \<open>decodeKV\<close> drops the errors and keeps what was decoded before them.\<close>

definition decode_kv :: "raw_kv \<Rightarrow> kv" where
  "decode_kv r =
     \<lparr>kv_key = fst (b64_decode (rk_key r)), kv_value = fst (b64_decode (rk_value r)),
      kv_mod_revision = fst (parse_raw_int (rk_mod r))\<rparr>"

definition watch_event_of :: "int \<Rightarrow> raw_event \<Rightarrow> etcd_event" where
  "watch_event_of hr e =
     (let k = decode_kv (re_kv e)
      in \<lparr>ee_type = re_type e, ee_kv = k, ee_prev_kv = decode_kv (re_prev e),
          ee_revision = (if 0 < kv_mod_revision k then kv_mod_revision k else hr)\<rparr>)"

text \<open>The callback may fail, which ends the watch with its error; it has a state of its own.\<close>

fun watch_events :: "(etcd_event \<Rightarrow> 'h \<Rightarrow> 'e option \<times> 'h) \<Rightarrow> int \<Rightarrow> raw_event list \<Rightarrow> 'h \<Rightarrow> 'e option \<times> 'h" where
  "watch_events handle hr [] h = (None, h)"
| "watch_events handle hr (e # es) h =
     (case handle (watch_event_of hr e) h of
        (Some err, h') \<Rightarrow> (Some err, h')
      | (None, h') \<Rightarrow> watch_events handle hr es h')"

fun watch_loop ::
  "(etcd_event \<Rightarrow> 'h \<Rightarrow> 'e option \<times> 'h) \<Rightarrow> string \<Rightarrow> json list \<Rightarrow> 'h \<Rightarrow> (etcd_error + 'e) \<times> 'h" where
  "watch_loop handle en [] h = (Inl (DecodeError (JEnd en)), h)"
| "watch_loop handle en (j # js) h =
     (case decode_watch j of
        Inl e \<Rightarrow> (Inl (DecodeError e), h)
      | Inr (evs, rv) \<Rightarrow>
          (case watch_events handle (fst (parse_raw_int rv)) evs h of
             (Some err, h') \<Rightarrow> (Inr err, h')
           | (None, h') \<Rightarrow> watch_loop handle en js h'))"

text \<open>The error a watch ends with: the client's, or the callback's.\<close>

definition watch_prefix ::
  "'s http_net \<Rightarrow> etcd_client \<Rightarrow> string \<Rightarrow> int \<Rightarrow> (etcd_event \<Rightarrow> 'h \<Rightarrow> 'e option \<times> 'h) \<Rightarrow> 'h \<Rightarrow> 's \<Rightarrow>
     (etcd_error + 'e) \<times> 'h \<times> 's" where
  "watch_prefix net c p start handle h s =
     (case send net c ''/v3/watch'' ''watch'' (watch_body p start) s of
        (Inl e, s') \<Rightarrow> (Inl e, h, s')
      | (Inr rs, s') \<Rightarrow>
          (case watch_loop handle (rs_end rs) (rs_values rs) h of (r, h') \<Rightarrow> (r, h', s')))"

section \<open>Prefix ranges\<close>

text \<open>
  What etcd's range request selects: keys from \<open>key\<close> on and below \<open>range_end\<close>, where a
  \<open>range_end\<close> of one zero byte stands for no upper bound.
\<close>

definition etcd_in_range :: "string \<Rightarrow> string \<Rightarrow> string \<Rightarrow> bool" where
  "etcd_in_range from range_end k \<longleftrightarrow> from \<le> k \<and> (range_end = [char_of (0 :: nat)] \<or> k < range_end)"

lemma append_le_cancel [simp]: "p @ s \<le> p @ t \<longleftrightarrow> s \<le> (t :: string)"
  by (induction p) auto

lemma append_less_cancel [simp]: "p @ s < p @ t \<longleftrightarrow> s < (t :: string)"
  by (induction p) auto

lemma le_append [simp]: "p \<le> p @ (s :: string)"
  using append_le_cancel [of p "[]" s] by simp

lemma append_le_self [simp]: "p @ s \<le> p \<longleftrightarrow> s = ([] :: string)"
  using append_le_cancel [of p s "[]"] by simp

lemma prefix_end_snoc:
  "prefix_end (p @ [c]) = (if of_char c < (255 :: nat) then p @ [char_of (of_char c + 1 :: nat)] else prefix_end p)"
  by (simp add: prefix_end_def)

lemma char_succ: "of_char c < (255 :: nat) \<Longrightarrow> d < char_of (Suc (of_char c)) \<longleftrightarrow> d \<le> (c :: char)"
  by (simp add: less_char_def less_eq_char_def less_Suc_eq_le)

lemma last_byte_range:
  "of_char c < (255 :: nat) \<Longrightarrow> p @ [c] \<le> k \<and> k < p @ [char_of (of_char c + 1 :: nat)] \<longleftrightarrow> has_prefix k (p @ [c])"
proof (induction p arbitrary: k)
  case Nil
  then show ?case
    by (cases k) (auto simp: has_prefix_def char_succ)
next
  case (Cons a p)
  note IH = Cons.IH [OF Cons.prems]
  show ?case
  proof (cases k)
    case (Cons x l)
    show ?thesis
    proof (cases "x = a")
      case True
      then show ?thesis using IH [of l] Cons by (simp add: has_prefix_def)
    next
      case False
      then have "\<not> (a < x \<and> x < a)" "\<not> has_prefix k ((a # p) @ [c])" by (auto simp: Cons has_prefix_def)
      with False Cons show ?thesis by auto
    qed
  qed (simp add: has_prefix_def)
qed

lemma char_top: "\<not> of_char c < (255 :: nat) \<Longrightarrow> c \<le> d \<longleftrightarrow> d = (c :: char)"
proof -
  assume "\<not> of_char c < (255 :: nat)"
  then have c: "of_char c = (255 :: nat)" using nat_of_char_less_256 [of c] by linarith
  have "(255 :: nat) \<le> of_char d \<longleftrightarrow> of_char d = (255 :: nat)" using nat_of_char_less_256 [of d] by linarith
  then show ?thesis by (metis c less_eq_char_def of_char_eq_iff)
qed

lemma prefix_range: "etcd_in_range p (prefix_end p) k \<longleftrightarrow> has_prefix k p"
proof (induction p rule: rev_induct)
  case Nil
  then show ?case by (simp add: etcd_in_range_def prefix_end_def has_prefix_def)
next
  case (snoc c p)
  show ?case
  proof (cases "of_char c < (255 :: nat)")
    case True
    then have "prefix_end (p @ [c]) \<noteq> [char_of (0 :: nat)]"
      by (auto simp: prefix_end_snoc append_eq_Cons_conv char_of_eq_iff take_bit_eq_mod)
    with True last_byte_range [OF True, of p k] show ?thesis
      by (simp add: etcd_in_range_def prefix_end_snoc)
  next
    case False
    have top: "p @ [c] \<le> p @ t \<longleftrightarrow> has_prefix (p @ t) (p @ [c])" for t
    proof (cases t)
      case (Cons d u)
      have "[c] \<le> d # u \<longleftrightarrow> c \<le> d" by (cases u) (simp_all add: le_less disj_commute)
      with char_top [OF False, of d] Cons show ?thesis by (simp add: has_prefix_def)
    qed (simp add: has_prefix_def)
    show ?thesis
    proof
      assume k: "etcd_in_range (p @ [c]) (prefix_end (p @ [c])) k"
      then have "p @ [c] \<le> k" by (simp add: etcd_in_range_def)
      with le_append have "p \<le> k" by (rule order_trans)
      with k False snoc have "has_prefix k p" by (simp add: etcd_in_range_def prefix_end_snoc)
      then obtain t where "k = p @ t" using has_prefixE by blast
      with k top show "has_prefix k (p @ [c])" by (simp add: etcd_in_range_def)
    next
      assume h: "has_prefix k (p @ [c])"
      then obtain t where t: "k = p @ [c] @ t" using has_prefixE by fastforce
      with snoc have "etcd_in_range p (prefix_end p) k" by simp
      with h t top show "etcd_in_range (p @ [c]) (prefix_end (p @ [c])) k"
        using False by (simp add: etcd_in_range_def prefix_end_snoc)
    qed
  qed
qed

section \<open>The documents of the gateway\<close>

text \<open>
  etcd's JSON gateway follows the JSON mapping of protocol buffers: bytes are base64, 64-bit
  integers are strings, and members with the default value (empty bytes, 0, the event type
  \<open>PUT\<close>) are left out. Members the client does not read may be present.
\<close>

definition bytes_member :: "string \<Rightarrow> string \<Rightarrow> (string \<times> json) list" where
  "bytes_member name v = (if v = [] then [] else [(name, JStr (b64 v))])"

definition int_member :: "string \<Rightarrow> int \<Rightarrow> (string \<times> json) list" where
  "int_member name n = (if n = 0 then [] else [(name, JStr (itoa n))])"

definition gateway_kv :: "kv \<Rightarrow> json" where
  "gateway_kv x =
     JObj (bytes_member ''key'' (kv_key x) @ int_member ''create_revision'' (kv_mod_revision x)
           @ int_member ''mod_revision'' (kv_mod_revision x) @ int_member ''version'' 1
           @ bytes_member ''value'' (kv_value x))"

definition gateway_header :: "int \<Rightarrow> json" where
  "gateway_header rv = JObj (int_member ''cluster_id'' 1 @ int_member ''revision'' rv)"

definition gateway_range :: "kv list \<Rightarrow> int \<Rightarrow> json" where
  "gateway_range kvs rv =
     JObj ((''header'', gateway_header rv) #
           (if kvs = [] then [] else [(''kvs'', JArr (map gateway_kv kvs)), (''count'', JStr (itoa (int (length kvs))))]))"

text \<open>A watch event: a put carries the new pair, a deletion the key with its revision and the old pair.\<close>

datatype store_event = StorePut kv | StoreDelete string int kv

definition key_only :: "string \<Rightarrow> int \<Rightarrow> kv" where
  "key_only k r = \<lparr>kv_key = k, kv_value = [], kv_mod_revision = r\<rparr>"

definition gateway_event :: "store_event \<Rightarrow> json" where
  "gateway_event e =
     (case e of
        StorePut x \<Rightarrow> JObj [(''kv'', gateway_kv x)]
      | StoreDelete k r old \<Rightarrow>
          JObj [(''type'', JStr ''DELETE''), (''kv'', gateway_kv (key_only k r)), (''prev_kv'', gateway_kv old)])"

definition gateway_watch :: "store_event list \<Rightarrow> int \<Rightarrow> json" where
  "gateway_watch evs rv =
     JObj [(''result'', JObj ((''header'', gateway_header rv) #
       (if evs = [] then [] else [(''events'', JArr (map gateway_event evs))])))]"

definition kv_ok :: "kv \<Rightarrow> bool" where
  "kv_ok x \<longleftrightarrow> 0 < kv_mod_revision x \<and> in64 (kv_mod_revision x)"

definition no_kv :: kv where
  "no_kv = \<lparr>kv_key = [], kv_value = [], kv_mod_revision = 0\<rparr>"

definition delivered :: "store_event \<Rightarrow> etcd_event" where
  "delivered e =
     (case e of
        StorePut x \<Rightarrow> \<lparr>ee_type = [], ee_kv = x, ee_prev_kv = no_kv, ee_revision = kv_mod_revision x\<rparr>
      | StoreDelete k r old \<Rightarrow>
          \<lparr>ee_type = ''DELETE'', ee_kv = key_only k r, ee_prev_kv = old, ee_revision = r\<rparr>)"

fun store_event_ok :: "store_event \<Rightarrow> bool" where
  "store_event_ok (StorePut x) = kv_ok x"
| "store_event_ok (StoreDelete k r old) = (0 < r \<and> in64 r \<and> kv_ok old)"

lemma folded_names:
  "fold_name ''key'' = ''KEY''" "fold_name ''Key'' = ''KEY''" "fold_name ''value'' = ''VALUE''"
  "fold_name ''Value'' = ''VALUE''" "fold_name ''mod_revision'' = ''MOD_REVISION''"
  "fold_name ''create_revision'' = ''CREATE_REVISION''" "fold_name ''version'' = ''VERSION''"
  "fold_name ''header'' = ''HEADER''" "fold_name ''kvs'' = ''KVS''" "fold_name ''count'' = ''COUNT''"
  "fold_name ''cluster_id'' = ''CLUSTER_ID''" "fold_name ''revision'' = ''REVISION''"
  "fold_name ''kv'' = ''KV''" "fold_name ''prev_kv'' = ''PREV_KV''" "fold_name ''type'' = ''TYPE''"
  "fold_name ''events'' = ''EVENTS''" "fold_name ''result'' = ''RESULT''" "fold_name ''ID'' = ''ID''"
  "fold_name ''TTL'' = ''TTL''"
  by (simp_all add: fold_name_ascii upper_char_def char_of_def bit_0)

lemmas decode_simps = named_def folded_names string_field_def raw_field_def struct_field_def array_field_def
  bytes_member_def int_member_def

lemma b64_decode_opt: "b64_decode (if v = [] then [] else b64 v) = (v, True)"
  using b64_decode_encode [of v] by (cases "v = []") (simp_all add: b64_def)

lemma parse_raw_opt:
  "in64 n \<Longrightarrow> parse_raw_int (if n = 0 then None else Some (JStr (itoa n))) = (n, None)"
  by (simp add: parse_raw_int_def)

lemma decode_gateway_kv:
  assumes "in64 (kv_mod_revision x)"
  shows "\<exists>r. res_bind (members (gateway_kv x)) decode_raw_kv = Inr r \<and> range_kv r = Inr x \<and> decode_kv r = x"
proof -
  let ?r = "\<lparr>rk_key = if kv_key x = [] then [] else b64 (kv_key x),
        rk_value = if kv_value x = [] then [] else b64 (kv_value x),
        rk_mod = if kv_mod_revision x = 0 then None else Some (JStr (itoa (kv_mod_revision x)))\<rparr>"
  have "res_bind (members (gateway_kv x)) decode_raw_kv = Inr ?r"
    by (simp add: gateway_kv_def decode_raw_kv_def decode_simps)
  moreover have "range_kv ?r = Inr x" "decode_kv ?r = x"
    using assms by (simp_all only: range_kv_def decode_kv_def decode_b64_def raw_kv.simps b64_decode_opt
        parse_raw_opt prod.case bool.case res_bind_simps fst_conv kv.surjective [symmetric]) (cases x; simp)+
  ultimately show ?thesis by blast
qed

lemma res_map_related:
  assumes "\<And>x. x \<in> set xs \<Longrightarrow> \<exists>r. f (g x) = Inr r \<and> P r x"
  shows "\<exists>rs. res_map f (map g xs) = Inr rs \<and> list_all2 P rs xs"
  using assms
proof (induction xs)
  case (Cons x xs)
  then obtain r rs where "f (g x) = Inr r" "P r x" "res_map f (map g xs) = Inr rs" "list_all2 P rs xs"
    by (metis list.set_intros)
  then show ?case by auto
qed simp

lemma decode_gateway_header:
  "members (gateway_header rv) = Inr (int_member ''cluster_id'' 1 @ int_member ''revision'' rv)"
  "raw_field ''revision'' (int_member ''cluster_id'' 1 @ int_member ''revision'' rv) =
     (if rv = 0 then None else Some (JStr (itoa rv)))"
  by (simp_all add: gateway_header_def decode_simps)

lemma decode_gateway_range:
  assumes "\<And>x. x \<in> set kvs \<Longrightarrow> in64 (kv_mod_revision x)"
  shows "\<exists>items. decode_range (gateway_range kvs rv) = Inr (items, if rv = 0 then None else Some (JStr (itoa rv))) \<and>
    res_map range_kv items = Inr kvs"
proof -
  obtain items where items: "res_map (\<lambda>item. res_bind (members item) decode_raw_kv) (map gateway_kv kvs) = Inr items"
    "list_all2 (\<lambda>r x. range_kv r = Inr x \<and> decode_kv r = x) items kvs"
    using res_map_related [of kvs "\<lambda>item. res_bind (members item) decode_raw_kv" gateway_kv
        "\<lambda>r x. range_kv r = Inr x \<and> decode_kv r = x", OF decode_gateway_kv [OF assms]] by auto
  have "struct_field ''header'' ((''header'', gateway_header rv) # (if kvs = [] then []
      else [(''kvs'', JArr (map gateway_kv kvs)), (''count'', JStr (itoa (int (length kvs))))])) =
      Inr (int_member ''cluster_id'' 1 @ int_member ''revision'' rv)"
    by (simp add: struct_field_def named_def folded_names decode_gateway_header)
  moreover have "array_field ''kvs'' ((''header'', gateway_header rv) # (if kvs = [] then []
      else [(''kvs'', JArr (map gateway_kv kvs)), (''count'', JStr (itoa (int (length kvs))))])) =
      Inr (map gateway_kv kvs)"
    by (simp add: array_field_def named_def folded_names)
  ultimately have "decode_range (gateway_range kvs rv) = Inr (items, if rv = 0 then None else Some (JStr (itoa rv)))"
    using items(1) by (simp add: decode_range_def gateway_range_def decode_gateway_header)
  moreover have "res_map range_kv items = Inr kvs"
    unfolding res_map_Inr_iff using items(2) by (rule list_all2_mono) simp
  ultimately show ?thesis by blast
qed

lemma decode_gateway_event:
  assumes "store_event_ok e"
  shows "\<exists>r. decode_raw_event (gateway_event e) = Inr r \<and> (\<forall>hr. watch_event_of hr r = delivered e)"
proof -
  have nokv: "decode_raw_kv [] = Inr \<lparr>rk_key = [], rk_value = [], rk_mod = None\<rparr>"
    "decode_kv \<lparr>rk_key = [], rk_value = [], rk_mod = None\<rparr> = no_kv"
    by (simp_all add: decode_raw_kv_def decode_simps decode_kv_def no_kv_def parse_raw_int_def b64_decode_def)
  have kvs: "\<exists>ms r. members (gateway_kv x) = Inr ms \<and> decode_raw_kv ms = Inr r \<and> decode_kv r = x"
    if "in64 (kv_mod_revision x)" for x
    using decode_gateway_kv [OF that] by (auto simp: res_bind_Inr_iff)
  show ?thesis
  proof (cases e)
    case (StorePut x)
    with assms obtain ms r where "members (gateway_kv x) = Inr ms" "decode_raw_kv ms = Inr r" "decode_kv r = x"
      using kvs [of x] by (auto simp: kv_ok_def)
    with assms StorePut nokv show ?thesis
      by (auto simp: gateway_event_def decode_raw_event_def decode_simps watch_event_of_def delivered_def kv_ok_def)
  next
    case (StoreDelete k r old)
    with assms obtain ms x ms' x' where "members (gateway_kv (key_only k r)) = Inr ms" "decode_raw_kv ms = Inr x"
      "decode_kv x = key_only k r" "members (gateway_kv old) = Inr ms'" "decode_raw_kv ms' = Inr x'" "decode_kv x' = old"
      using kvs [of "key_only k r"] kvs [of old] by (auto simp: kv_ok_def key_only_def)
    with assms StoreDelete show ?thesis
      by (auto simp: gateway_event_def decode_raw_event_def decode_simps watch_event_of_def delivered_def key_only_def)
  qed
qed

lemma decode_gateway_watch:
  assumes "\<And>e. e \<in> set evs \<Longrightarrow> store_event_ok e"
  shows "\<exists>items. decode_watch (gateway_watch evs rv) = Inr (items, if rv = 0 then None else Some (JStr (itoa rv))) \<and>
    (\<forall>hr. map (watch_event_of hr) items = map delivered evs)"
proof -
  obtain items where items: "res_map decode_raw_event (map gateway_event evs) = Inr items"
    "list_all2 (\<lambda>r e. \<forall>hr. watch_event_of hr r = delivered e) items evs"
    using res_map_related [of evs decode_raw_event gateway_event
        "\<lambda>r e. \<forall>hr. watch_event_of hr r = delivered e", OF decode_gateway_event [OF assms]] by auto
  have "decode_watch (gateway_watch evs rv) = Inr (items, if rv = 0 then None else Some (JStr (itoa rv)))"
    using items(1)
    by (cases evs) (simp_all add: decode_watch_def gateway_watch_def struct_field_def array_field_def named_def folded_names decode_gateway_header)
  moreover have "map (watch_event_of hr) items = map delivered evs" for hr
    using items(2) by (induction rule: list_all2_induct) auto
  ultimately show ?thesis by blast
qed

text \<open>Calling a callback on a list of events until it fails.\<close>

fun run_handler :: "(etcd_event \<Rightarrow> 'h \<Rightarrow> 'e option \<times> 'h) \<Rightarrow> etcd_event list \<Rightarrow> 'h \<Rightarrow> 'e option \<times> 'h" where
  "run_handler handle [] h = (None, h)"
| "run_handler handle (e # es) h =
     (case handle e h of (Some err, h') \<Rightarrow> (Some err, h') | (None, h') \<Rightarrow> run_handler handle es h')"

lemma watch_events_run: "watch_events handle hr es h = run_handler handle (map (watch_event_of hr) es) h"
  by (induction es arbitrary: h) (auto split: option.splits prod.splits)

lemma run_handler_append:
  "run_handler handle (es @ fs) h =
     (case run_handler handle es h of (Some err, h') \<Rightarrow> (Some err, h') | (None, h') \<Rightarrow> run_handler handle fs h')"
  by (induction es arbitrary: h) (auto split: option.splits prod.splits)

lemma watch_loop_delivers:
  assumes "\<And>evs rv e. (evs, rv) \<in> set msgs \<Longrightarrow> e \<in> set evs \<Longrightarrow> store_event_ok e"
  shows "watch_loop handle en (map (\<lambda>(evs, rv). gateway_watch evs rv) msgs) h =
    (case run_handler handle (map delivered (concat (map fst msgs))) h of
       (Some err, h') \<Rightarrow> (Inr err, h') | (None, h') \<Rightarrow> (Inl (DecodeError (JEnd en)), h'))"
  using assms
proof (induction msgs arbitrary: h)
  case (Cons m msgs)
  obtain evs rv where m: "m = (evs, rv)" by fastforce
  have ok: "\<And>e. e \<in> set evs \<Longrightarrow> store_event_ok e" using Cons.prems m by auto
  obtain items rw where d: "decode_watch (gateway_watch evs rv) = Inr (items, rw)"
    "\<And>hr. map (watch_event_of hr) items = map delivered evs"
    using decode_gateway_watch [OF ok, of evs rv] by auto
  have IH: "watch_loop handle en (map (\<lambda>(evs, rv). gateway_watch evs rv) msgs) g =
    (case run_handler handle (map delivered (concat (map fst msgs))) g of
       (Some err, h') \<Rightarrow> (Inr err, h') | (None, h') \<Rightarrow> (Inl (DecodeError (JEnd en)), h'))" for g
    by (rule Cons.IH) (rule Cons.prems, auto)
  show ?case
    by (simp add: m d watch_events_run run_handler_append IH split: option.splits prod.splits)
qed simp

lemma send_ok:
  assumes "new_request net c path body = Inr rq" "do_request net rq s = (Inr rs, s')" "go_div (rs_status rs) 100 = 2"
  shows "send net c path label body s = (Inr rs, s')"
  using assms by (simp add: send_def)

lemma range_answers:
  assumes "new_request net c ''/v3/kv/range'' (range_body p) = Inr rq"
    and "do_request net rq s = (Inr rs, s')" "go_div (rs_status rs) 100 = 2"
    and "rs_values rs = gateway_range kvs rv # rest"
    and "\<And>x. x \<in> set kvs \<Longrightarrow> in64 (kv_mod_revision x)" "in64 rv"
  shows "range_prefix net c p s = (Inr (kvs, rv), s')"
proof -
  obtain items where "decode_range (gateway_range kvs rv) = Inr (items, if rv = 0 then None else Some (JStr (itoa rv)))"
    "res_map range_kv items = Inr kvs"
    using decode_gateway_range [OF assms(5)] by auto
  with assms(4) parse_raw_opt [OF assms(6)] send_ok [OF assms(1-3)] show ?thesis
    by (simp add: range_prefix_def post_def decode_first_def)
qed

lemma watch_answers:
  assumes "new_request net c ''/v3/watch'' (watch_body p start) = Inr rq"
    and "do_request net rq s = (Inr rs, s')" "go_div (rs_status rs) 100 = 2"
    and "rs_values rs = map (\<lambda>(evs, rv). gateway_watch evs rv) msgs"
    and "\<And>evs rv e. (evs, rv) \<in> set msgs \<Longrightarrow> e \<in> set evs \<Longrightarrow> store_event_ok e"
  shows "watch_prefix net c p start handle h s =
    (case run_handler handle (map delivered (concat (map fst msgs))) h of
       (Some err, h') \<Rightarrow> (Inr err, h', s')
     | (None, h') \<Rightarrow> (Inl (DecodeError (JEnd (rs_end rs))), h', s'))"
  unfolding watch_prefix_def send_ok [OF assms(1-3)]
  by (simp add: assms(4) watch_loop_delivers [OF assms(5)] split: option.splits prod.splits)

section \<open>Properties\<close>

text \<open>
  C29: the key range a prefix request sends is exact: whatever the prefix (empty or of bytes
  \<open>0xff\<close> included), etcd selects precisely the keys that start with it.
\<close>

theorem prefix_end_selects: "etcd_in_range p (prefix_end p) k \<longleftrightarrow> has_prefix k p"
  by (rule prefix_range)

text \<open>
  \<open>RangePrefix\<close> returns exactly the pairs and the revision that a successful answer of the
  gateway describes, in its order.
\<close>

theorem range_prefix_roundtrip:
  assumes "new_request net c ''/v3/kv/range'' (range_body p) = Inr rq"
    and "do_request net rq s = (Inr rs, s')" "go_div (rs_status rs) 100 = 2"
    and "rs_values rs = gateway_range kvs rv # rest"
    and "\<And>x. x \<in> set kvs \<Longrightarrow> in64 (kv_mod_revision x)" "in64 rv"
  shows "range_prefix net c p s = (Inr (kvs, rv), s')"
  using assms by (rule range_answers)

text \<open>A network that answers every request with the same documents.\<close>

definition answer :: "int \<Rightarrow> json list \<Rightarrow> http_response" where
  "answer code js = \<lparr>rs_status = code, rs_status_text = [], rs_text = [], rs_values = js, rs_end = ''EOF''\<rparr>"

definition answer_net :: "int \<Rightarrow> json list \<Rightarrow> nat http_net" where
  "answer_net code js = \<lparr>url_error = (\<lambda>_. None), do_request = (\<lambda>rq n. (Inr (answer code js), Suc n))\<rparr>"

theorem range_prefix_roundtrip_witness:
  "range_prefix (answer_net 200 [gateway_range [\<lparr>kv_key = ''/a'', kv_value = ''v'', kv_mod_revision = 7\<rparr>] 9])
     (new_etcd_client ''http://e/'') ''/'' 0 = (Inr ([\<lparr>kv_key = ''/a'', kv_value = ''v'', kv_mod_revision = 7\<rparr>], 9), 1)"
proof -
  let ?kvs = "[\<lparr>kv_key = ''/a'', kv_value = ''v'', kv_mod_revision = 7\<rparr>]"
  let ?net = "answer_net 200 [gateway_range ?kvs 9]"
  show ?thesis
    by (rule range_prefix_roundtrip [where rest = "[]" and rs = "answer 200 [gateway_range ?kvs 9]"])
      (simp_all add: new_request_def answer_net_def answer_def in64_def go_div_def)
qed

text \<open>
  \<open>WatchPrefix\<close> calls its callback once for every event of the stream, in order and across
  messages, with the revision of the changed key, stops at the first error of the callback and
  otherwise returns the error that ends the stream; messages without events are skipped.
\<close>

theorem watch_prefix_delivers:
  assumes "new_request net c ''/v3/watch'' (watch_body p start) = Inr rq"
    and "do_request net rq s = (Inr rs, s')" "go_div (rs_status rs) 100 = 2"
    and "rs_values rs = map (\<lambda>(evs, rv). gateway_watch evs rv) msgs"
    and "\<And>evs rv e. (evs, rv) \<in> set msgs \<Longrightarrow> e \<in> set evs \<Longrightarrow> store_event_ok e"
  shows "watch_prefix net c p start handle h s =
    (case run_handler handle (map delivered (concat (map fst msgs))) h of
       (Some err, h') \<Rightarrow> (Inr err, h', s')
     | (None, h') \<Rightarrow> (Inl (DecodeError (JEnd (rs_end rs))), h', s'))"
  using assms by (rule watch_answers)

theorem watch_prefix_delivers_witness:
  "watch_prefix (answer_net 200 [gateway_watch [StorePut \<lparr>kv_key = ''/a'', kv_value = ''v'', kv_mod_revision = 7\<rparr>] 7,
       gateway_watch [] 9]) (new_etcd_client ''http://e/'') ''/'' 7 (\<lambda>e n. (None :: unit option, n + ee_revision e)) 0 0 =
     (Inl (DecodeError (JEnd ''EOF'')), 7, 1)"
proof -
  let ?x = "\<lparr>kv_key = ''/a'', kv_value = ''v'', kv_mod_revision = 7\<rparr>"
  show ?thesis
    by (subst watch_prefix_delivers [where msgs = "[([StorePut ?x], 7), ([], 9)]"
          and rs = "answer 200 [gateway_watch [StorePut ?x] 7, gateway_watch [] 9]"])
      (auto simp: new_request_def answer_net_def answer_def in64_def go_div_def kv_ok_def delivered_def)
qed

text \<open>
  Finding: \<open>KeepAliveOnce\<close> looks only at the status class. etcd answers the keep-alive of an
  expired lease with status 200 and a result without a \<open>TTL\<close>, which is reported as success.
\<close>

theorem keep_alive_ignores_ttl:
  "fst (keep_alive_once (answer_net 200 [JObj [(''result'', JObj [(''ID'', JStr ''7'')])]]) c l n) = Inr ()"
  by (simp add: keep_alive_once_def send_def new_request_def answer_net_def answer_def go_div_def decode_first_def decode_map_def)

end
