(* ===== verification/Etcd_Source.thy ===== *)
theory Etcd_Source
  imports Discovery Etcd_Http
begin

text \<open>
  \<open>discovery.EtcdSource\<close> over the etcd client: the endpoint as a JSON document, \<open>FullSync\<close>, \<open>Watch\<close>
  and \<open>Run\<close> with their calls of the client. The theory \<open>Discovery\<close> has the same operations with
  the client's results as arguments; here they are connected, so its theorems hold of the bytes
  the gateway sends. \<open>text_json\<close> and \<open>json_text\<close> stand for the text form of a document
  (\<open>json.Unmarshal\<close> and \<open>json.Marshal\<close>).
\<close>

section \<open>Endpoints as documents\<close>

text \<open>
  \<open>map[string]string\<close>: an object is merged into the map, its values are strings, \<open>null\<close> as a
  value is the empty string, and \<open>null\<close> instead of the object makes the map nil.
\<close>

fun string_value :: "json \<Rightarrow> json_error + string" where
  "string_value (JStr s) = Inr s"
| "string_value JNull = Inr []"
| "string_value _ = Inl JTypeError"

definition map_members :: "(string \<times> json) list \<Rightarrow> json_error + (string \<times> string) list" where
  "map_members ms = res_map (\<lambda>(k, v). res_bind (string_value v) (\<lambda>s. Inr (k, s))) ms"

fun map_from :: "(string, string) gomap option \<Rightarrow> json list \<Rightarrow> json_error + (string, string) gomap option" where
  "map_from m [] = Inr m"
| "map_from m (JNull # vs) = map_from None vs"
| "map_from m (JObj ms # vs) =
     res_bind (map_members ms) (\<lambda>kvs.
       map_from (Some (fold (\<lambda>(k, v) acc. gm_set k v acc) kvs (case m of None \<Rightarrow> [] | Some a \<Rightarrow> a))) vs)"
| "map_from m (_ # vs) = Inl JTypeError"

definition endpoint_from :: "(string \<times> json) list \<Rightarrow> json_error + endpoint" where
  "endpoint_from ms =
     res_bind (string_field ''service'' ms) (\<lambda>svc. res_bind (string_field ''instance_id'' ms) (\<lambda>i.
       res_bind (string_field ''address'' ms) (\<lambda>a. res_bind (map_from None (named ''metadata'' ms)) (\<lambda>md.
         Inr \<lparr>ep_service = svc, ep_instance = i, ep_address = a, ep_metadata = md\<rparr>))))"

definition decode_endpoint :: "json \<Rightarrow> json_error + endpoint" where
  "decode_endpoint j = res_bind (members j) endpoint_from"

text \<open>Marshalling sorts the keys of a map and leaves an empty map out.\<close>

definition endpoint_json :: "endpoint \<Rightarrow> json" where
  "endpoint_json ep =
     JObj ([(''service'', JStr (ep_service ep)), (''instance_id'', JStr (ep_instance ep)),
            (''address'', JStr (ep_address ep))]
           @ (case ep_metadata ep of
                None \<Rightarrow> []
              | Some md \<Rightarrow> if md = [] then []
                           else [(''metadata'', JObj (map (\<lambda>(k, v). (k, JStr v)) (sort_key fst md)))]))"

text \<open>The endpoint a reader gets back: the same names and address, and the metadata as an equal map.\<close>

definition canonical_endpoint :: "endpoint \<Rightarrow> endpoint" where
  "canonical_endpoint ep =
     ep\<lparr>ep_metadata := (case ep_metadata ep of
          None \<Rightarrow> None | Some md \<Rightarrow> if md = [] then None else Some (sort_key fst md))\<rparr>"

section \<open>The source\<close>

datatype source_error = ClientError etcd_error | EndpointError json_error

definition unmarshal_endpoint :: "(string \<Rightarrow> json_error + json) \<Rightarrow> string \<Rightarrow> source_error + endpoint" where
  "unmarshal_endpoint text_json v = map_sum EndpointError id (res_bind (text_json v) decode_endpoint)"

definition etcd_full_sync ::
  "'s http_net \<Rightarrow> etcd_client \<Rightarrow> (string \<Rightarrow> json_error + json) \<Rightarrow> 's \<Rightarrow> (source_error + snapshot) \<times> 's" where
  "etcd_full_sync net c text_json s =
     (case range_prefix net c key_prefix s of
        (Inl e, s') \<Rightarrow> (Inl (ClientError e), s')
      | (Inr (kvs, rv), s') \<Rightarrow>
          (full_sync (unmarshal_endpoint text_json) (Inr (map kv_value kvs, rv)), s'))"

text \<open>What the callback of \<open>Watch\<close> reads of an event.\<close>

definition event_view :: "etcd_event \<Rightarrow> watch_event" where
  "event_view e =
     \<lparr>we_type = ee_type e, we_key = kv_key (ee_kv e), we_value = kv_value (ee_kv e),
      we_prev_key = kv_key (ee_prev_kv e), we_revision = ee_revision e\<rparr>"

definition watch_callback ::
  "(string \<Rightarrow> json_error + json) \<Rightarrow> (event \<Rightarrow> 'h \<Rightarrow> 'h) \<Rightarrow> etcd_event \<Rightarrow> 'h \<Rightarrow> source_error option \<times> 'h" where
  "watch_callback text_json emit e h =
     (case source_event (unmarshal_endpoint text_json) (event_view e) of
        Inl err \<Rightarrow> (Some err, h)
      | Inr ev \<Rightarrow> (None, emit ev h))"

definition etcd_watch ::
  "'s http_net \<Rightarrow> etcd_client \<Rightarrow> (string \<Rightarrow> json_error + json) \<Rightarrow> int \<Rightarrow> (event \<Rightarrow> 'h \<Rightarrow> 'h) \<Rightarrow> 'h \<Rightarrow> 's \<Rightarrow>
     source_error \<times> 'h \<times> 's" where
  "etcd_watch net c text_json start emit h s =
     (case watch_prefix net c key_prefix start (watch_callback text_json emit) h s of
        (Inl e, h', s') \<Rightarrow> (ClientError e, h', s')
      | (Inr e, h', s') \<Rightarrow> (e, h', s'))"

definition etcd_run ::
  "'s http_net \<Rightarrow> etcd_client \<Rightarrow> (string \<Rightarrow> json_error + json) \<Rightarrow> cache \<Rightarrow> 's \<Rightarrow> source_error \<times> cache \<times> 's" where
  "etcd_run net c text_json cache0 s =
     (case etcd_full_sync net c text_json s of
        (Inl e, s') \<Rightarrow> (e, cache0, s')
      | (Inr snap, s') \<Rightarrow>
          etcd_watch net c text_json (wrap64 (sn_revision snap + 1)) apply_event (replace_cache snap cache0) s')"

section \<open>Lemmas\<close>

lemma folded_endpoint_names:
  "fold_name ''service'' = ''SERVICE''" "fold_name ''instance_id'' = ''INSTANCE_ID''"
  "fold_name ''address'' = ''ADDRESS''" "fold_name ''metadata'' = ''METADATA''"
  by (simp_all add: fold_name_ascii upper_char_def char_of_def bit_0)

lemma map_members_strings: "map_members (map (\<lambda>(k, v). (k, JStr v)) kvs) = Inr kvs"
  unfolding map_members_def by (induction kvs) auto

lemma gm_wf_sort: "gm_wf md \<Longrightarrow> gm_wf (sort_key fst md)"
  unfolding gm_wf_def by (metis distinct_map distinct_sort set_sort)

lemma decode_endpoint_json: "ep_wf ep \<Longrightarrow> decode_endpoint (endpoint_json ep) = Inr (canonical_endpoint ep)"
proof (cases "ep_metadata ep")
  case None
  then show ?thesis
    by (simp add: decode_endpoint_def endpoint_from_def endpoint_json_def canonical_endpoint_def named_def folded_endpoint_names
        string_field_def)
next
  case (Some md)
  assume "ep_wf ep"
  with Some have "fold (\<lambda>(k, v) acc. gm_set k v acc) (sort_key fst md) [] = sort_key fst md"
    using fold_gm_set_fresh [of "[]" "sort_key fst md"] gm_wf_sort [of md] by (simp add: ep_wf_def gm_wf_def)
  with Some show ?thesis
    by (cases "md = []") (simp_all add: decode_endpoint_def endpoint_from_def endpoint_json_def canonical_endpoint_def named_def
        folded_endpoint_names string_field_def map_members_strings)
qed

text \<open>The change a watch event of the store stands for.\<close>

fun stores :: "(json \<Rightarrow> string) \<Rightarrow> store_event \<Rightarrow> event \<Rightarrow> bool" where
  "stores json_text (StorePut x) e \<longleftrightarrow>
     ev_type e = EventPut \<and> ev_service e = [] \<and> ev_instance e = [] \<and>
     kv_key x = registry_key (ev_endpoint e) \<and> kv_value x = json_text (endpoint_json (ev_endpoint e)) \<and>
     kv_mod_revision x = ev_revision e"
| "stores json_text (StoreDelete k r old) e \<longleftrightarrow>
     ev_type e = EventDelete \<and> ev_endpoint e = no_endpoint \<and> r = ev_revision e \<and>
     k = key_prefix @ ev_service e @ ''/'' @ ev_instance e"

definition readable :: "(string \<Rightarrow> json_error + json) \<Rightarrow> (json \<Rightarrow> string) \<Rightarrow> endpoint \<Rightarrow> bool" where
  "readable text_json json_text ep \<longleftrightarrow>
     ep_wf ep \<and> canonical_endpoint ep = ep \<and> text_json (json_text (endpoint_json ep)) = Inr (endpoint_json ep)"

definition event_readable :: "(string \<Rightarrow> json_error + json) \<Rightarrow> (json \<Rightarrow> string) \<Rightarrow> event \<Rightarrow> bool" where
  "event_readable text_json json_text e \<longleftrightarrow>
     (ev_type e = EventPut \<longrightarrow> readable text_json json_text (ev_endpoint e)) \<and>
     (ev_type e = EventDelete \<longrightarrow> ev_service e \<noteq> [] \<and> CHR ''/'' \<notin> set (ev_service e) \<and> CHR ''/'' \<notin> set (ev_instance e))"

lemma unmarshal_readable:
  "readable text_json json_text ep \<Longrightarrow> unmarshal_endpoint text_json (json_text (endpoint_json ep)) = Inr ep"
  by (simp add: readable_def unmarshal_endpoint_def decode_endpoint_json)

lemma parse_key_joined:
  "CHR ''/'' \<notin> set svc \<Longrightarrow> CHR ''/'' \<notin> set i \<Longrightarrow> parse_key (key_prefix @ svc @ ''/'' @ i) = (svc, i)"
  by (simp add: parse_key_def split_on_append split_on_free)

lemma watch_callback_stores:
  assumes "stores json_text se e" "event_readable text_json json_text e"
  shows "watch_callback text_json emit (delivered se) h = (None, emit e h)"
proof (cases se)
  case (StorePut x)
  with assms have "readable text_json json_text (ev_endpoint e)" by (simp add: event_readable_def)
  with assms StorePut show ?thesis
    by (cases e) (simp add: watch_callback_def source_event_def event_view_def delivered_def unmarshal_readable)
next
  case (StoreDelete k r old)
  with assms have "parse_key k = (ev_service e, ev_instance e)" "ev_service e \<noteq> []"
    by (auto simp: event_readable_def simp del: append_Cons intro: parse_key_joined)
  with assms StoreDelete show ?thesis
    by (cases e) (simp add: watch_callback_def source_event_def event_view_def delivered_def key_only_def)
qed

lemma run_handler_stores:
  assumes "list_all2 (stores json_text) ses es" "\<And>e. e \<in> set es \<Longrightarrow> event_readable text_json json_text e"
  shows "run_handler (watch_callback text_json emit) (map delivered ses) h = (None, fold emit es h)"
  using assms
proof (induction arbitrary: h rule: list_all2_induct)
  case (Cons se ses e es)
  then show ?case by (simp add: watch_callback_stores)
qed simp

lemma decode_all_readable:
  "(\<And>ep. ep \<in> set eps \<Longrightarrow> readable text_json json_text ep) \<Longrightarrow>
     decode_all (unmarshal_endpoint text_json) (map (\<lambda>ep. json_text (endpoint_json ep)) eps) = Inr eps"
  by (induction eps) (simp_all add: unmarshal_readable)

section \<open>Properties\<close>

text \<open>
  The JSON form of an endpoint round-trips: decoding what marshalling writes gives the same
  service, instance, address and metadata lookups (an empty metadata map comes back as none).
\<close>

theorem endpoint_json_roundtrip:
  assumes "ep_wf ep"
  shows "\<exists>r. decode_endpoint (endpoint_json ep) = Inr r \<and> ep_key r = ep_key ep \<and> ep_address r = ep_address ep \<and>
    ep_wf r \<and> (\<forall>k. Option.bind (ep_metadata r) (\<lambda>md. gm_get md k) = Option.bind (ep_metadata ep) (\<lambda>md. gm_get md k))"
proof -
  have get: "gm_get (sort_key fst md) = gm_get md" if "gm_wf md" for md :: "(string, string) gomap"
    using that gm_mem_get [OF that] gm_mem_get [OF gm_wf_sort [OF that]]
    by (intro ext) (metis not_Some_eq set_sort)
  have "decode_endpoint (endpoint_json ep) = Inr (canonical_endpoint ep)" by (rule decode_endpoint_json [OF assms])
  moreover have "ep_wf (canonical_endpoint ep)"
    using assms by (auto simp: canonical_endpoint_def ep_wf_def gm_wf_sort split: option.splits)
  ultimately show ?thesis
    using assms by (auto simp: canonical_endpoint_def ep_key_def ep_wf_def get split: option.splits)
qed

theorem endpoint_json_roundtrip_witness:
  "\<exists>r. decode_endpoint (endpoint_json (ep_a\<lparr>ep_metadata := Some [(''zone'', ''b''), (''az'', ''a'')]\<rparr>)) = Inr r \<and>
     Option.bind (ep_metadata r) (\<lambda>md. gm_get md ''zone'') = Some ''b''"
proof -
  let ?ep = "ep_a\<lparr>ep_metadata := Some [(''zone'', ''b''), (''az'', ''a'')]\<rparr>"
  have "ep_wf ?ep" by (simp add: ep_wf_def gm_wf_def)
  from endpoint_json_roundtrip [OF this] show ?thesis by (auto simp: gm_get_def)
qed


text \<open>A concrete run: one endpoint at revision 5, then another is put and the first one deleted.\<close>

definition sample_text :: "json \<Rightarrow> string" where
  "sample_text j = (if j = endpoint_json ep_a then ''a'' else ''b'')"

definition sample_parse :: "string \<Rightarrow> json_error + json" where
  "sample_parse v = Inr (if v = ''a'' then endpoint_json ep_a else endpoint_json ep_b)"

definition sample_kv :: "endpoint \<Rightarrow> int \<Rightarrow> kv" where
  "sample_kv ep r = \<lparr>kv_key = registry_key ep, kv_value = sample_text (endpoint_json ep), kv_mod_revision = r\<rparr>"

definition sample_msgs :: "(store_event list \<times> int) list" where
  "sample_msgs = [([StorePut (sample_kv ep_b 6)], 6), ([], 8),
     ([StoreDelete (registry_key ep_a) 9 (sample_kv ep_a 4)], 9)]"

definition sample_net :: "nat http_net" where
  "sample_net =
     \<lparr>url_error = (\<lambda>_. None),
      do_request = (\<lambda>rq n.
        (Inr (if rq_url rq = ''http://e/v3/kv/range'' then answer 200 [gateway_range [sample_kv ep_a 4] 5]
              else answer 200 (map (\<lambda>(evs, r). gateway_watch evs r) sample_msgs)), Suc n))\<rparr>"

definition sample_log :: "event list" where
  "sample_log = [put_ev ep_a 4, put_ev ep_b 6, del_ev ep_a 9]"

lemma sample_readable:
  "readable sample_parse sample_text ep_a" "readable sample_parse sample_text ep_b"
  by (simp_all add: readable_def ep_wf_def gm_wf_def canonical_endpoint_def sample_text_def sample_parse_def ep_a_def ep_b_def
      endpoint_json_def)


end
