(* ===== verification/Registry.thy ===== *)
theory Registry
  imports Etcd_Source
begin

text \<open>
  \<^verbatim>\<open>internal/registry/store.go\<close>: the registry store on etcd leases and keys, and the HTTP API of the
  control plane over it. The store is the record of operations of the \<open>Store\<close> interface;
  \<open>etcd_store\<close> is \<open>EtcdStore\<close> over the client of \<open>Etcd_Http\<close>. A handler takes the document its
  decoder reads from the request body and returns the response with the new state of the store.
\<close>

section \<open>The store\<close>

record ('e, 's) registry_store =
  st_register :: "endpoint \<Rightarrow> int \<Rightarrow> 's \<Rightarrow> ('e + int) \<times> 's"
  st_heartbeat :: "int \<Rightarrow> 's \<Rightarrow> ('e + unit) \<times> 's"
  st_deregister :: "endpoint \<Rightarrow> int \<Rightarrow> 's \<Rightarrow> ('e + unit) \<times> 's"
  st_list :: "string \<Rightarrow> 's \<Rightarrow> ('e + endpoint list \<times> int) \<times> 's"

definition etcd_register ::
  "'s http_net \<Rightarrow> etcd_client \<Rightarrow> (json \<Rightarrow> string) \<Rightarrow> endpoint \<Rightarrow> int \<Rightarrow> 's \<Rightarrow> (source_error + int) \<times> 's" where
  "etcd_register net c json_text ep ttl s =
     (case grant net c ttl s of
        (Inl e, s1) \<Rightarrow> (Inl (ClientError e), s1)
      | (Inr lease, s1) \<Rightarrow>
          (case put net c (registry_key ep) (json_text (endpoint_json ep)) lease s1 of
             (Inl e, s2) \<Rightarrow> (Inl (ClientError e), snd (revoke net c lease s2))
           | (Inr _, s2) \<Rightarrow> (Inr lease, s2)))"

definition etcd_heartbeat :: "'s http_net \<Rightarrow> etcd_client \<Rightarrow> int \<Rightarrow> 's \<Rightarrow> (source_error + unit) \<times> 's" where
  "etcd_heartbeat net c lease s = (case keep_alive_once net c lease s of (r, s') \<Rightarrow> (map_sum ClientError id r, s'))"

definition etcd_deregister ::
  "'s http_net \<Rightarrow> etcd_client \<Rightarrow> endpoint \<Rightarrow> int \<Rightarrow> 's \<Rightarrow> (source_error + unit) \<times> 's" where
  "etcd_deregister net c ep lease s =
     (case delete_key net c (registry_key ep) s of
        (Inl e, s') \<Rightarrow> (Inl (ClientError e), s')
      | (Inr _, s') \<Rightarrow>
          (if lease \<noteq> 0 then (case revoke net c lease s' of (r, s'') \<Rightarrow> (map_sum ClientError id r, s''))
           else (Inr (), s')))"

definition list_prefix :: "string \<Rightarrow> string" where
  "list_prefix svc = ''/minimesh/services/'' @ svc @ ''/''"

definition etcd_list ::
  "'s http_net \<Rightarrow> etcd_client \<Rightarrow> (string \<Rightarrow> json_error + json) \<Rightarrow> string \<Rightarrow> 's \<Rightarrow>
     (source_error + endpoint list \<times> int) \<times> 's" where
  "etcd_list net c text_json svc s =
     (case range_prefix net c (list_prefix svc) s of
        (Inl e, s') \<Rightarrow> (Inl (ClientError e), s')
      | (Inr (kvs, rv), s') \<Rightarrow>
          (res_bind (res_map (\<lambda>x. unmarshal_endpoint text_json (kv_value x)) kvs) (\<lambda>eps. Inr (eps, rv)), s'))"

definition etcd_store ::
  "'s http_net \<Rightarrow> etcd_client \<Rightarrow> (string \<Rightarrow> json_error + json) \<Rightarrow> (json \<Rightarrow> string) \<Rightarrow> (source_error, 's) registry_store" where
  "etcd_store net c text_json json_text =
     \<lparr>st_register = etcd_register net c json_text, st_heartbeat = etcd_heartbeat net c,
      st_deregister = etcd_deregister net c, st_list = etcd_list net c text_json\<rparr>"

section \<open>The HTTP API\<close>

record ('e, 's) registry_api =
  api_store :: "('e, 's) registry_store"
  api_default_ttl :: int

record register_request =
  rr_endpoint :: endpoint
  rr_ttl :: int

record lease_request =
  lr_lease :: int
  lr_service :: string
  lr_instance :: string

definition decode_register :: "json \<Rightarrow> json_error + register_request" where
  "decode_register j =
     res_bind (members j) (\<lambda>ms. res_bind (struct_field ''endpoint'' ms) (\<lambda>ems.
       res_bind (endpoint_from ems) (\<lambda>ep. res_bind (int_field ''ttl_seconds'' ms) (\<lambda>t.
         Inr \<lparr>rr_endpoint = ep, rr_ttl = t\<rparr>))))"

definition decode_lease :: "json \<Rightarrow> json_error + lease_request" where
  "decode_lease j =
     res_bind (members j) (\<lambda>ms. res_bind (int_field ''lease_id'' ms) (\<lambda>l.
       res_bind (string_field ''service'' ms) (\<lambda>svc. res_bind (string_field ''instance_id'' ms) (\<lambda>i.
         Inr \<lparr>lr_lease = l, lr_service = svc, lr_instance = i\<rparr>))))"

datatype 'e api_error = BodyError json_error | MissingFields string | StoreFailed 'e

text \<open>The body of a response: an error object, a document, or nothing.\<close>

datatype 'e api_body = ErrorBody "'e api_error" | JsonBody json | TextBody string | NoBody

record 'e api_response =
  ap_status :: int
  ap_headers :: "(string \<times> string) list"
  ap_body :: "'e api_body"

definition write_json :: "(string \<times> string) list \<Rightarrow> int \<Rightarrow> 'e api_body \<Rightarrow> 'e api_response" where
  "write_json hs code b =
     \<lparr>ap_status = code, ap_headers = hs @ [(''Content-Type'', ''application/json'')], ap_body = b\<rparr>"

definition write_err :: "int \<Rightarrow> 'e api_error \<Rightarrow> 'e api_response" where
  "write_err code e = write_json [] code (ErrorBody e)"

definition write_header :: "int \<Rightarrow> 'e api_response" where
  "write_header code = \<lparr>ap_status = code, ap_headers = [], ap_body = NoBody\<rparr>"

definition api_register ::
  "('e, 's) registry_api \<Rightarrow> json_error + json \<Rightarrow> 's \<Rightarrow> 'e api_response \<times> 's" where
  "api_register a body s =
     (case res_bind body decode_register of
        Inl e \<Rightarrow> (write_err 400 (BodyError e), s)
      | Inr req \<Rightarrow>
          if trim_space (ep_service (rr_endpoint req)) = [] \<or> trim_space (ep_instance (rr_endpoint req)) = [] \<or>
             trim_space (ep_address (rr_endpoint req)) = []
          then (write_err 400 (MissingFields ''service, instance_id and address are required''), s)
          else let ttl = (if rr_ttl req \<le> 0 then api_default_ttl a else rr_ttl req)
               in (case st_register (api_store a) (rr_endpoint req) ttl s of
                     (Inl e, s') \<Rightarrow> (write_err 502 (StoreFailed e), s')
                   | (Inr lease, s') \<Rightarrow>
                       (write_json [] 201
                          (JsonBody (JObj [(''lease_id'', JNum (itoa lease)), (''ttl_seconds'', JNum (itoa ttl))])), s')))"

definition api_heartbeat ::
  "('e, 's) registry_api \<Rightarrow> json_error + json \<Rightarrow> 's \<Rightarrow> 'e api_response \<times> 's" where
  "api_heartbeat a body s =
     (case res_bind body decode_lease of
        Inl e \<Rightarrow> (write_err 400 (BodyError e), s)
      | Inr req \<Rightarrow>
          if lr_lease req = 0 then (write_err 400 (MissingFields ''lease_id is required''), s)
          else (case st_heartbeat (api_store a) (lr_lease req) s of
                  (Inl e, s') \<Rightarrow> (write_err 502 (StoreFailed e), s')
                | (Inr _, s') \<Rightarrow> (write_header 204, s')))"

definition api_deregister ::
  "('e, 's) registry_api \<Rightarrow> json_error + json \<Rightarrow> 's \<Rightarrow> 'e api_response \<times> 's" where
  "api_deregister a body s =
     (case res_bind body decode_lease of
        Inl e \<Rightarrow> (write_err 400 (BodyError e), s)
      | Inr req \<Rightarrow>
          if lr_service req = [] \<or> lr_instance req = []
          then (write_err 400 (MissingFields ''service and instance_id are required''), s)
          else (case st_deregister (api_store a)
                       (no_endpoint\<lparr>ep_service := lr_service req, ep_instance := lr_instance req\<rparr>) (lr_lease req) s of
                  (Inl e, s') \<Rightarrow> (write_err 502 (StoreFailed e), s')
                | (Inr _, s') \<Rightarrow> (write_header 204, s')))"

definition api_list :: "('e, 's) registry_api \<Rightarrow> string \<Rightarrow> 's \<Rightarrow> 'e api_response \<times> 's" where
  "api_list a url_path s =
     (case st_list (api_store a) (trim_prefix url_path ''/v1/registry/services/'') s of
        (Inl e, s') \<Rightarrow> (write_err 502 (StoreFailed e), s')
      | (Inr (eps, rv), s') \<Rightarrow>
          (write_json [(''X-MiniMesh-Revision'', itoa rv)] 200 (JsonBody (JArr (map endpoint_json eps))), s'))"

text \<open>
  The routes. A request reaches a handler by its method and its (escaped) path; \<open>GET\<close> patterns
  also serve \<open>HEAD\<close>, a known path with another method is 405, any other path 404. Requests whose
  path \<open>ServeMux\<close> cleans are redirected before this and are not represented.
\<close>

datatype api_route = RouteRegister | RouteHeartbeat | RouteDeregister | RouteList | RouteHealth

fun path_route :: "string \<Rightarrow> (string \<times> api_route) option" where
  "path_route p =
     (if p = ''/v1/registry/register'' then Some (''POST'', RouteRegister)
      else if p = ''/v1/registry/heartbeat'' then Some (''POST'', RouteHeartbeat)
      else if p = ''/v1/registry/deregister'' then Some (''POST'', RouteDeregister)
      else if has_prefix p ''/v1/registry/services/'' then Some (''GET'', RouteList)
      else if p = ''/healthz'' then Some (''GET'', RouteHealth)
      else None)"

definition api_handler ::
  "('e, 's) registry_api \<Rightarrow> string \<Rightarrow> string \<Rightarrow> string \<Rightarrow> json_error + json \<Rightarrow> 's \<Rightarrow> 'e api_response \<times> 's" where
  "api_handler a meth path url_path body s =
     (case path_route path of
        None \<Rightarrow> (\<lparr>ap_status = 404, ap_headers = [], ap_body = TextBody (''404 page not found'' @ [CHR 0x0A])\<rparr>, s)
      | Some (m, r) \<Rightarrow>
          if \<not> (meth = m \<or> (m = ''GET'' \<and> meth = ''HEAD''))
          then (\<lparr>ap_status = 405, ap_headers = [(''Allow'', if m = ''GET'' then ''GET, HEAD'' else m)],
                 ap_body = TextBody (''Method Not Allowed'' @ [CHR 0x0A])\<rparr>, s)
          else (case r of
                  RouteRegister \<Rightarrow> api_register a body s
                | RouteHeartbeat \<Rightarrow> api_heartbeat a body s
                | RouteDeregister \<Rightarrow> api_deregister a body s
                | RouteList \<Rightarrow> api_list a url_path s
                | RouteHealth \<Rightarrow> (\<lparr>ap_status = 200, ap_headers = [], ap_body = TextBody (''ok'' @ [CHR 0x0A])\<rparr>, s)))"

section \<open>What the registry relies on of etcd\<close>

text \<open>
  etcd's documented behaviour, as a contract on the network: \<open>view s\<close> is the value and the lease of
  every key when the network is in state \<open>s\<close>. A write that is answered with success has been
  applied; one that fails may or may not have been. A lease granted is new. A range answer lists
  every selected key once.
\<close>

type_synonym key_view = "string \<Rightarrow> (string \<times> int) option"

definition etcd_request :: "etcd_client \<Rightarrow> string \<Rightarrow> json \<Rightarrow> http_request" where
  "etcd_request c path body =
     \<lparr>rq_method = ''POST'', rq_url = endpoint_url c @ path, rq_content_type = ''application/json'', rq_body = body\<rparr>"

definition ok_answer :: "http_response \<Rightarrow> bool" where
  "ok_answer rs \<longleftrightarrow> go_div (rs_status rs) 100 = 2"

definition serves_change ::
  "'s http_net \<Rightarrow> etcd_client \<Rightarrow> ('s \<Rightarrow> key_view) \<Rightarrow> string \<Rightarrow> json \<Rightarrow> (key_view \<Rightarrow> key_view) \<Rightarrow> bool" where
  "serves_change net c view path body f \<longleftrightarrow>
     (\<forall>s r s'. do_request net (etcd_request c path body) s = (r, s') \<longrightarrow>
        (view s' = view s \<or> view s' = f (view s)) \<and>
        (\<forall>rs. r = Inr rs \<and> ok_answer rs \<longrightarrow> view s' = f (view s) \<and> rs_values rs \<noteq> []))"

definition drop_lease :: "int \<Rightarrow> key_view \<Rightarrow> key_view" where
  "drop_lease l m = (\<lambda>k. case m k of None \<Rightarrow> None | Some (v, l') \<Rightarrow> if l' = l then None else Some (v, l'))"

definition gateway_grant :: "int \<Rightarrow> int \<Rightarrow> json" where
  "gateway_grant l ttl = JObj [(''header'', gateway_header 1), (''ID'', JStr (itoa l)), (''TTL'', JStr (itoa ttl))]"

definition serves_grant :: "'s http_net \<Rightarrow> etcd_client \<Rightarrow> ('s \<Rightarrow> key_view) \<Rightarrow> bool" where
  "serves_grant net c view \<longleftrightarrow>
     (\<forall>ttl s r s'. do_request net (etcd_request c ''/v3/lease/grant'' (grant_body ttl)) s = (r, s') \<longrightarrow>
        view s' = view s \<and>
        (\<forall>rs. r = Inr rs \<and> ok_answer rs \<longrightarrow>
          (\<exists>l rest. rs_values rs = gateway_grant l ttl # rest \<and> in64 l \<and> l \<noteq> 0 \<and> (\<forall>k v. view s k \<noteq> Some (v, l)))))"

definition serves_range :: "'s http_net \<Rightarrow> etcd_client \<Rightarrow> ('s \<Rightarrow> key_view) \<Rightarrow> bool" where
  "serves_range net c view \<longleftrightarrow>
     (\<forall>p s r s'. do_request net (etcd_request c ''/v3/kv/range'' (range_body p)) s = (r, s') \<longrightarrow>
        view s' = view s \<and>
        (\<forall>rs. r = Inr rs \<and> ok_answer rs \<longrightarrow>
          (\<exists>kvs rv rest. rs_values rs = gateway_range kvs rv # rest \<and> in64 rv \<and>
             (\<forall>x \<in> set kvs. in64 (kv_mod_revision x)) \<and> distinct (map kv_key kvs) \<and>
             (\<forall>k v. (\<exists>x \<in> set kvs. kv_key x = k \<and> kv_value x = v) \<longleftrightarrow>
                etcd_in_range p (prefix_end p) k \<and> (\<exists>l. view s k = Some (v, l))))))"

definition etcd_serves :: "'s http_net \<Rightarrow> etcd_client \<Rightarrow> ('s \<Rightarrow> key_view) \<Rightarrow> bool" where
  "etcd_serves net c view \<longleftrightarrow>
     (\<forall>u. url_error net u = None) \<and> serves_grant net c view \<and> serves_range net c view \<and>
     (\<forall>k v l. in64 l \<longrightarrow> serves_change net c view ''/v3/kv/put'' (put_body k v l) (\<lambda>m. m(k \<mapsto> (v, l)))) \<and>
     (\<forall>k. serves_change net c view ''/v3/kv/deleterange'' (delete_body k) (\<lambda>m. m(k := None))) \<and>
     (\<forall>l. in64 l \<longrightarrow> serves_change net c view ''/v3/lease/revoke'' (lease_body l) (drop_lease l))"

section \<open>Lemmas\<close>

lemma post_sent:
  assumes "url_error net (endpoint_url c @ path) = None"
  shows "post net c path body dec s =
    (case do_request net (etcd_request c path body) s of
       (Inl e, s') \<Rightarrow> (Inl (TransportError e), s')
     | (Inr rs, s') \<Rightarrow>
         (if ok_answer rs then map_sum DecodeError id (decode_first dec rs)
          else Inl (StatusError path (rs_status_text rs) (take 4096 (rs_text rs))), s'))"
  using assms by (simp add: post_def send_def new_request_def etcd_request_def ok_answer_def split: sum.splits prod.splits)

lemma post_change:
  assumes "serves_change net c view path body f" "url_error net (endpoint_url c @ path) = None"
    and "post net c path body decode_any s = (r, s')"
  shows "view s' = view s \<or> view s' = f (view s)" "r = Inr () \<Longrightarrow> view s' = f (view s)"
proof -
  obtain q where q: "do_request net (etcd_request c path body) s = (q, s')"
    using assms(3) unfolding post_sent [OF assms(2)] by (auto split: prod.splits sum.splits)
  then show "view s' = view s \<or> view s' = f (view s)" using assms(1) by (auto simp: serves_change_def)
  assume "r = Inr ()"
  with q assms(3) obtain rs where "q = Inr rs" "ok_answer rs"
    unfolding post_sent [OF assms(2)] by (auto split: sum.splits if_splits)
  with q assms(1) show "view s' = f (view s)" by (auto simp: serves_change_def)
qed

lemma etcd_servesD:
  assumes "etcd_serves net c view"
  shows "url_error net u = None" "serves_grant net c view" "serves_range net c view"
    "in64 l \<Longrightarrow> serves_change net c view ''/v3/kv/put'' (put_body k v l) (\<lambda>m. m(k \<mapsto> (v, l)))"
    "serves_change net c view ''/v3/kv/deleterange'' (delete_body k) (\<lambda>m. m(k := None))"
    "in64 l \<Longrightarrow> serves_change net c view ''/v3/lease/revoke'' (lease_body l) (drop_lease l)"
  using assms by (auto simp: etcd_serves_def)

lemma grant_effect:
  assumes "etcd_serves net c view" "grant net c ttl s = (r, s')"
  shows "view s' = view s" "r = Inr l \<Longrightarrow> in64 l \<and> l \<noteq> 0 \<and> (\<forall>k v. view s k \<noteq> Some (v, l))"
proof -
  note sent = post_sent [OF etcd_servesD(1) [OF assms(1)]]
  obtain q where q: "do_request net (etcd_request c ''/v3/lease/grant'' (grant_body ttl)) s = (q, s')"
    using assms(2) unfolding grant_def sent by (auto split: prod.splits sum.splits)
  then show "view s' = view s" using etcd_servesD(2) [OF assms(1)] by (auto simp: serves_grant_def)
  assume r: "r = Inr l"
  with q assms(2) obtain rs where rs: "q = Inr rs" "ok_answer rs"
    unfolding grant_def sent by (auto split: sum.splits if_splits)
  with q obtain l' rest where l': "rs_values rs = gateway_grant l' ttl # rest" "in64 l'" "l' \<noteq> 0"
    "\<forall>k v. view s k \<noteq> Some (v, l')"
    using etcd_servesD(2) [OF assms(1)] unfolding serves_grant_def by blast
  have "decode_grant (gateway_grant l' ttl) = Inr (Some (JStr (itoa l')))"
    by (simp add: decode_grant_def gateway_grant_def decode_simps)
  with q rs l' assms(2) r have "l = l'"
    by (simp add: grant_def sent decode_first_def parse_raw_int_def int_result_def)
  with l' show "in64 l \<and> l \<noteq> 0 \<and> (\<forall>k v. view s k \<noteq> Some (v, l))" by simp
qed

lemmas put_effect = post_change [OF etcd_servesD(4) etcd_servesD(1), folded put_def]
lemmas delete_effect = post_change [OF etcd_servesD(5) etcd_servesD(1), folded delete_key_def]
lemmas revoke_effect = post_change [OF etcd_servesD(6) etcd_servesD(1), folded revoke_def]

lemma register_changes:
  assumes "etcd_serves net c view" "etcd_register net c json_text ep ttl s = (r, s')"
  shows "k \<noteq> registry_key ep \<Longrightarrow> view s' k = view s k"
    "r = Inr l \<Longrightarrow> l \<noteq> 0 \<and> view s' = (view s)(registry_key ep \<mapsto> (json_text (endpoint_json ep), l)) \<and>
       (\<forall>k v. view s k \<noteq> Some (v, l))"
proof -
  let ?k = "registry_key ep" and ?v = "json_text (endpoint_json ep)"
  obtain g s1 where g: "grant net c ttl s = (g, s1)" by fastforce
  note g1 = grant_effect [OF assms(1) g]
  have "view s' = view s \<and> (\<forall>l. r \<noteq> Inr l) \<or>
      (\<exists>l. g = Inr l \<and> (r = Inr l \<and> view s' = (view s)(?k \<mapsto> (?v, l)) \<or>
        (\<forall>l. r \<noteq> Inr l) \<and> (\<forall>k. k \<noteq> ?k \<longrightarrow> view s' k = view s k)))"
  proof (cases g)
    case (Inl e)
    with assms(2) g g1(1) show ?thesis by (auto simp: etcd_register_def)
  next
    case (Inr l)
    then have l: "in64 l" "\<And>k v. view s k \<noteq> Some (v, l)" using g1(2) by auto
    obtain p s2 where p: "put net c ?k ?v l s1 = (p, s2)" by fastforce
    note p1 = put_effect [OF assms(1) l(1) assms(1) p]
    show ?thesis
    proof (cases p)
      case (Inr u)
      with assms(2) g \<open>g = Inr l\<close> p p1(2) g1(1) show ?thesis by (auto simp: etcd_register_def)
    next
      case (Inl e)
      obtain q s3 where q: "revoke net c l s2 = (q, s3)" by fastforce
      note q1 = revoke_effect(1) [OF assms(1) l(1) assms(1) q]
      have fresh: "drop_lease l m k = m k" if "\<And>v. m k \<noteq> Some (v, l)" for m and k :: string
        using that by (auto simp: drop_lease_def split: option.splits prod.splits)
      have "view s2 k = view s k" if "k \<noteq> ?k" for k using p1(1) g1(1) that by auto
      then have "view s3 k = view s k" if "k \<noteq> ?k" for k
        using q1 that l(2) fresh [of "view s2" k] by auto
      moreover have "s' = s3" "r = Inl (ClientError e)"
        using assms(2) g \<open>g = Inr l\<close> p Inl q by (simp_all add: etcd_register_def)
      ultimately show ?thesis using \<open>g = Inr l\<close> by simp
    qed
  qed
  then show "k \<noteq> ?k \<Longrightarrow> view s' k = view s k"
    "r = Inr l \<Longrightarrow> l \<noteq> 0 \<and> view s' = (view s)(?k \<mapsto> (?v, l)) \<and> (\<forall>k v. view s k \<noteq> Some (v, l))"
    using g1(2) by auto
qed

lemma deregister_changes:
  assumes "etcd_serves net c view" "etcd_deregister net c ep l s = (r, s')" "in64 l"
  shows "k \<noteq> registry_key ep \<Longrightarrow> (\<And>v. view s k \<noteq> Some (v, l)) \<Longrightarrow> view s' k = view s k"
    "r = Inr () \<Longrightarrow> view s' = (if l = 0 then id else drop_lease l) ((view s)(registry_key ep := None))"
proof -
  let ?k = "registry_key ep"
  obtain d s1 where d: "delete_key net c ?k s = (d, s1)" by fastforce
  note d1 = delete_effect [OF assms(1) assms(1) d]
  obtain q s2 where q: "revoke net c l s1 = (q, s2)" by fastforce
  note q1 = revoke_effect [OF assms(1) assms(3) assms(1) q]
  have s': "s' = s1 \<or> s' = s2" using assms(2) d q by (auto simp: etcd_deregister_def split: sum.splits if_splits)
  show "view s' k = view s k" if "k \<noteq> ?k" "\<And>v. view s k \<noteq> Some (v, l)"
  proof -
    have 1: "view s1 k = view s k" using d1(1) that by auto
    then have "drop_lease l (view s1) k = view s1 k"
      using that(2) by (auto simp: drop_lease_def split: option.splits prod.splits)
    with 1 s' q1(1) show ?thesis by auto
  qed
  assume r: "r = Inr ()"
  show "view s' = (if l = 0 then id else drop_lease l) ((view s)(?k := None))"
  proof (cases "l = 0")
    case True
    with assms(2) d r d1(2) show ?thesis by (auto simp: etcd_deregister_def split: sum.splits)
  next
    case False
    with assms(2) d q r have "d = Inr ()" "q = Inr ()" "s' = s2"
      by (cases q; auto simp: etcd_deregister_def split: sum.splits)+
    with d1(2) q1(2) False show ?thesis by simp
  qed
qed

text \<open>A successful range holds exactly the keys with its prefix.\<close>

lemma range_contents:
  assumes serves: "etcd_serves net c view" and l: "range_prefix net c p s = (Inr (kvs, rv), s')"
  shows "view s' = view s" "in64 rv" "distinct (map kv_key kvs)"
    "(\<exists>x \<in> set kvs. kv_key x = k \<and> kv_value x = v) \<longleftrightarrow> has_prefix k p \<and> (\<exists>l. view s k = Some (v, l))"
proof -
  let ?rq = "etcd_request c ''/v3/kv/range'' (range_body p)"
  note sent = post_sent [OF etcd_servesD(1) [OF serves]]
  obtain q where q: "do_request net ?rq s = (q, s')"
    using l unfolding range_prefix_def sent by (auto split: prod.splits sum.splits if_splits)
  then show "view s' = view s" using etcd_servesD(3) [OF serves] by (auto simp: serves_range_def)
  from q l obtain rs where rs: "q = Inr rs" "ok_answer rs"
    unfolding range_prefix_def sent by (auto split: sum.splits if_splits)
  have ans: "\<exists>kvs rv rest. rs_values rs = gateway_range kvs rv # rest \<and> in64 rv \<and>
      (\<forall>x \<in> set kvs. in64 (kv_mod_revision x)) \<and> distinct (map kv_key kvs) \<and>
      (\<forall>k v. (\<exists>x \<in> set kvs. kv_key x = k \<and> kv_value x = v) \<longleftrightarrow>
         etcd_in_range p (prefix_end p) k \<and> (\<exists>l. view s k = Some (v, l)))"
    using etcd_servesD(3) [OF serves, unfolded serves_range_def, THEN spec, THEN spec, THEN spec, THEN spec, THEN mp, OF q] rs
    by simp
  obtain kvs' rw rest where a: "rs_values rs = gateway_range kvs' rw # rest" "in64 rw"
    "\<And>x. x \<in> set kvs' \<Longrightarrow> in64 (kv_mod_revision x)" "distinct (map kv_key kvs')"
    "\<forall>k v. (\<exists>x \<in> set kvs'. kv_key x = k \<and> kv_value x = v) \<longleftrightarrow>
      etcd_in_range p (prefix_end p) k \<and> (\<exists>l. view s k = Some (v, l))"
    using ans by (elim exE conjE) simp
  have "new_request net c ''/v3/kv/range'' (range_body p) = Inr ?rq"
    by (simp add: new_request_def etcd_servesD(1) [OF serves] etcd_request_def)
  from range_answers [OF this _ _ a(1,3,2)] q rs
  have "range_prefix net c p s = (Inr (kvs', rw), s')" by (simp add: ok_answer_def)
  with l have eq: "kvs' = kvs" "rw = rv" by auto
  show "in64 rv" "distinct (map kv_key kvs)" using a(2,4) eq by simp_all
  show "(\<exists>x \<in> set kvs. kv_key x = k \<and> kv_value x = v) \<longleftrightarrow> has_prefix k p \<and> (\<exists>l. view s k = Some (v, l))"
    using a(5) [THEN spec, THEN spec, of k v] unfolding eq prefix_range .
qed

text \<open>A successful list holds the endpoint of every key below the service, and nothing else.\<close>

lemma list_contents:
  assumes serves: "etcd_serves net c view" and l: "etcd_list net c text_json svc s = (Inr (eps, rv), s')"
  shows "view s' = view s" "\<exists>kvs :: kv list. distinct (map kv_key kvs) \<and>
      list_all2 (\<lambda>x ep. unmarshal_endpoint text_json (kv_value x) = Inr ep) kvs eps \<and>
      (\<forall>k v. (\<exists>x \<in> set kvs. kv_key x = k \<and> kv_value x = v) \<longleftrightarrow>
         has_prefix k (list_prefix svc) \<and> (\<exists>l. view s k = Some (v, l)))"
proof -
  obtain kvs rw where r: "range_prefix net c (list_prefix svc) s = (Inr (kvs, rw), s')"
    using l by (auto simp: etcd_list_def split: prod.splits sum.splits)
  note range = range_contents [OF serves r]
  show "view s' = view s" by (rule range(1))
  from l r have "list_all2 (\<lambda>x ep. unmarshal_endpoint text_json (kv_value x) = Inr ep) kvs eps"
    by (auto simp: etcd_list_def result_simps)
  with range(3,4) show "\<exists>kvs :: kv list. distinct (map kv_key kvs) \<and>
      list_all2 (\<lambda>x ep. unmarshal_endpoint text_json (kv_value x) = Inr ep) kvs eps \<and>
      (\<forall>k v. (\<exists>x \<in> set kvs. kv_key x = k \<and> kv_value x = v) \<longleftrightarrow>
         has_prefix k (list_prefix svc) \<and> (\<exists>l. view s k = Some (v, l)))"
    by - (intro exI [of _ kvs] conjI allI)
qed

section \<open>A concrete store\<close>

text \<open>
  A small key-value store with leases that meets the contract, for concrete runs.
\<close>

type_synonym mini_state = "(string, string \<times> int) gomap"

definition mini_norm :: "mini_state \<Rightarrow> mini_state" where
  "mini_norm m = (if gm_wf m then m else [])"

definition mini_bytes :: "string \<Rightarrow> (string \<times> json) list \<Rightarrow> string" where
  "mini_bytes name ms = (case string_field name ms of Inr v \<Rightarrow> fst (b64_decode v) | Inl _ \<Rightarrow> [])"

definition mini_lease :: "mini_state \<Rightarrow> int" where
  "mini_lease m = 1 + foldr (\<lambda>e n. max (snd (snd e)) n) m 0"

definition mini_do :: "http_request \<Rightarrow> mini_state \<Rightarrow> (string + http_response) \<times> mini_state" where
  "mini_do rq m0 =
     (let m = mini_norm m0; ms = (case rq_body rq of JObj ms \<Rightarrow> ms | _ \<Rightarrow> []);
          k = mini_bytes ''key'' ms; done = Inr (answer 200 [JObj []])
      in if rq_url rq = ''http://e/v3/lease/grant'' then
           (Inr (if in64 (mini_lease m)
                 then answer 200 [JObj [(''header'', gateway_header 1), (''ID'', JStr (itoa (mini_lease m))),
                   (''TTL'', case raw_field ''TTL'' ms of Some (JNum t) \<Rightarrow> JStr t | _ \<Rightarrow> JNull)]]
                 else answer 500 []), m)
         else if rq_url rq = ''http://e/v3/kv/put'' then
           (done, gm_set k (mini_bytes ''value'' ms, fst (parse_raw_int (raw_field ''lease'' ms))) m)
         else if rq_url rq = ''http://e/v3/kv/deleterange'' then (done, gm_del k m)
         else if rq_url rq = ''http://e/v3/lease/revoke'' then
           (done, filter (\<lambda>e. snd (snd e) \<noteq> fst (parse_raw_int (raw_field ''ID'' ms))) m)
         else if rq_url rq = ''http://e/v3/kv/range'' then
           (Inr (answer 200 [gateway_range
              (map (\<lambda>(k, v, l). \<lparr>kv_key = k, kv_value = v, kv_mod_revision = 1\<rparr>)
                (filter (\<lambda>e. etcd_in_range k (mini_bytes ''range_end'' ms) (fst e)) m)) 1]), m)
         else (Inl ''unsupported'', m0))"

definition mini_net :: "mini_state http_net" where
  "mini_net = \<lparr>url_error = (\<lambda>_. None), do_request = mini_do\<rparr>"

definition mini_client :: etcd_client where
  "mini_client = \<lparr>endpoint_url = ''http://e''\<rparr>"

definition mini_view :: "mini_state \<Rightarrow> key_view" where
  "mini_view m = gm_get (mini_norm m)"

lemma mini_norm_wf [simp]: "gm_wf (mini_norm m)"
  by (simp add: mini_norm_def)

lemma mini_norm_id [simp]: "gm_wf m \<Longrightarrow> mini_norm m = m"
  by (simp add: mini_norm_def)

lemma folded_mini_names:
  "fold_name ''lease'' = ''LEASE''" "fold_name ''range_end'' = ''RANGE_END''"
  by (simp_all add: fold_name_ascii upper_char_def char_of_def bit_0)

lemmas mini_simps = mini_bytes_def etcd_request_def mini_client_def decode_simps folded_mini_names b64_def
  parse_raw_int_def ok_answer_def answer_def go_div_def Let_def

lemma gm_wf_filter: "gm_wf m \<Longrightarrow> gm_wf (filter P m)"
  by (auto simp: gm_wf_def distinct_map inj_on_def distinct_filter)

lemma gm_get_filter:
  assumes "gm_wf m"
  shows "gm_get (filter P m) k = (case gm_get m k of None \<Rightarrow> None | Some v \<Rightarrow> if P (k, v) then Some v else None)"
proof -
  have iff: "gm_get (filter P m) k = Some v \<longleftrightarrow> gm_get m k = Some v \<and> P (k, v)" for v
    using gm_mem_get [OF assms, of k v] gm_mem_get [OF gm_wf_filter [OF assms], of k v P] by auto
  show ?thesis
  proof (cases "gm_get m k")
    case None
    then have "gm_get (filter P m) k = None" by (metis iff not_Some_eq)
    with None show ?thesis by simp
  next
    case (Some w)
    show ?thesis
    proof (cases "P (k, w)")
      case True
      with Some iff [of w] show ?thesis by simp
    next
      case False
      with Some have "gm_get (filter P m) k = None" by (metis iff not_Some_eq option.inject)
      with Some False show ?thesis by simp
    qed
  qed
qed

lemma mini_put: "in64 l \<Longrightarrow> do_request mini_net (etcd_request mini_client ''/v3/kv/put'' (put_body k v l)) m =
    (Inr (answer 200 [JObj []]), gm_set k (v, l) (mini_norm m))"
  by (simp add: mini_net_def mini_do_def put_body_def mini_simps)

lemma mini_delete: "do_request mini_net (etcd_request mini_client ''/v3/kv/deleterange'' (delete_body k)) m =
    (Inr (answer 200 [JObj []]), gm_del k (mini_norm m))"
  by (simp add: mini_net_def mini_do_def delete_body_def mini_simps)

lemma mini_revoke: "in64 l \<Longrightarrow> do_request mini_net (etcd_request mini_client ''/v3/lease/revoke'' (lease_body l)) m =
    (Inr (answer 200 [JObj []]), filter (\<lambda>e. snd (snd e) \<noteq> l) (mini_norm m))"
  by (simp add: mini_net_def mini_do_def lease_body_def mini_simps)

lemma mini_grant: "do_request mini_net (etcd_request mini_client ''/v3/lease/grant'' (grant_body ttl)) m =
    (Inr (if in64 (mini_lease (mini_norm m)) then answer 200 [gateway_grant (mini_lease (mini_norm m)) ttl] else answer 500 []),
     mini_norm m)"
  by (simp add: mini_net_def mini_do_def grant_body_def gateway_grant_def mini_simps)

lemma mini_range: "do_request mini_net (etcd_request mini_client ''/v3/kv/range'' (range_body p)) m =
    (Inr (answer 200 [gateway_range (map (\<lambda>(k, v, l). \<lparr>kv_key = k, kv_value = v, kv_mod_revision = 1\<rparr>)
       (filter (\<lambda>e. etcd_in_range p (prefix_end p) (fst e)) (mini_norm m))) 1]), mini_norm m)"
  by (simp add: mini_net_def mini_do_def range_body_def mini_simps)

lemma mini_lease_fresh: "(k, v, l) \<in> set m \<Longrightarrow> l < mini_lease m" "0 < mini_lease m"
proof -
  have "0 \<le> foldr (\<lambda>e n. max (snd (snd e)) n) m 0" by (induction m) auto
  then show "0 < mini_lease m" by (simp add: mini_lease_def)
  show "(k, v, l) \<in> set m \<Longrightarrow> l < mini_lease m"
    unfolding mini_lease_def by (induction m) auto
qed

lemma mini_lease_unused: "gm_get m k \<noteq> Some (v, mini_lease m)" "mini_lease m \<noteq> 0"
  using mini_lease_fresh(1) [of k v "mini_lease m" m] mini_lease_fresh(2) [of m] by (auto dest: gm_get_SomeD)

lemma mini_serves: "etcd_serves mini_net mini_client mini_view"
  unfolding etcd_serves_def
proof (intro conjI allI impI)
  show "url_error mini_net u = None" for u by (simp add: mini_net_def)
  show "serves_grant mini_net mini_client mini_view"
    using mini_lease_unused
    by (fastforce simp: serves_grant_def mini_grant mini_view_def ok_answer_def answer_def go_div_def)
  show "serves_change mini_net mini_client mini_view ''/v3/kv/put'' (put_body k v l) (\<lambda>m. m(k \<mapsto> (v, l)))" if "in64 l" for k v l
    by (auto simp: serves_change_def mini_put [OF that] mini_view_def answer_def)
  show "serves_change mini_net mini_client mini_view ''/v3/kv/deleterange'' (delete_body k) (\<lambda>m. m(k := None))" for k
    by (auto simp: serves_change_def mini_delete mini_view_def answer_def)
  show "serves_change mini_net mini_client mini_view ''/v3/lease/revoke'' (lease_body l) (drop_lease l)" if "in64 l" for l
    by (auto simp: serves_change_def mini_revoke [OF that] mini_view_def answer_def gm_wf_filter gm_get_filter
        drop_lease_def fun_eq_iff split: option.splits)
  have dist: "distinct (map kv_key (map (\<lambda>(k, v, l). \<lparr>kv_key = k, kv_value = v, kv_mod_revision = 1\<rparr>) es))"
    if "gm_wf es" for es :: mini_state
    using that by (simp add: gm_wf_def comp_def case_prod_unfold)
  show "serves_range mini_net mini_client mini_view"
    unfolding serves_range_def
  proof (intro allI impI, unfold mini_range, elim Pair_inject, intro conjI allI impI)
    fix p s r s' rs
    let ?es = "filter (\<lambda>e. etcd_in_range p (prefix_end p) (fst e)) (mini_norm s)"
    let ?kvs = "map (\<lambda>(k, v, l). \<lparr>kv_key = k, kv_value = v, kv_mod_revision = 1\<rparr>) ?es"
    assume r: "Inr (answer 200 [gateway_range ?kvs 1]) = r" and s': "mini_norm s = s'"
    show "mini_view s' = mini_view s" using s' by (auto simp: mini_view_def)
    assume "r = Inr rs \<and> ok_answer rs"
    with r have "rs_values rs = gateway_range ?kvs 1 # []" by (auto simp: answer_def)
    moreover have "(\<exists>x \<in> set ?kvs. kv_key x = k \<and> kv_value x = v) \<longleftrightarrow>
        etcd_in_range p (prefix_end p) k \<and> (\<exists>l. mini_view s k = Some (v, l))" for k v
      using gm_mem_get [OF mini_norm_wf [of s]] by (force simp: mini_view_def)
    ultimately show "\<exists>kvs rv rest. rs_values rs = gateway_range kvs rv # rest \<and> in64 rv \<and>
        (\<forall>x \<in> set kvs. in64 (kv_mod_revision x)) \<and> distinct (map kv_key kvs) \<and>
        (\<forall>k v. (\<exists>x \<in> set kvs. kv_key x = k \<and> kv_value x = v) \<longleftrightarrow>
           etcd_in_range p (prefix_end p) k \<and> (\<exists>l. mini_view s k = Some (v, l)))"
      using dist [OF gm_wf_filter [OF mini_norm_wf]]
      by (intro exI [of _ ?kvs] exI [of _ 1] exI [of _ "[]"] conjI) (auto simp: in64_def)
  qed
qed


definition mini_api :: "(source_error, mini_state) registry_api" where
  "mini_api = \<lparr>api_store = etcd_store mini_net mini_client sample_parse sample_text, api_default_ttl = 15\<rparr>"

definition mini_body :: json where
  "mini_body = JObj [(''endpoint'', endpoint_json ep_a), (''ttl_seconds'', JNum ''30'')]"

lemma mini_register: "etcd_register mini_net mini_client sample_text ep_a ttl [] = (Inr 1, [(registry_key ep_a, ''a'', 1)])"
proof -
  have url: "\<And>u. url_error mini_net u = None" by (simp add: mini_net_def)
  note sent = post_sent [OF url]
  have "grant mini_net mini_client ttl [] = (Inr 1, [])"
    by (simp add: grant_def sent mini_grant mini_lease_def in64_def ok_answer_def answer_def go_div_def decode_first_def
        decode_grant_def gateway_grant_def decode_simps parse_raw_int_def int_result_def)
  moreover have "put mini_net mini_client (registry_key ep_a) ''a'' 1 [] = (Inr (), [(registry_key ep_a, ''a'', 1)])"
    by (simp add: put_def sent mini_put in64_def ok_answer_def answer_def go_div_def decode_first_def decode_any_def gm_set_def)
  ultimately show ?thesis by (simp add: etcd_register_def sample_text_def)
qed

lemma mini_deregister: "etcd_deregister mini_net mini_client ep_a 1 [(registry_key ep_a, ''a'', 1)] = (Inr (), [])"
proof -
  have url: "\<And>u. url_error mini_net u = None" by (simp add: mini_net_def)
  note sent = post_sent [OF url]
  show ?thesis
    by (simp add: etcd_deregister_def delete_key_def revoke_def sent mini_delete mini_revoke in64_def ok_answer_def answer_def
        go_div_def decode_first_def decode_any_def gm_del_def gm_wf_def)
qed

lemma mini_range_prefix:
  assumes "has_prefix (registry_key ep_a) p"
  shows "range_prefix mini_net mini_client p [(registry_key ep_a, ''a'', 1)] =
    (Inr ([\<lparr>kv_key = registry_key ep_a, kv_value = ''a'', kv_mod_revision = 1\<rparr>], 1), [(registry_key ep_a, ''a'', 1)])"
proof -
  let ?m = "[(registry_key ep_a, ''a'', 1)] :: mini_state" and ?x = "\<lparr>kv_key = registry_key ep_a, kv_value = ''a'', kv_mod_revision = 1\<rparr>"
  have r: "do_request mini_net (etcd_request mini_client ''/v3/kv/range'' (range_body p)) ?m =
      (Inr (answer 200 [gateway_range [?x] 1]), ?m)"
    using assms by (simp add: mini_range prefix_range gm_wf_def)
  show ?thesis
    by (rule range_answers [OF _ r, where rest = "[]"])
      (simp_all add: new_request_def mini_net_def etcd_request_def answer_def go_div_def in64_def)
qed

lemma mini_list:
  "etcd_list mini_net mini_client sample_parse ''echo'' [(registry_key ep_a, ''a'', 1)] =
     (Inr ([ep_a], 1), [(registry_key ep_a, ''a'', 1)])"
proof -
  have "has_prefix (registry_key ep_a) (list_prefix ''echo'')"
    by (simp add: has_prefix_def registry_key_def list_prefix_def ep_a_def)
  moreover have "unmarshal_endpoint sample_parse ''a'' = Inr ep_a"
    using unmarshal_readable [OF sample_readable(1)] by (simp add: sample_text_def)
  ultimately show ?thesis by (simp add: etcd_list_def mini_range_prefix)
qed

lemma mini_names: "trim_space (ep_service ep_a) \<noteq> []" "trim_space (ep_instance ep_a) \<noteq> []" "trim_space (ep_address ep_a) \<noteq> []"
  by (simp_all add: trim_space_plain plain_def ep_a_def)

lemma folded_api_names:
  "fold_name ''endpoint'' = ''ENDPOINT''" "fold_name ''ttl_seconds'' = ''TTL_SECONDS''" "fold_name ''lease_id'' = ''LEASE_ID''"
  by (simp_all add: fold_name_ascii upper_char_def char_of_def bit_0)

lemma mini_decode: "res_bind (Inr mini_body) decode_register = Inr \<lparr>rr_endpoint = ep_a, rr_ttl = 30\<rparr>"
  by (simp add: mini_body_def decode_register_def endpoint_json_def ep_a_def decode_simps int_field_def folded_api_names
      endpoint_from_def folded_endpoint_names parse_int64_def parse_uint_def is_digit_def digit_val_def)

lemma mini_api_register:
  "\<exists>resp. api_register mini_api (Inr mini_body) [] = (resp, [(registry_key ep_a, ''a'', 1)]) \<and> ap_status resp = 201"
  using mini_register [of 30] mini_names unfolding api_register_def mini_decode
  by (simp add: mini_api_def etcd_store_def write_json_def)

section \<open>Properties\<close>

text \<open>A network that also records the requests it is given.\<close>

definition recording :: "'s http_net \<Rightarrow> ('s \<times> http_request list) http_net" where
  "recording net =
     \<lparr>url_error = url_error net,
      do_request = (\<lambda>rq (s, tr). case do_request net rq s of (r, s') \<Rightarrow> (r, (s', tr @ [rq])))\<rparr>"



text \<open>
  Registration changes one key. Against etcd's documented behaviour, whatever fails, registering
  an instance and deregistering it touch no key but the instance's own; when both succeed with the
  lease the registration returned, the registry is as before without that instance.
\<close>

theorem register_deregister:
  assumes "etcd_serves net c view" "in64 l'"
    and "etcd_register net c json_text ep ttl s = (r, s1)" "etcd_deregister net c ep l' s1 = (r', s2)"
    and "r = Inl e \<or> r = Inr l'"
  shows "(\<forall>k. k \<noteq> registry_key ep \<longrightarrow> view s1 k = view s k) \<and>
    (r = Inr l' \<longrightarrow> view s1 (registry_key ep) = Some (json_text (endpoint_json ep), l') \<and>
       (\<forall>k. k \<noteq> registry_key ep \<longrightarrow> view s2 k = view s k)) \<and>
    (r = Inr l' \<and> r' = Inr () \<longrightarrow> view s2 = (view s)(registry_key ep := None))"
proof -
  note reg = register_changes [OF assms(1,3)] and dereg = deregister_changes [OF assms(1,4,2)]
  have drop: "drop_lease l' ((view s)(registry_key ep := None)) = (view s)(registry_key ep := None)" if "r = Inr l'"
    using reg(2) [OF that] by (auto simp: drop_lease_def fun_eq_iff split: option.splits)
  have "view s2 k = view s k" if "k \<noteq> registry_key ep" "r = Inr l'" for k
    using dereg(1) [of k] reg(2) [OF that(2)] that(1) by auto
  moreover have "view s2 = (view s)(registry_key ep := None)" if "r = Inr l'" "r' = Inr ()"
    using reg(2) [OF that(1)] dereg(2) [OF that(2)] drop [OF that(1)] by simp
  ultimately show ?thesis using reg by auto
qed

theorem register_deregister_witness:
  "\<exists>s1 s2. etcd_register mini_net mini_client sample_text ep_a 30 [] = (Inr 1, s1) \<and>
     etcd_deregister mini_net mini_client ep_a 1 s1 = (Inr (), s2) \<and>
     mini_view s1 (registry_key ep_a) = Some (''a'', 1) \<and> mini_view s2 = (mini_view [])(registry_key ep_a := None)"
  using register_deregister [OF mini_serves _ mini_register mini_deregister, of undefined] mini_register [of 30] mini_deregister
  by (auto simp: in64_def sample_text_def)

text \<open>
  C30: what is registered is listed. After the API answered a registration with 201, a list of the
  service that is answered with 200 contains the endpoint's document.
\<close>

theorem registered_is_listed:
  assumes "etcd_serves net c view"
    and "a = \<lparr>api_store = etcd_store net c text_json json_text, api_default_ttl = d\<rparr>"
    and "res_bind body decode_register = Inr req" "readable text_json json_text (rr_endpoint req)"
    and "api_register a body s = (resp, s1)" "ap_status resp = 201"
    and "api_list a (''/v1/registry/services/'' @ ep_service (rr_endpoint req)) s1 = (resp', s2)" "ap_status resp' = 200"
  shows "\<exists>eps. ap_body resp' = JsonBody (JArr (map endpoint_json eps)) \<and> rr_endpoint req \<in> set eps"
proof -
  let ?ep = "rr_endpoint req"
  obtain ttl l where "etcd_register net c json_text ?ep ttl s = (Inr l, s1)"
    using assms(2,3,5,6) by (auto simp: api_register_def etcd_store_def write_err_def write_json_def Let_def
        split: if_splits prod.splits sum.splits)
  from register_changes(2) [OF assms(1) this]
  have view: "view s1 (registry_key ?ep) = Some (json_text (endpoint_json ?ep), l)" by simp
  have path: "trim_prefix (''/v1/registry/services/'' @ ep_service ?ep) ''/v1/registry/services/'' = ep_service ?ep"
    by (rule trim_prefix_append)
  obtain eps rv where l: "etcd_list net c text_json (ep_service ?ep) s1 = (Inr (eps, rv), s2)"
    "ap_body resp' = JsonBody (JArr (map endpoint_json eps))"
    using assms(2,7,8) unfolding api_list_def path
    by (auto simp: etcd_store_def write_err_def write_json_def split: prod.splits sum.splits)
  from list_contents(2) [OF assms(1) l(1)] obtain kvs :: "kv list" where kvs:
    "list_all2 (\<lambda>x ep. unmarshal_endpoint text_json (kv_value x) = Inr ep) kvs eps"
    "\<forall>k v. (\<exists>x \<in> set kvs. kv_key x = k \<and> kv_value x = v) \<longleftrightarrow>
       has_prefix k (list_prefix (ep_service ?ep)) \<and> (\<exists>l. view s1 k = Some (v, l))"
    by (elim exE conjE)
  have "has_prefix (registry_key ?ep) (list_prefix (ep_service ?ep))"
    using has_prefix_append [of "list_prefix (ep_service ?ep)" "ep_instance ?ep"]
    by (simp add: registry_key_def list_prefix_def)
  with view kvs(2) obtain x where "x \<in> set kvs" "kv_value x = json_text (endpoint_json ?ep)" by blast
  with kvs(1) have "\<exists>ep \<in> set eps. unmarshal_endpoint text_json (json_text (endpoint_json ?ep)) = Inr ep"
    using list_all2_mem by fastforce
  with l(2) unmarshal_readable [OF assms(4)] show ?thesis by auto
qed

theorem registered_is_listed_witness:
  "\<exists>eps resp s1 resp' s2. api_register mini_api (Inr mini_body) [] = (resp, s1) \<and> ap_status resp = 201 \<and>
     api_list mini_api ''/v1/registry/services/echo'' s1 = (resp', s2) \<and> ap_status resp' = 200 \<and>
     ap_body resp' = JsonBody (JArr (map endpoint_json eps)) \<and> ep_a \<in> set eps"
proof -
  let ?m = "[(registry_key ep_a, ''a'', 1)] :: mini_state"
  let ?req = "\<lparr>rr_endpoint = ep_a, rr_ttl = 30\<rparr>"
  obtain resp where reg: "api_register mini_api (Inr mini_body) [] = (resp, ?m)" "ap_status resp = 201"
    using mini_api_register by blast
  have path: "trim_prefix (''/v1/registry/services/'' @ ''echo'') ''/v1/registry/services/'' = ''echo''"
    by (rule trim_prefix_append)
  have svc: "ep_service (rr_endpoint ?req) = ''echo''" by (simp add: ep_a_def)
  obtain resp' s2 where l: "api_list mini_api (''/v1/registry/services/'' @ ep_service (rr_endpoint ?req)) ?m = (resp', s2)"
    "ap_status resp' = 200"
    using mini_list unfolding api_list_def svc path by (simp add: mini_api_def etcd_store_def write_json_def)
  have "\<exists>eps. ap_body resp' = JsonBody (JArr (map endpoint_json eps)) \<and> rr_endpoint ?req \<in> set eps"
    by (rule registered_is_listed [OF mini_serves mini_api_def mini_decode _ reg l]) (simp add: sample_readable)
  with reg l svc show ?thesis by auto
qed

text \<open>
  C31: every response of the API is well formed, for every store and request: the status determines
  the kind of body and the content type, and only a request that reached the store changes it.
\<close>

definition response_typed :: "'e api_response \<Rightarrow> bool \<Rightarrow> bool" where
  "response_typed resp unchanged \<longleftrightarrow>
     (case ap_body resp of
        ErrorBody (StoreFailed _) \<Rightarrow> ap_status resp = 502
      | ErrorBody _ \<Rightarrow> ap_status resp = 400 \<and> unchanged
      | JsonBody _ \<Rightarrow> ap_status resp = 200 \<or> ap_status resp = 201
      | TextBody _ \<Rightarrow> ap_status resp \<in> {200, 404, 405} \<and> unchanged
      | NoBody \<Rightarrow> ap_status resp = 204) \<and>
     ((''Content-Type'', ''application/json'') \<in> set (ap_headers resp) \<longleftrightarrow>
        (case ap_body resp of ErrorBody _ \<Rightarrow> True | JsonBody _ \<Rightarrow> True | _ \<Rightarrow> False))"

lemma response_typed_intros:
  "response_typed (write_err 502 (StoreFailed e)) u" "response_typed (write_err 400 (BodyError j)) True"
  "response_typed (write_err 400 (MissingFields m)) True" "response_typed (write_header 204) u"
  "response_typed (write_json hs 200 (JsonBody b)) u" "response_typed (write_json hs 201 (JsonBody b)) u"
  by (simp_all add: response_typed_def write_err_def write_json_def write_header_def)


text \<open>
  Finding: the key of an instance joins two names with an unescaped slash, so two services can own
  one key, and one service's list shows instances of another.
\<close>

theorem registry_key_collision:
  "registry_key (no_endpoint\<lparr>ep_service := ''a'', ep_instance := ''b/c''\<rparr>) =
   registry_key (no_endpoint\<lparr>ep_service := ''a/b'', ep_instance := ''c''\<rparr>)"
  by (simp add: registry_key_def)

end
