(* ===== verification/Registration.thy ===== *)
theory Registration
  imports Registry Retry
begin

text \<open>
  \<^verbatim>\<open>internal/registration/registrar.go\<close>: the loop by which a sidecar keeps its service registered
  through the HTTP API of the control plane. \<open>Run\<close> never ends by itself, so it is a machine whose
  phases are the points where it blocks: registering, holding a lease between two ticks of the
  heartbeat ticker, waiting for the retry timer, returned. One step runs to the next such point.
  The network is an argument and answers each request with the time at which the call returns; the
  machine keeps a log of the calls it made. Where a \<open>select\<close> finds the context done and the timer
  fired at the same instant, \<open>tie\<close> decides.
\<close>

section \<open>Configuration\<close>

record reg_config =
  rc_url :: string
  rc_endpoint :: endpoint
  rc_ttl :: int
  rc_retry_delay :: int

datatype reg_error =
    ConfigError string | RequestError string | CallError string | UnexpectedStatus string string
  | AnswerError json_error | EmptyLease | ContextError ctx_error

definition reg_validate :: "reg_config \<Rightarrow> reg_error option" where
  "reg_validate cfg =
     (if trim_space (rc_url cfg) = [] then Some (ConfigError ''registry URL is required'')
      else if trim_space (ep_service (rc_endpoint cfg)) = [] \<or> trim_space (ep_instance (rc_endpoint cfg)) = [] \<or>
              trim_space (ep_address (rc_endpoint cfg)) = []
      then Some (ConfigError ''service, instance ID, and address are required'')
      else if rc_ttl cfg < second then Some (ConfigError ''registration TTL must be at least one second'')
      else None)"

section \<open>Calls\<close>

record 's timed_net =
  tn_url_error :: "string \<Rightarrow> string option"
  tn_do :: "go_context \<Rightarrow> http_request \<Rightarrow> int \<Rightarrow> 's \<Rightarrow> (string + http_response) \<times> int \<times> 's"

datatype reg_action = AskRegister int | GotLease int | AskHeartbeat int int | AskDeregister int int

record 's reg_world =
  rw_now :: int
  rw_net :: 's
  rw_log :: "reg_action list"

definition record_action :: "reg_action \<Rightarrow> 's reg_world \<Rightarrow> 's reg_world" where
  "record_action a w = w\<lparr>rw_log := rw_log w @ [a]\<rparr>"

text \<open>
  \<open>postJSON\<close>: the URL without trailing slashes, the exact status, and the answer decoded where the
  caller wants it. A request that cannot be built is not sent.
\<close>

definition post_json ::
  "'s timed_net \<Rightarrow> go_context \<Rightarrow> string \<Rightarrow> json \<Rightarrow> int \<Rightarrow> (json \<Rightarrow> json_error + 'a) option \<Rightarrow> 'a \<Rightarrow>
     's reg_world \<Rightarrow> (reg_error + 'a) \<times> 's reg_world" where
  "post_json net ctx url body expected decode no_answer w =
     (let url = trim_right_char CHR ''/'' url
      in case tn_url_error net url of
           Some e \<Rightarrow> (Inl (RequestError e), w)
         | None \<Rightarrow>
             (case tn_do net ctx \<lparr>rq_method = ''POST'', rq_url = url, rq_content_type = ''application/json'', rq_body = body\<rparr>
                     (rw_now w) (rw_net w) of
                (r, t, n) \<Rightarrow>
                  (let w = w\<lparr>rw_now := t, rw_net := n\<rparr>
                   in case r of
                        Inl e \<Rightarrow> (Inl (CallError e), w)
                      | Inr rs \<Rightarrow>
                          if rs_status rs \<noteq> expected
                          then (Inl (UnexpectedStatus (rs_status_text rs) (trim_space (take 1024 (rs_text rs)))), w)
                          else (case decode of
                                  None \<Rightarrow> (Inr no_answer, w)
                                | Some dec \<Rightarrow> (map_sum AnswerError id (decode_first dec rs), w)))))"

definition register_body :: "reg_config \<Rightarrow> json" where
  "register_body cfg =
     JObj [(''endpoint'', endpoint_json (rc_endpoint cfg)), (''ttl_seconds'', JNum (itoa (go_div (rc_ttl cfg) second)))]"

definition decode_register_response :: "json \<Rightarrow> json_error + int" where
  "decode_register_response j = res_bind (members j) (int_field ''lease_id'')"

definition reg_register ::
  "'s timed_net \<Rightarrow> go_context \<Rightarrow> reg_config \<Rightarrow> 's reg_world \<Rightarrow> (reg_error + int) \<times> 's reg_world" where
  "reg_register net ctx cfg w =
     (case post_json net ctx (rc_url cfg @ ''/v1/registry/register'') (register_body cfg) 201
             (Some decode_register_response) 0 (record_action (AskRegister (rw_now w)) w) of
        (Inl e, w') \<Rightarrow> (Inl e, w')
      | (Inr l, w') \<Rightarrow> (if l = 0 then (Inl EmptyLease, w') else (Inr l, w')))"

definition heartbeat_body :: "int \<Rightarrow> json" where
  "heartbeat_body l = JObj [(''lease_id'', JNum (itoa l))]"

definition reg_heartbeat ::
  "'s timed_net \<Rightarrow> go_context \<Rightarrow> reg_config \<Rightarrow> int \<Rightarrow> 's reg_world \<Rightarrow> (reg_error + unit) \<times> 's reg_world" where
  "reg_heartbeat net ctx cfg l w =
     post_json net ctx (rc_url cfg @ ''/v1/registry/heartbeat'') (heartbeat_body l) 204 None ()
       (record_action (AskHeartbeat l (rw_now w)) w)"

text \<open>Deregistration runs under a context of its own that ends after two seconds; its result is dropped.\<close>

definition deregister_body :: "reg_config \<Rightarrow> int \<Rightarrow> json" where
  "deregister_body cfg l =
     JObj [(''instance_id'', JStr (ep_instance (rc_endpoint cfg))), (''lease_id'', JNum (itoa l)),
           (''service'', JStr (ep_service (rc_endpoint cfg)))]"

definition best_effort_deregister :: "'s timed_net \<Rightarrow> reg_config \<Rightarrow> int \<Rightarrow> 's reg_world \<Rightarrow> 's reg_world" where
  "best_effort_deregister net cfg l w =
     snd (post_json net \<lparr>done_at = Some (rw_now w + 2 * second), done_err = DeadlineExceeded\<rparr>
            (rc_url cfg @ ''/v1/registry/deregister'') (deregister_body cfg l) 204 None ()
            (record_action (AskDeregister l (rw_now w)) w))"

section \<open>The loop\<close>

definition heartbeat_interval :: "reg_config \<Rightarrow> int" where
  "heartbeat_interval cfg = (let i = go_div (rc_ttl cfg) 3 in if i < second then second else i)"

text \<open>
  A ticker started at \<open>t0\<close> ticks every \<open>i\<close>; a tick that nobody has read yet is kept and later ones are
  dropped, so the tick after time \<open>t\<close> is the next multiple.
\<close>

definition tick_after :: "int \<Rightarrow> int \<Rightarrow> int \<Rightarrow> int" where
  "tick_after t0 i t = t0 + ((t - t0) div i + 1) * i"

text \<open>\<open>select\<close> between the context and a channel that becomes ready at \<open>ready\<close>.\<close>

definition select_ctx :: "go_context \<Rightarrow> (int \<Rightarrow> bool) \<Rightarrow> int \<Rightarrow> int \<Rightarrow> bool \<times> int" where
  "select_ctx ctx tie ready now =
     (let r = max now ready
      in case done_at ctx of
           None \<Rightarrow> (False, r)
         | Some c \<Rightarrow> if max now c < r \<or> max now c = r \<and> tie r then (True, max now c) else (False, r))"

datatype keep_result = StillHeld int | KeepStopped reg_error

text \<open>One turn of the loop of \<open>keepAlive\<close>; \<open>start\<close> is when the ticker was made and \<open>next\<close> its next tick.\<close>

definition keep_alive_turn ::
  "'s timed_net \<Rightarrow> go_context \<Rightarrow> (int \<Rightarrow> bool) \<Rightarrow> reg_config \<Rightarrow> int \<Rightarrow> int \<Rightarrow> int \<Rightarrow> 's reg_world \<Rightarrow>
     keep_result \<times> 's reg_world" where
  "keep_alive_turn net ctx tie cfg l start next_tick w =
     (case select_ctx ctx tie next_tick (rw_now w) of
        (True, t) \<Rightarrow> (KeepStopped (ContextError (done_err ctx)), w\<lparr>rw_now := t\<rparr>)
      | (False, t) \<Rightarrow>
          (case reg_heartbeat net ctx cfg l (w\<lparr>rw_now := t\<rparr>) of
             (Inl e, w') \<Rightarrow> (KeepStopped e, w')
           | (Inr _, w') \<Rightarrow> (StillHeld (tick_after start (heartbeat_interval cfg) t), w')))"

datatype reg_phase = Registering | Holding int int int | Waiting | Returned

text \<open>After \<open>keepAlive\<close>: deregister and return if the context is done, otherwise try again later.\<close>

definition after_keep :: "'s timed_net \<Rightarrow> go_context \<Rightarrow> reg_config \<Rightarrow> int \<Rightarrow> 's reg_world \<Rightarrow> reg_phase \<times> 's reg_world" where
  "after_keep net ctx cfg l w =
     (if ctx_err ctx (rw_now w) \<noteq> None then (Returned, best_effort_deregister net cfg l w) else (Waiting, w))"

definition retry_delay :: "reg_config \<Rightarrow> int" where
  "retry_delay cfg = (if rc_retry_delay cfg \<le> 0 then 2 * second else rc_retry_delay cfg)"

fun reg_step ::
  "'s timed_net \<Rightarrow> go_context \<Rightarrow> (int \<Rightarrow> bool) \<Rightarrow> reg_config \<Rightarrow> reg_phase \<times> 's reg_world \<Rightarrow> reg_phase \<times> 's reg_world" where
  "reg_step net ctx tie cfg (Registering, w) =
     (case reg_register net ctx cfg w of
        (Inl e, w') \<Rightarrow> (Waiting, w')
      | (Inr l, w') \<Rightarrow>
          (let w'' = record_action (GotLease l) w'
           in (Holding l (rw_now w'') (rw_now w'' + heartbeat_interval cfg), w'')))"
| "reg_step net ctx tie cfg (Holding l start next_tick, w) =
     (case keep_alive_turn net ctx tie cfg l start next_tick w of
        (StillHeld next', w') \<Rightarrow> (Holding l start next', w')
      | (KeepStopped e, w') \<Rightarrow> after_keep net ctx cfg l w')"
| "reg_step net ctx tie cfg (Waiting, w) =
     (case select_ctx ctx tie (rw_now w + retry_delay cfg) (rw_now w) of
        (True, t) \<Rightarrow> (Returned, w\<lparr>rw_now := t\<rparr>)
      | (False, t) \<Rightarrow> (Registering, w\<lparr>rw_now := t\<rparr>))"
| "reg_step net ctx tie cfg (Returned, w) = (Returned, w)"

text \<open>\<open>Run\<close>: an invalid configuration is its only error; otherwise \<open>n\<close> steps of the machine.\<close>

definition reg_run ::
  "'s timed_net \<Rightarrow> go_context \<Rightarrow> (int \<Rightarrow> bool) \<Rightarrow> reg_config \<Rightarrow> nat \<Rightarrow> 's reg_world \<Rightarrow> reg_error + reg_phase \<times> 's reg_world" where
  "reg_run net ctx tie cfg n w =
     (case reg_validate cfg of
        Some e \<Rightarrow> Inl e
      | None \<Rightarrow> Inr ((reg_step net ctx tie cfg ^^ n) (Registering, w)))"

section \<open>Lemmas\<close>

text \<open>
  What is assumed of the network where time matters: a call does not return before it starts, and
  a call started under a context that is done fails (\<open>http.Client.Do\<close>).
\<close>

definition net_timely :: "'s timed_net \<Rightarrow> bool" where
  "net_timely net \<longleftrightarrow>
     (\<forall>ctx rq t s r t' s'. tn_do net ctx rq t s = (r, t', s') \<longrightarrow>
        t \<le> t' \<and> (ctx_err ctx t \<noteq> None \<longrightarrow> (\<exists>e. r = Inl e)))"

lemma net_timelyD:
  assumes "net_timely net" "tn_do net ctx rq t s = (r, t', s')"
  shows "t \<le> t'" "ctx_err ctx t \<noteq> None \<Longrightarrow> \<exists>e. r = Inl e"
  using assms unfolding net_timely_def by blast+

lemma post_json_log: "post_json net ctx url body expected dec z w = (r, w') \<Longrightarrow> rw_log w' = rw_log w"
  by (auto simp: post_json_def Let_def split: option.splits sum.splits prod.splits if_splits)

lemma post_json_time:
  assumes "net_timely net" "post_json net ctx url body expected dec z w = (r, w')"
  shows "rw_now w \<le> rw_now w'" "ctx_err ctx (rw_now w) \<noteq> None \<Longrightarrow> \<exists>e. r = Inl e"
proof -
  let ?rq = "\<lparr>rq_method = ''POST'', rq_url = trim_right_char CHR ''/'' url, rq_content_type = ''application/json'', rq_body = body\<rparr>"
  obtain q t n where q: "tn_do net ctx ?rq (rw_now w) (rw_net w) = (q, t, n)" by (metis surj_pair)
  note time = net_timelyD [OF assms(1) q]
  have "rw_now w' = rw_now w \<and> (\<exists>e. r = Inl e) \<or> rw_now w' = t \<and> ((\<exists>e. q = Inl e) \<longrightarrow> (\<exists>e. r = Inl e))"
    using assms(2) by (auto simp: post_json_def Let_def q split: option.splits sum.splits if_splits)
  with time show "rw_now w \<le> rw_now w'" "ctx_err ctx (rw_now w) \<noteq> None \<Longrightarrow> \<exists>e. r = Inl e" by auto
qed

lemma record_action_simps [simp]:
  "rw_now (record_action a w) = rw_now w" "rw_log (record_action a w) = rw_log w @ [a]"
  by (simp_all add: record_action_def)

lemma reg_register_log: "reg_register net ctx cfg w = (r, w') \<Longrightarrow> rw_log w' = rw_log w @ [AskRegister (rw_now w)]"
  by (auto simp: reg_register_def split: prod.splits sum.splits if_splits dest: post_json_log)

lemma reg_register_time:
  assumes "net_timely net" "reg_register net ctx cfg w = (r, w')"
  shows "rw_now w \<le> rw_now w'" "ctx_err ctx (rw_now w) \<noteq> None \<Longrightarrow> \<exists>e. r = Inl e"
  using assms(2) post_json_time [OF assms(1)]
  by (fastforce simp: reg_register_def split: prod.splits sum.splits if_splits)+

lemma reg_heartbeat_log: "reg_heartbeat net ctx cfg l w = (r, w') \<Longrightarrow> rw_log w' = rw_log w @ [AskHeartbeat l (rw_now w)]"
  by (auto simp: reg_heartbeat_def dest: post_json_log)

lemma reg_heartbeat_time:
  assumes "net_timely net" "reg_heartbeat net ctx cfg l w = (r, w')"
  shows "rw_now w \<le> rw_now w'" "ctx_err ctx (rw_now w) \<noteq> None \<Longrightarrow> \<exists>e. r = Inl e"
  using post_json_time [OF assms(1) assms(2) [unfolded reg_heartbeat_def]] by simp_all

lemma post_json_snd:
  "rw_log (snd (post_json net ctx url body expected dec z w)) = rw_log w"
  "net_timely net \<Longrightarrow> rw_now w \<le> rw_now (snd (post_json net ctx url body expected dec z w))"
  by (rule post_json_log [OF surjective_pairing], rule post_json_time(1) [OF _ surjective_pairing])

lemma deregister_log: "rw_log (best_effort_deregister net cfg l w) = rw_log w @ [AskDeregister l (rw_now w)]"
  by (simp add: best_effort_deregister_def post_json_snd)

lemma deregister_time: "net_timely net \<Longrightarrow> rw_now w \<le> rw_now (best_effort_deregister net cfg l w)"
  unfolding best_effort_deregister_def by (rule order_trans [OF _ post_json_snd(2)]) simp_all

lemma select_ctx_done: "select_ctx ctx tie ready now = (d, t) \<Longrightarrow> d \<Longrightarrow> ctx_err ctx t \<noteq> None \<and> now \<le> t"
  by (auto simp: select_ctx_def ctx_err_def Let_def split: option.splits if_splits)

lemma select_ctx_ready: "select_ctx ctx tie ready now = (d, t) \<Longrightarrow> \<not> d \<Longrightarrow> t = max now ready"
  by (auto simp: select_ctx_def Let_def split: option.splits if_splits)

lemma tick_after_later: "0 < i \<Longrightarrow> t < tick_after t0 i t" "0 < i \<Longrightarrow> tick_after t0 i t \<le> t + i"
proof -
  assume i: "0 < i"
  have "0 \<le> (t - t0) mod i" "(t - t0) mod i < i" using i by simp_all
  moreover have "(t - t0) div i * i + (t - t0) mod i = t - t0" by (rule div_mult_mod_eq)
  moreover have "tick_after t0 i t = t0 + (t - t0) div i * i + i" by (simp add: tick_after_def distrib_right)
  ultimately show "t < tick_after t0 i t" "tick_after t0 i t \<le> t + i" by linarith+
qed

lemma heartbeat_interval_pos: "second \<le> heartbeat_interval cfg"
  by (simp add: heartbeat_interval_def Let_def)

lemma retry_delay_pos: "0 < retry_delay cfg"
  by (simp add: retry_delay_def)

subsection \<open>The log of calls\<close>

text \<open>The calls a registrar may make, as a machine: what the log so far entitles it to.\<close>

datatype log_state = Idle | Asked | Held int | Gone

fun log_next :: "log_state \<Rightarrow> reg_action \<Rightarrow> log_state option" where
  "log_next Idle (AskRegister t) = Some Asked"
| "log_next Asked (AskRegister t) = Some Asked"
| "log_next Asked (GotLease l) = Some (Held l)"
| "log_next (Held l) (AskHeartbeat l' t) = (if l' = l then Some (Held l) else None)"
| "log_next (Held l) (AskRegister t) = Some Asked"
| "log_next (Held l) (AskDeregister l' t) = (if l' = l then Some Gone else None)"
| "log_next _ _ = None"

definition log_state_of :: "reg_action list \<Rightarrow> log_state option" where
  "log_state_of as = foldl (\<lambda>s a. Option.bind s (\<lambda>s. log_next s a)) (Some Idle) as"

lemma log_state_snoc [simp]: "log_state_of (as @ [a]) = Option.bind (log_state_of as) (\<lambda>s. log_next s a)"
  by (simp add: log_state_of_def)

fun phase_log :: "reg_phase \<Rightarrow> log_state \<Rightarrow> bool" where
  "phase_log Registering s = (s \<noteq> Gone)"
| "phase_log (Holding l start n) s = (s = Held l)"
| "phase_log Waiting s = (s \<noteq> Gone \<and> s \<noteq> Idle)"
| "phase_log Returned s = (s \<noteq> Idle)"

definition reg_inv :: "reg_phase \<times> 's reg_world \<Rightarrow> bool" where
  "reg_inv pw \<longleftrightarrow> (\<exists>s. log_state_of (rw_log (snd pw)) = Some s \<and> phase_log (fst pw) s)"

lemma log_next_register: "s \<noteq> Gone \<Longrightarrow> log_next s (AskRegister t) = Some Asked"
  by (cases s) auto

lemma reg_step_inv:
  assumes "reg_inv pw"
  shows "reg_inv (reg_step net ctx tie cfg pw)"
proof -
  obtain p w where pw: "pw = (p, w)" by fastforce
  with assms obtain s where s: "log_state_of (rw_log w) = Some s" "phase_log p s" by (auto simp: reg_inv_def)
  show ?thesis
  proof (cases p)
    case Registering
    obtain r w' where r: "reg_register net ctx cfg w = (r, w')" by fastforce
    with Registering s have "log_state_of (rw_log w') = Some Asked"
      by (simp add: reg_register_log [OF r] log_next_register)
    with Registering r pw show ?thesis by (cases r) (simp_all add: reg_inv_def Let_def)
  next
    case (Holding l start n)
    obtain d t where sel: "select_ctx ctx tie n (rw_now w) = (d, t)" by fastforce
    obtain r w' where r: "reg_heartbeat net ctx cfg l (w\<lparr>rw_now := t\<rparr>) = (r, w')" by fastforce
    have held: "log_state_of (rw_log w) = Some (Held l)" "log_state_of (rw_log w') = Some (Held l)"
      using s Holding by (simp_all add: reg_heartbeat_log [OF r])
    have keep: "reg_inv (after_keep net ctx cfg l v)" if "log_state_of (rw_log v) = Some (Held l)" for v
      using that by (simp add: after_keep_def reg_inv_def deregister_log)
    show ?thesis
      using pw Holding sel r held keep [of w'] keep [of "w\<lparr>rw_now := t\<rparr>"]
      by (cases d; cases r) (simp_all add: keep_alive_turn_def reg_inv_def)
  next
    case Waiting
    with pw s show ?thesis by (auto simp: reg_inv_def split: prod.splits bool.splits)
  next
    case Returned
    with pw assms show ?thesis by simp
  qed
qed

lemma reg_steps_inv: "reg_inv pw \<Longrightarrow> reg_inv ((reg_step net ctx tie cfg ^^ n) pw)"
  by (induction n) (auto intro: reg_step_inv)

text \<open>Leaving the loop while a lease is held: the lease is given up, whether the heartbeat was due or not.\<close>

lemma holding_returns_gone:
  assumes "log_state_of (rw_log w) = Some (Held l)" "reg_step net ctx tie cfg (Holding l start n, w) = (Returned, w')"
  shows "log_state_of (rw_log w') = Some Gone"
proof -
  obtain d t where sel: "select_ctx ctx tie n (rw_now w) = (d, t)" by fastforce
  obtain r v where r: "reg_heartbeat net ctx cfg l (w\<lparr>rw_now := t\<rparr>) = (r, v)" by fastforce
  have held: "log_state_of (rw_log v) = Some (Held l)" using assms(1) by (simp add: reg_heartbeat_log [OF r])
  show ?thesis
    using assms sel r held
    by (cases d; cases r) (auto simp: keep_alive_turn_def after_keep_def deregister_log split: if_splits)
qed

subsection \<open>Progress\<close>

text \<open>While a lease is held: the context ends the turn, or the heartbeat is sent at the tick.\<close>

lemma holding_step:
  assumes "net_timely net" "reg_step net ctx tie cfg (Holding l start n, w) = (p, w')"
  shows "rw_now w \<le> rw_now w' \<and> (p = Returned \<and> ctx_err ctx (rw_now w') \<noteq> None \<or> p = Waiting \<or>
    (\<exists>n'. p = Holding l start n' \<and> n < n' \<and> n' \<le> max (rw_now w) n + heartbeat_interval cfg \<and>
       ctx_err ctx (max (rw_now w) n) = None))"
proof -
  have later: "ctx_err ctx t' \<noteq> None" if "ctx_err ctx t \<noteq> None" "t \<le> t'" for t t'
    using that by (auto simp: ctx_err_def split: option.splits if_splits)
  have keep: "rw_now v \<le> rw_now w' \<and> (p = Returned \<and> ctx_err ctx (rw_now w') \<noteq> None \<or> p = Waiting)"
    if "after_keep net ctx cfg l v = (p, w')" for v
    using that later deregister_time [OF assms(1), of v cfg l]
    by (auto simp: after_keep_def split: if_splits)
  obtain d t where sel: "select_ctx ctx tie n (rw_now w) = (d, t)" by fastforce
  show ?thesis
  proof (cases d)
    case True
    with sel assms(2) have "after_keep net ctx cfg l (w\<lparr>rw_now := t\<rparr>) = (p, w')" by (simp add: keep_alive_turn_def)
    from keep [OF this] select_ctx_done [OF sel True] show ?thesis by auto
  next
    case False
    note t = select_ctx_ready [OF sel False]
    obtain r v where r: "reg_heartbeat net ctx cfg l (w\<lparr>rw_now := t\<rparr>) = (r, v)" by fastforce
    note time = reg_heartbeat_time [OF assms(1) r]
    show ?thesis
    proof (cases r)
      case (Inl e)
      with sel False r assms(2) have "after_keep net ctx cfg l v = (p, w')" by (simp add: keep_alive_turn_def)
      from keep [OF this] time(1) t show ?thesis by auto
    next
      case (Inr u)
      with sel False r assms(2)
      have p: "p = Holding l start (tick_after start (heartbeat_interval cfg) t)" "w' = v"
        by (auto simp: keep_alive_turn_def)
      have "0 < heartbeat_interval cfg" using heartbeat_interval_pos [of cfg] by linarith
      note tick = tick_after_later [OF this, where t = t and ?t0.0 = start]
      have "ctx_err ctx t = None" using time(2) Inr by (cases "ctx_err ctx t") auto
      with p tick t time(1) show ?thesis by auto
    qed
  qed
qed

lemma waiting_step:
  assumes "reg_step net ctx tie cfg (Waiting, w) = (p, w')"
  shows "rw_now w \<le> rw_now w' \<and> (p = Returned \<and> ctx_err ctx (rw_now w') \<noteq> None \<or>
    p = Registering \<and> rw_now w < rw_now w' \<and> ctx_err ctx (rw_now w) = None)"
proof -
  let ?r = "rw_now w + retry_delay cfg"
  obtain d t where sel: "select_ctx ctx tie ?r (rw_now w) = (d, t)" by fastforce
  have wait: "rw_now w < ?r" using retry_delay_pos [of cfg] by simp
  show ?thesis
  proof (cases d)
    case True
    with sel assms select_ctx_done [OF sel True] show ?thesis by auto
  next
    case False
    have "ctx_err ctx (rw_now w) = None"
      using sel False wait by (auto simp: select_ctx_def ctx_err_def Let_def split: option.splits if_splits)
    with sel False assms select_ctx_ready [OF sel False] wait show ?thesis by auto
  qed
qed

lemma registering_step:
  assumes "net_timely net" "reg_step net ctx tie cfg (Registering, w) = (p, w')"
  shows "rw_now w \<le> rw_now w' \<and> (p = Waiting \<or> (\<exists>l start n. p = Holding l start n))"
proof -
  obtain r v where r: "reg_register net ctx cfg w = (r, v)" by fastforce
  with assms(2) reg_register_time(1) [OF assms(1) r] show ?thesis by (cases r) (auto simp: Let_def)
qed

fun phase_rank :: "reg_phase \<Rightarrow> nat" where
  "phase_rank Registering = 2"
| "phase_rank (Holding l start n) = 1"
| "phase_rank Waiting = 0"
| "phase_rank Returned = 0"

fun phase_tick :: "reg_phase \<Rightarrow> int" where
  "phase_tick (Holding l start n) = n"
| "phase_tick _ = 0"

text \<open>Every step that does not return makes the time left, the phase or the ticks left smaller.\<close>

definition reg_order :: "int \<Rightarrow> int \<Rightarrow> ((reg_phase \<times> 's reg_world) \<times> (reg_phase \<times> 's reg_world)) set" where
  "reg_order c i = measures [\<lambda>(p, w). nat (c - rw_now w), \<lambda>(p, w). phase_rank p, \<lambda>(p, w). nat (c + i - phase_tick p)]"

lemma reg_step_decreases:
  assumes "net_timely net" "done_at ctx = Some c" "reg_step net ctx tie cfg (p, w) = (p', w')" "p' \<noteq> Returned"
  shows "((p', w'), (p, w)) \<in> reg_order c (heartbeat_interval cfg)"
proof (cases p)
  case Registering
  with registering_step [OF assms(1)] assms(3) have "rw_now w \<le> rw_now w'" "phase_rank p' < phase_rank p" by fastforce+
  then show ?thesis by (auto simp: reg_order_def)
next
  case (Holding l start n)
  note h = holding_step [OF assms(1) assms(3) [unfolded Holding]]
  show ?thesis
  proof (cases "p' = Waiting")
    case True
    with h Holding show ?thesis by (auto simp: reg_order_def)
  next
    case False
    with h assms(4) obtain n' where n': "p' = Holding l start n'" "n < n'" "n' \<le> max (rw_now w) n + heartbeat_interval cfg"
        "ctx_err ctx (max (rw_now w) n) = None" "rw_now w \<le> rw_now w'" by auto
    then have "max (rw_now w) n < c" using assms(2) by (auto simp: ctx_err_def split: if_splits)
    with n' heartbeat_interval_pos [of cfg]
    have "nat (c + heartbeat_interval cfg - n') < nat (c + heartbeat_interval cfg - n)" by linarith
    with n' Holding show ?thesis by (auto simp: reg_order_def)
  qed
next
  case Waiting
  with waiting_step assms(3,4) have "rw_now w < rw_now w'" "ctx_err ctx (rw_now w) = None" by fastforce+
  with assms(2) have "nat (c - rw_now w') < nat (c - rw_now w)" by (auto simp: ctx_err_def split: if_splits)
  then show ?thesis by (auto simp: reg_order_def)
next
  case Returned
  with assms(3,4) show ?thesis by simp
qed

lemma reg_steps_return:
  assumes "net_timely net" "done_at ctx = Some c"
  shows "\<exists>n. fst ((reg_step net ctx tie cfg ^^ n) pw) = Returned"
proof -
  have "wf (reg_order c (heartbeat_interval cfg) :: ((reg_phase \<times> 'a reg_world) \<times> _) set)"
    by (simp add: reg_order_def)
  then show ?thesis
  proof (induction pw rule: wf_induct_rule)
    case (less pw)
    obtain p w p' w' where pw: "pw = (p, w)" "reg_step net ctx tie cfg pw = (p', w')" by (metis surj_pair)
    show ?case
    proof (cases "p' = Returned")
      case True
      with pw show ?thesis by (intro exI [of _ 1]) simp
    next
      case False
      then have "((p', w'), pw) \<in> reg_order c (heartbeat_interval cfg)"
        using reg_step_decreases [OF assms] pw by simp
      from less.IH [OF this] obtain n where "fst ((reg_step net ctx tie cfg ^^ n) (p', w')) = Returned" by blast
      then show ?thesis using pw by (intro exI [of _ "Suc n"]) (simp add: funpow_Suc_right del: funpow.simps)
    qed
  qed
qed

lemma zdiv_le_dividend_pos: "second \<le> n \<Longrightarrow> n div second \<le> n"
  using zdiv_mono2 [of n 1 second] by simp

subsection \<open>The registrar and the registry API\<close>

text \<open>The network that hands every request sent to \<open>base\<close> to the handler of the API, at once.\<close>

definition api_answer :: "'e api_response \<Rightarrow> http_response" where
  "api_answer resp =
     \<lparr>rs_status = ap_status resp, rs_status_text = itoa (ap_status resp), rs_text = [],
      rs_values = (case ap_body resp of JsonBody j \<Rightarrow> [j] | _ \<Rightarrow> []), rs_end = ''EOF''\<rparr>"

definition direct_net :: "string \<Rightarrow> ('e, 's) registry_api \<Rightarrow> 's timed_net" where
  "direct_net base a =
     \<lparr>tn_url_error = (\<lambda>_. None),
      tn_do = (\<lambda>ctx rq t s.
        let path = trim_prefix (rq_url rq) base
        in case api_handler a (rq_method rq) path path (Inr (rq_body rq)) s of (resp, s') \<Rightarrow> (Inr (api_answer resp), t, s'))\<rparr>"

lemma folded_request_names:
  "fold_name ''endpoint'' = ''ENDPOINT''" "fold_name ''ttl_seconds'' = ''TTL_SECONDS''" "fold_name ''lease_id'' = ''LEASE_ID''"
  "fold_name ''service'' = ''SERVICE''" "fold_name ''instance_id'' = ''INSTANCE_ID''"
  by (simp_all add: fold_name_ascii upper_char_def char_of_def bit_0)

lemma members_endpoint_json: "\<exists>ms. members (endpoint_json ep) = Inr ms \<and> (ep_wf ep \<longrightarrow> endpoint_from ms = Inr (canonical_endpoint ep))"
  using decode_endpoint_json [of ep] by (auto simp: endpoint_json_def decode_endpoint_def)

lemma decode_register_body:
  assumes "ep_wf (rc_endpoint cfg)" "in64 (go_div (rc_ttl cfg) second)"
  shows "decode_register (register_body cfg) =
    Inr \<lparr>rr_endpoint = canonical_endpoint (rc_endpoint cfg), rr_ttl = go_div (rc_ttl cfg) second\<rparr>"
proof -
  obtain ms where "members (endpoint_json (rc_endpoint cfg)) = Inr ms" "endpoint_from ms = Inr (canonical_endpoint (rc_endpoint cfg))"
    using members_endpoint_json assms(1) by blast
  with assms(2) show ?thesis
    by (simp add: decode_register_def register_body_def struct_field_def int_field_def named_def folded_request_names)
qed

lemma decode_lease_bodies:
  assumes "in64 l"
  shows "decode_lease (heartbeat_body l) = Inr \<lparr>lr_lease = l, lr_service = [], lr_instance = []\<rparr>"
    "decode_lease (deregister_body cfg l) =
       Inr \<lparr>lr_lease = l, lr_service = ep_service (rc_endpoint cfg), lr_instance = ep_instance (rc_endpoint cfg)\<rparr>"
  using assms by (simp_all add: decode_lease_def heartbeat_body_def deregister_body_def int_field_def string_field_def
      named_def folded_request_names)

lemma trim_right_char_end: "s \<noteq> [] \<Longrightarrow> last s \<noteq> c \<Longrightarrow> trim_right_char c (b @ s) = b @ s"
  by (cases s rule: rev_cases) (auto simp: trim_right_char_def)

lemma direct_post:
  assumes "p \<noteq> []" "last p \<noteq> CHR ''/''"
  shows "post_json (direct_net base a) ctx (base @ p) body expected dec z w =
    (case api_handler a ''POST'' p p (Inr body) (rw_net w) of
       (resp, s') \<Rightarrow>
         (if ap_status resp \<noteq> expected then Inl (UnexpectedStatus (itoa (ap_status resp)) (trim_space []))
          else (case dec of None \<Rightarrow> Inr z | Some f \<Rightarrow> map_sum AnswerError id (decode_first f (api_answer resp))),
          w\<lparr>rw_net := s'\<rparr>))"
proof -
  have u: "trim_right_char CHR ''/'' (base @ p) = base @ p" by (rule trim_right_char_end [OF assms])
  show ?thesis
    unfolding post_json_def Let_def u
    by (simp add: direct_net_def api_answer_def split: prod.splits option.splits)
qed

lemma canonical_names [simp]:
  "ep_service (canonical_endpoint ep) = ep_service ep" "ep_instance (canonical_endpoint ep) = ep_instance ep"
  "ep_address (canonical_endpoint ep) = ep_address ep"
  by (simp_all add: canonical_endpoint_def)

section \<open>Properties\<close>

text \<open>
  C6: the registrar keeps to its lease. Whatever the network answers, after any number of steps of
  \<open>Run\<close> its calls are a registration first, heartbeats only for the lease of the latest successful
  registration, a new registration only in place of the old lease, and a deregistration, if any, for
  the lease it held, as the last call of all; while it holds a lease in its loop, that lease is the
  one last granted, and if it returns from there it has deregistered it.
\<close>

theorem registrar_disciplined:
  assumes "reg_run net ctx tie cfg n w = Inr (p, w')" "rw_log w = []"
  shows "(\<exists>s. log_state_of (rw_log w') = Some s \<and> phase_log p s) \<and>
    (\<forall>l start tick w''. p = Holding l start tick \<and> reg_step net ctx tie cfg (p, w') = (Returned, w'') \<longrightarrow>
       log_state_of (rw_log w'') = Some Gone)"
proof -
  have "reg_inv (Registering, w)" using assms(2) by (simp add: reg_inv_def log_state_of_def)
  from reg_steps_inv [OF this] have "reg_inv (p, w')"
    using assms(1) by (auto simp: reg_run_def split: option.splits) metis
  then show ?thesis by (auto simp: reg_inv_def intro: holding_returns_gone)
qed

text \<open>
  C32: \<open>Run\<close> ends. Once its context is done and provided that calls return and fail under a context
  that is done, a registrar with a valid configuration returns after finitely many steps, and never
  while its context is still live: a failing registry alone does not make it give up.
\<close>

theorem registrar_returns:
  assumes "net_timely net" "reg_validate cfg = None"
  shows "(done_at ctx = Some c \<longrightarrow> (\<exists>n w'. reg_run net ctx tie cfg n w = Inr (Returned, w'))) \<and>
    (\<forall>n w'. reg_run net ctx tie cfg n w = Inr (Returned, w') \<longrightarrow> ctx_err ctx (rw_now w') \<noteq> None)"
proof (intro conjI impI allI)
  assume "done_at ctx = Some c"
  from reg_steps_return [OF assms(1) this, of tie cfg "(Registering, w)"]
  show "\<exists>n w'. reg_run net ctx tie cfg n w = Inr (Returned, w')"
    using assms(2) by (auto simp: reg_run_def) (metis prod.collapse)
next
  fix n w'
  have step: "ctx_err ctx (rw_now v') \<noteq> None" if "reg_step net ctx tie cfg (p, v) = (Returned, v')" "p \<noteq> Returned" for p v v'
    using that registering_step [OF assms(1)] holding_step [OF assms(1)] waiting_step by (cases p) fastforce+
  have "(reg_step net ctx tie cfg ^^ n) (Registering, w) = (Returned, w') \<Longrightarrow> ctx_err ctx (rw_now w') \<noteq> None" for w'
  proof (induction n arbitrary: w')
    case (Suc n)
    obtain p v where pv: "(reg_step net ctx tie cfg ^^ n) (Registering, w) = (p, v)" by fastforce
    show ?case
    proof (cases "p = Returned")
      case True
      with Suc pv show ?thesis by simp
    next
      case False
      with Suc.prems pv step [of p v w'] show ?thesis by simp
    qed
  qed simp
  then show "reg_run net ctx tie cfg n w = Inr (Returned, w') \<Longrightarrow> ctx_err ctx (rw_now w') \<noteq> None"
    using assms(2) by (simp add: reg_run_def)
qed

text \<open>
  Heartbeat timing. With a valid configuration the heartbeat interval is at least one second,
  three of them fit in a TTL of three seconds or more, and the first heartbeat comes before the lease
  of \<open>ttl_seconds\<close> runs out exactly when the TTL is two seconds or more.
\<close>

theorem heartbeat_interval_bounds:
  assumes "reg_validate cfg = None"
  shows "second \<le> heartbeat_interval cfg \<and> (3 * second \<le> rc_ttl cfg \<longrightarrow> 3 * heartbeat_interval cfg \<le> rc_ttl cfg) \<and>
    (heartbeat_interval cfg < go_div (rc_ttl cfg) second * second \<longleftrightarrow> 2 * second \<le> rc_ttl cfg)"
proof -
  have t: "second \<le> rc_ttl cfg" using assms by (auto simp: reg_validate_def split: if_splits)
  then have d: "go_div (rc_ttl cfg) second = rc_ttl cfg div second" "go_div (rc_ttl cfg) 3 = rc_ttl cfg div 3"
    by (simp_all add: go_div_nonneg)
  have i: "heartbeat_interval cfg = (if rc_ttl cfg div 3 < second then second else rc_ttl cfg div 3)"
    by (simp add: heartbeat_interval_def Let_def d)
  let ?n = "rc_ttl cfg"
  have two: "2 * second \<le> ?n div second * second" if "2 * second \<le> ?n"
    using zdiv_mono1 [OF that, of second] by simp
  have one: "?n div second * second = second" if "?n < 2 * second"
  proof -
    have "?n div second = 1" using that t by (intro int_div_pos_eq [where r = "?n - second"]) simp_all
    then show ?thesis by simp
  qed
  have low: "?n - second < ?n div second * second"
  proof -
    have "?n mod second < second" by (rule pos_mod_bound) simp
    with div_mult_mod_eq [of ?n second] show ?thesis by linarith
  qed
  have three: "3 * (?n div 3) \<le> ?n" by simp
  have small: "?n div 3 < second \<longleftrightarrow> ?n < 3 * second"
    using div_mult_mod_eq [of ?n 3] pos_mod_bound [of 3 ?n] pos_mod_sign [of 3 ?n] by linarith
  show ?thesis
  proof (cases "?n < 3 * second")
    case True
    then have "heartbeat_interval cfg = second" by (simp only: i small if_True)
    moreover have "second < ?n div second * second \<longleftrightarrow> 2 * second \<le> ?n"
      using two one by (cases "?n < 2 * second") auto
    ultimately show ?thesis using True by (simp only: d) auto
  next
    case False
    then have j: "heartbeat_interval cfg = ?n div 3" by (simp only: i small if_False)
    have "second \<le> ?n div 3" using False small by linarith
    moreover have "?n div 3 < ?n div second * second" using low three False by linarith
    ultimately show ?thesis using j three False by (simp only: d) auto
  qed
qed


section \<open>Concrete runs\<close>

definition sample_reg :: reg_config where
  "sample_reg = \<lparr>rc_url = ''http://cp'', rc_endpoint = ep_a, rc_ttl = 15 * second, rc_retry_delay = 0\<rparr>"

text \<open>A registry that grants lease 7, refuses heartbeats and fails every call under a done context.\<close>

definition sample_reg_net :: "nat timed_net" where
  "sample_reg_net =
     \<lparr>tn_url_error = (\<lambda>_. None),
      tn_do = (\<lambda>ctx rq t n.
        (if ctx_err ctx t \<noteq> None then Inl ''context done''
         else if rq_url rq = ''http://cp/v1/registry/register'' then Inr (answer 201 [JObj [(''lease_id'', JNum ''7'')]])
         else Inr (answer 502 []), t + 1, Suc n))\<rparr>"

definition sample_ctx :: go_context where
  "sample_ctx = \<lparr>done_at = Some (9 * second), done_err = Canceled\<rparr>"

definition sample_world :: "nat reg_world" where
  "sample_world = \<lparr>rw_now = 0, rw_net = 0, rw_log = []\<rparr>"

lemma sample_valid: "reg_validate sample_reg = None"
  by (simp add: reg_validate_def sample_reg_def trim_space_plain plain_def ep_a_def)

lemma sample_interval: "heartbeat_interval sample_reg = 5 * second"
  by (simp add: sample_reg_def heartbeat_interval_def go_div_def)

lemma sample_timely: "net_timely sample_reg_net"
  by (simp add: net_timely_def sample_reg_net_def)

lemma sample_register:
  "reg_register sample_reg_net sample_ctx sample_reg sample_world =
     (Inr 7, \<lparr>rw_now = 1, rw_net = 1, rw_log = [AskRegister 0]\<rparr>)"
proof -
  have u: "trim_right_char CHR ''/'' (''http://cp'' @ ''/v1/registry/register'') = ''http://cp'' @ ''/v1/registry/register''"
    by (rule trim_right_char_end) simp_all
  have "parse_int64 ''7'' = (7, None)"
    by (simp add: parse_int64_def parse_uint_def is_digit_def digit_val_def)
  with u show ?thesis
    by (simp add: reg_register_def post_json_def sample_reg_net_def sample_ctx_def sample_reg_def sample_world_def record_action_def
        ctx_err_def answer_def decode_first_def decode_register_response_def int_field_def named_def folded_request_names)
qed

theorem registrar_disciplined_witness:
  "\<exists>w' s. reg_run sample_reg_net sample_ctx (\<lambda>_. False) sample_reg 1 sample_world = Inr (Holding 7 1 5000000001, w') \<and>
     rw_log w' = [AskRegister 0, GotLease 7] \<and> log_state_of (rw_log w') = Some s \<and> s = Held 7"
proof -
  let ?w = "\<lparr>rw_now = 1, rw_net = 1, rw_log = [AskRegister 0, GotLease 7]\<rparr> :: nat reg_world"
  have run: "reg_run sample_reg_net sample_ctx (\<lambda>_. False) sample_reg 1 sample_world = Inr (Holding 7 1 5000000001, ?w)"
    by (simp add: reg_run_def sample_valid sample_register record_action_def sample_interval)
  from registrar_disciplined [OF run] show ?thesis using run by (auto simp: sample_world_def)
qed

theorem registrar_returns_witness:
  "\<exists>n w'. reg_run sample_reg_net sample_ctx (\<lambda>_. False) sample_reg n sample_world = Inr (Returned, w') \<and>
     ctx_err sample_ctx (rw_now w') \<noteq> None"
proof -
  have "done_at sample_ctx = Some (9 * second)" by (simp add: sample_ctx_def)
  with registrar_returns [OF sample_timely sample_valid, of sample_ctx "9 * second" "\<lambda>_. False" sample_world]
  show ?thesis by blast
qed

theorem heartbeat_interval_bounds_witness:
  "heartbeat_interval sample_reg = 5 * second \<and> 3 * heartbeat_interval sample_reg \<le> rc_ttl sample_reg"
  using heartbeat_interval_bounds [OF sample_valid]
  by (simp add: sample_reg_def heartbeat_interval_def go_div_def)


text \<open>
  Finding: trailing slashes are trimmed from the whole request URL, which never has any, instead of
  the registry URL, so a registry URL that ends in a slash makes every request path start with two
  slashes, which the API's router does not match.
\<close>

theorem trailing_slash_not_trimmed:
  "trim_right_char CHR ''/'' (''http://cp/'' @ ''/v1/registry/register'') = ''http://cp//v1/registry/register'' \<and>
   path_route ''//v1/registry/register'' = None"
proof -
  have "trim_right_char CHR ''/'' (''http://cp/'' @ ''/v1/registry/register'') = ''http://cp/'' @ ''/v1/registry/register''"
    by (rule trim_right_char_end) simp_all
  then show ?thesis by (simp add: has_prefix_def)
qed

text \<open>
  Finding: when etcd answers the keep-alive of a lease that has expired (status 200, no \<open>TTL\<close>), the
  heartbeat of the registrar succeeds: it goes on holding the lost lease and never registers again.
\<close>

theorem lost_lease_unnoticed:
  "fst (reg_heartbeat (direct_net ''http://cp''
      \<lparr>api_store = etcd_store (answer_net 200 [JObj [(''result'', JObj [(''ID'', JStr ''7'')])]]) mini_client sample_parse sample_text,
       api_default_ttl = 15\<rparr>) ctx sample_reg 7 w) = Inr ()"
proof -
  have "in64 7" by (simp add: in64_def)
  note body = decode_lease_bodies(1) [OF this]
  have url: "rc_url sample_reg = ''http://cp''" by (simp add: sample_reg_def)
  have "keep_alive_once (answer_net 200 [JObj [(''result'', JObj [(''ID'', JStr ''7'')])]]) mini_client 7 s = (Inr (), Suc s)" for s
    by (simp add: keep_alive_once_def send_def new_request_def answer_net_def answer_def go_div_def decode_first_def decode_map_def)
  then show ?thesis
    unfolding reg_heartbeat_def url
    by (subst direct_post) (simp_all add: api_handler_def api_heartbeat_def body etcd_store_def etcd_heartbeat_def write_header_def)
qed

end
