(* ===== verification/Mesh_Security.thy ===== *)
theory Mesh_Security
  imports Go_Strings
begin

text \<open>
  \<^verbatim>\<open>internal/meshsecurity/identity.go\<close>: workload identities and the TLS configurations built from
  them. Files, PEM parsing and key pairs are arguments; a certificate is what the code reads of one
  (its URI names and its serial number). \<open>tls_handshake\<close> is what
  \<open>crypto/tls\<close> does with the configurations: it verifies the chain the peer presents against the
  configured roots (\<open>verify_chain\<close>, an argument) and then calls \<open>VerifyConnection\<close>.
\<close>

section \<open>Slash-separated paths\<close>

text \<open>
  \<open>path.Clean\<close>: the elements of a path are pushed on a stack (kept in reverse); empty elements and
  \<open>.\<close> are dropped, \<open>..\<close> takes back the element before it, and at the root it is dropped.
\<close>

fun clean_stack :: "bool \<Rightarrow> string list \<Rightarrow> string list \<Rightarrow> string list" where
  "clean_stack rooted st [] = st"
| "clean_stack rooted st (e # es) =
     (if e = [] \<or> e = ''.'' then clean_stack rooted st es
      else if e = ''..'' then
        (case st of
           [] \<Rightarrow> clean_stack rooted (if rooted then [] else [e]) es
         | t # st' \<Rightarrow> clean_stack rooted (if t = ''..'' then e # st else st') es)
      else clean_stack rooted (e # st) es)"

definition path_clean :: "string \<Rightarrow> string" where
  "path_clean p =
     (let rooted = (p \<noteq> [] \<and> hd p = CHR ''/'');
          body = join_with CHR ''/'' (rev (clean_stack rooted [] (split_on CHR ''/'' p)))
      in if rooted then CHR ''/'' # body else if body = [] then ''.'' else body)"

definition path_join :: "string list \<Rightarrow> string" where
  "path_join es =
     (if list_all (\<lambda>e. e = []) es then [] else path_clean (join_with CHR ''/'' (dropWhile (\<lambda>e. e = []) es)))"

section \<open>Identities\<close>

definition spiffe_id :: "string \<Rightarrow> string \<Rightarrow> string \<Rightarrow> string" where
  "spiffe_id domain namespace svc = ''spiffe://'' @ domain @ path_join [''/ns'', namespace, ''sa'', svc]"

text \<open>A parsed URL, as far as the code reads it, and its text (\<open>URL.String\<close>).\<close>

record uri =
  uri_scheme :: string
  uri_host :: string
  uri_query :: string
  uri_fragment :: string
  uri_text :: string

record certificate =
  cert_uris :: "uri list"
  cert_serial :: string

record connection_state =
  verified_chains :: "certificate list list"
  peer_certificates :: "certificate list"

datatype mesh_error =
    NotVerified | UriCount | InvalidIdentity string | UnparsableIdentity string | RbacDenied string
  | FileError string | NoCertificates string | EmptyChain | KeyPairError string | ParseError string
  | NoPeerCertificate | UnknownAuthority

text \<open>\<open>parse_request_uri\<close> is \<open>url.ParseRequestURI\<close>: the error, if any.\<close>

definition certificate_identity :: "(string \<Rightarrow> string option) \<Rightarrow> certificate \<Rightarrow> mesh_error + string" where
  "certificate_identity parse_request_uri cert =
     (case cert_uris cert of
        [u] \<Rightarrow>
          (if uri_scheme u \<noteq> ''spiffe'' \<or> uri_host u = [] \<or> uri_query u \<noteq> [] \<or> uri_fragment u \<noteq> []
           then Inl (InvalidIdentity (uri_text u))
           else case parse_request_uri (uri_text u) of
                  Some e \<Rightarrow> Inl (UnparsableIdentity e)
                | None \<Rightarrow> Inr (uri_text u))
      | _ \<Rightarrow> Inl UriCount)"

definition peer_identity :: "(string \<Rightarrow> string option) \<Rightarrow> connection_state \<Rightarrow> mesh_error + string" where
  "peer_identity parse_request_uri st =
     (case verified_chains st of
        (leaf # _) # _ \<Rightarrow> certificate_identity parse_request_uri leaf
      | _ \<Rightarrow> Inl NotVerified)"

definition require_identity ::
  "(string \<Rightarrow> string option) \<Rightarrow> (string, unit) gomap \<Rightarrow> connection_state \<Rightarrow> mesh_error option" where
  "require_identity parse_request_uri allowed st =
     (case peer_identity parse_request_uri st of
        Inl e \<Rightarrow> Some e
      | Inr i \<Rightarrow> (case gm_get allowed i of None \<Rightarrow> Some (RbacDenied i) | Some _ \<Rightarrow> None))"

section \<open>TLS configurations\<close>

record identity_files =
  file_ca :: string
  file_cert :: string
  file_key :: string

text \<open>
  The outside world of this package: reading a file, the certificates of a PEM bundle, loading a
  key pair (its chain in raw form) and parsing a raw certificate.
\<close>

record ('pool, 'raw) pki =
  read_file :: "string \<Rightarrow> string + string"
  append_pem :: "string \<Rightarrow> 'pool option"
  load_pair :: "string \<Rightarrow> string \<Rightarrow> string + 'raw list"
  parse_cert :: "'raw \<Rightarrow> string + certificate"
  parse_uri :: "string \<Rightarrow> string option"

datatype client_auth = NoClientCert | RequireAndVerifyClientCert
datatype tls_version = TLS12 | TLS13

record ('pool, 'raw) tls_config =
  min_version :: tls_version
  root_pool :: "'pool"
  client_auth_mode :: client_auth
  server_name :: string
  next_protos :: "string list"
  own_certificate :: "mesh_error + 'raw list"
  verify_connection :: "connection_state \<Rightarrow> mesh_error option"

definition load_ca_pool :: "('pool, 'raw) pki \<Rightarrow> string \<Rightarrow> mesh_error + 'pool" where
  "load_ca_pool env filename =
     (case read_file env filename of
        Inl e \<Rightarrow> Inl (FileError e)
      | Inr bundle \<Rightarrow> (case append_pem env bundle of None \<Rightarrow> Inl (NoCertificates filename) | Some p \<Rightarrow> Inr p))"

text \<open>\<open>GetCertificate\<close> and \<open>GetClientCertificate\<close> load the key pair anew for every handshake.\<close>

definition load_own :: "('pool, 'raw) pki \<Rightarrow> identity_files \<Rightarrow> mesh_error + 'raw list" where
  "load_own env files = map_sum KeyPairError id (load_pair env (file_cert files) (file_key files))"

definition client_tls_config ::
  "('pool, 'raw) pki \<Rightarrow> identity_files \<Rightarrow> string \<Rightarrow> string \<Rightarrow> mesh_error + ('pool, 'raw) tls_config" where
  "client_tls_config env files expected name =
     (case load_ca_pool env (file_ca files) of
        Inl e \<Rightarrow> Inl e
      | Inr roots \<Rightarrow>
          Inr \<lparr>min_version = TLS13, root_pool = roots, client_auth_mode = NoClientCert, server_name = name,
               next_protos = [], own_certificate = load_own env files,
               verify_connection = require_identity (parse_uri env) [(expected, ())]\<rparr>)"

definition identity_set :: "string list \<Rightarrow> (string, unit) gomap" where
  "identity_set is = fold (\<lambda>i m. gm_set i () m) is []"

definition server_tls_config ::
  "('pool, 'raw) pki \<Rightarrow> identity_files \<Rightarrow> string list \<Rightarrow> mesh_error + ('pool, 'raw) tls_config" where
  "server_tls_config env files allowed =
     (case load_ca_pool env (file_ca files) of
        Inl e \<Rightarrow> Inl e
      | Inr roots \<Rightarrow>
          Inr \<lparr>min_version = TLS13, root_pool = roots, client_auth_mode = RequireAndVerifyClientCert, server_name = [],
               next_protos = [''h2''], own_certificate = load_own env files,
               verify_connection = require_identity (parse_uri env) (identity_set allowed)\<rparr>)"

definition current_identity :: "('pool, 'raw) pki \<Rightarrow> identity_files \<Rightarrow> mesh_error + string \<times> string" where
  "current_identity env files =
     (case load_pair env (file_cert files) (file_key files) of
        Inl e \<Rightarrow> Inl (KeyPairError e)
      | Inr [] \<Rightarrow> Inl EmptyChain
      | Inr (raw # _) \<Rightarrow>
          (case parse_cert env raw of
             Inl e \<Rightarrow> Inl (ParseError e)
           | Inr leaf \<Rightarrow>
               (case certificate_identity (parse_uri env) leaf of
                  Inl e \<Rightarrow> Inl e
                | Inr i \<Rightarrow> Inr (i, cert_serial leaf))))"

section \<open>Handshakes\<close>

text \<open>
  What \<open>crypto/tls\<close> does with such a configuration when a peer presents a chain: it loads its own
  certificate, verifies the peer's chain against the roots (a client also checks the server's
  name, which \<open>verify_chain\<close> is given) and then calls \<open>VerifyConnection\<close>.
\<close>

definition tls_handshake ::
  "('pool \<Rightarrow> string \<Rightarrow> certificate list \<Rightarrow> certificate list list) \<Rightarrow> ('pool, 'raw) tls_config \<Rightarrow> certificate list \<Rightarrow>
     mesh_error + connection_state" where
  "tls_handshake verify_chain cfg presented =
     (case own_certificate cfg of
        Inl e \<Rightarrow> Inl e
      | Inr _ \<Rightarrow>
          if presented = [] then Inl NoPeerCertificate
          else (case verify_chain (root_pool cfg) (server_name cfg) presented of
                  [] \<Rightarrow> Inl UnknownAuthority
                | cs \<Rightarrow>
                    (let st = \<lparr>verified_chains = cs, peer_certificates = presented\<rparr>
                     in case verify_connection cfg st of Some e \<Rightarrow> Inl e | None \<Rightarrow> Inr st)))"

section \<open>Lemmas\<close>

definition plain_name :: "string \<Rightarrow> bool" where
  "plain_name s \<longleftrightarrow> s \<noteq> [] \<and> CHR ''/'' \<notin> set s \<and> s \<noteq> ''.'' \<and> s \<noteq> ''..''"

lemma clean_stack_plain: "list_all plain_name es \<Longrightarrow> clean_stack rooted st es = rev es @ st"
  by (induction es arbitrary: st) (auto simp: plain_name_def)

lemma split_plain: "list_all plain_name es \<Longrightarrow> es \<noteq> [] \<Longrightarrow> split_on CHR ''/'' (join_with CHR ''/'' es) = es"
  by (rule split_join) (auto simp: list_all_iff plain_name_def)

lemma path_clean_plain:
  assumes "list_all plain_name es" "es \<noteq> []"
  shows "path_clean (CHR ''/'' # join_with CHR ''/'' es) = CHR ''/'' # join_with CHR ''/'' es"
  using clean_stack_plain [OF assms(1), of True "[]"] split_plain [OF assms] by (simp add: path_clean_def)

lemma spiffe_id_plain:
  assumes "plain_name ns" "plain_name svc"
  shows "spiffe_id td ns svc = ''spiffe://'' @ td @ ''/ns/'' @ ns @ ''/sa/'' @ svc"
proof -
  have "list_all plain_name [''ns'', ns, ''sa'', svc]" using assms by (simp add: plain_name_def)
  from path_clean_plain [OF this] show ?thesis by (simp add: spiffe_id_def path_join_def)
qed

lemma spiffe_id_inj:
  assumes "plain_name ns" "plain_name svc" "plain_name ns'" "plain_name svc'"
    and "CHR ''/'' \<notin> set td" "CHR ''/'' \<notin> set td'" "spiffe_id td ns svc = spiffe_id td' ns' svc'"
  shows "td = td' \<and> ns = ns' \<and> svc = svc'"
proof -
  have "td @ CHR ''/'' # ''ns/'' @ ns @ ''/sa/'' @ svc = td' @ CHR ''/'' # ''ns/'' @ ns' @ ''/sa/'' @ svc'"
    using assms(7) by (simp add: spiffe_id_plain [OF assms(1,2)] spiffe_id_plain [OF assms(3,4)])
  from append_sep_inj [OF this assms(5,6)] have td: "td = td'"
    and "ns @ CHR ''/'' # ''sa/'' @ svc = ns' @ CHR ''/'' # ''sa/'' @ svc'" by simp_all
  from append_sep_inj [OF this(2)] assms(1,3) have "ns = ns'" "svc = svc'" by (simp_all add: plain_name_def)
  with td show ?thesis by simp
qed

lemma identity_set_get: "gm_get (identity_set is) i = (if i \<in> set is then Some () else None)"
proof -
  have "gm_get (fold (\<lambda>i m. gm_set i () m) is m) i = (if i \<in> set is then Some () else gm_get m i)" for m
    by (induction "is" arbitrary: m) auto
  then show ?thesis by (simp add: identity_set_def)
qed

lemma certificate_identity_iff:
  "certificate_identity pu cert = Inr i \<longleftrightarrow>
     (\<exists>u. cert_uris cert = [u] \<and> uri_scheme u = ''spiffe'' \<and> uri_host u \<noteq> [] \<and> uri_query u = [] \<and> uri_fragment u = [] \<and>
        pu (uri_text u) = None \<and> i = uri_text u)"
  by (auto simp: certificate_identity_def split: list.splits option.splits)

lemma peer_identity_iff:
  "peer_identity pu st = Inr i \<longleftrightarrow>
     (\<exists>leaf rest cs. verified_chains st = (leaf # rest) # cs \<and> certificate_identity pu leaf = Inr i)"
  by (auto simp: peer_identity_def split: list.splits)

lemma require_identity_iff:
  "require_identity pu allowed st = None \<longleftrightarrow> (\<exists>i. peer_identity pu st = Inr i \<and> gm_get allowed i \<noteq> None)"
  by (auto simp: require_identity_def split: sum.splits option.splits)

lemma tls_handshake_iff:
  "tls_handshake vc cfg presented = Inr st \<longleftrightarrow>
     (\<exists>own. own_certificate cfg = Inr own) \<and> presented \<noteq> [] \<and> verified_chains st = vc (root_pool cfg) (server_name cfg) presented \<and>
     verified_chains st \<noteq> [] \<and> peer_certificates st = presented \<and> verify_connection cfg st = None"
  by (cases st) (auto simp: tls_handshake_def Let_def split: sum.splits list.splits option.splits)

lemma server_tls_configD:
  "server_tls_config env files allowed = Inr cfg \<Longrightarrow>
     client_auth_mode cfg = RequireAndVerifyClientCert \<and> min_version cfg = TLS13 \<and>
     load_ca_pool env (file_ca files) = Inr (root_pool cfg) \<and>
     verify_connection cfg = require_identity (parse_uri env) (identity_set allowed)"
  by (auto simp: server_tls_config_def split: sum.splits)

lemma client_tls_configD:
  "client_tls_config env files expected name = Inr cfg \<Longrightarrow>
     server_name cfg = name \<and> min_version cfg = TLS13 \<and> load_ca_pool env (file_ca files) = Inr (root_pool cfg) \<and>
     verify_connection cfg = require_identity (parse_uri env) [(expected, ())]"
  by (auto simp: client_tls_config_def split: sum.splits)

lemma server_accepts:
  assumes "server_tls_config env files allowed = Inr cfg"
  shows "(\<exists>st. tls_handshake vc cfg presented = Inr st) \<longleftrightarrow>
    (\<exists>own. load_own env files = Inr own) \<and> presented \<noteq> [] \<and>
    (\<exists>leaf rest cs i. vc (root_pool cfg) [] presented = (leaf # rest) # cs \<and>
       certificate_identity (parse_uri env) leaf = Inr i \<and> i \<in> set allowed)"
proof -
  have c: "own_certificate cfg = load_own env files" "server_name cfg = []"
    "verify_connection cfg = require_identity (parse_uri env) (identity_set allowed)"
    using assms by (auto simp: server_tls_config_def split: sum.splits)
  let ?st = "\<lparr>verified_chains = vc (root_pool cfg) [] presented, peer_certificates = presented\<rparr>"
  have "tls_handshake vc cfg presented = Inr st \<Longrightarrow> st = ?st" for st
    by (cases st) (simp add: tls_handshake_iff c)
  then have "(\<exists>st. tls_handshake vc cfg presented = Inr st) \<longleftrightarrow> tls_handshake vc cfg presented = Inr ?st" by metis
  also have "\<dots> \<longleftrightarrow> (\<exists>own. load_own env files = Inr own) \<and> presented \<noteq> [] \<and> vc (root_pool cfg) [] presented \<noteq> [] \<and>
      (\<exists>i. peer_identity (parse_uri env) ?st = Inr i \<and> i \<in> set allowed)"
    by (auto simp: tls_handshake_iff c require_identity_iff identity_set_get split: if_splits)
  also have "\<dots> \<longleftrightarrow> (\<exists>own. load_own env files = Inr own) \<and> presented \<noteq> [] \<and>
      (\<exists>leaf rest cs i. vc (root_pool cfg) [] presented = (leaf # rest) # cs \<and>
         certificate_identity (parse_uri env) leaf = Inr i \<and> i \<in> set allowed)"
    by (auto simp: peer_identity_iff)
  finally show ?thesis .
qed

section \<open>Properties\<close>

text \<open>
  The ingress accepts exactly the authorised peers. A handshake under the server configuration
  succeeds if and only if the workload's own key pair loads, the peer presents a chain that verifies
  against the mesh roots, and its leaf names exactly one well-formed SPIFFE identity that is allowed.
\<close>

theorem server_accepts_exactly:
  assumes "server_tls_config env files allowed = Inr cfg"
  shows "(\<exists>st. tls_handshake vc cfg presented = Inr st) \<longleftrightarrow>
    (\<exists>own. load_own env files = Inr own) \<and> presented \<noteq> [] \<and>
    (\<exists>leaf rest cs i. vc (root_pool cfg) [] presented = (leaf # rest) # cs \<and>
       certificate_identity (parse_uri env) leaf = Inr i \<and> i \<in> set allowed)"
  using assms by (rule server_accepts)

definition sample_pki :: "(unit, certificate) pki" where
  "sample_pki = \<lparr>read_file = (\<lambda>_. Inr ''pem''), append_pem = (\<lambda>_. Some ()), load_pair = (\<lambda>_ _. Inr []),
     parse_cert = Inr, parse_uri = (\<lambda>_. None)\<rparr>"

definition sample_cert :: "string \<Rightarrow> certificate" where
  "sample_cert svc = \<lparr>cert_uris = [\<lparr>uri_scheme = ''spiffe'', uri_host = ''m'', uri_query = [], uri_fragment = [],
     uri_text = spiffe_id ''m'' ''d'' svc\<rparr>], cert_serial = ''1''\<rparr>"

definition sample_files :: identity_files where
  "sample_files = \<lparr>file_ca = ''ca'', file_cert = ''c'', file_key = ''k''\<rparr>"

definition sample_server_tls :: "(unit, certificate) tls_config" where
  "sample_server_tls = \<lparr>min_version = TLS13, root_pool = (), client_auth_mode = RequireAndVerifyClientCert, server_name = [],
     next_protos = [''h2''], own_certificate = Inr [],
     verify_connection = require_identity (parse_uri sample_pki) (identity_set [spiffe_id ''m'' ''d'' ''client''])\<rparr>"

lemma sample_server_config:
  "server_tls_config sample_pki sample_files [spiffe_id ''m'' ''d'' ''client''] = Inr sample_server_tls"
  by (simp add: server_tls_config_def load_ca_pool_def load_own_def sample_pki_def sample_server_tls_def)

theorem server_accepts_exactly_witness:
  "(\<exists>st. tls_handshake (\<lambda>_ _ c. [c]) sample_server_tls [sample_cert ''client''] = Inr st)"
  using server_accepts_exactly [OF sample_server_config, of "\<lambda>_ _ c. [c]" "[sample_cert ''client'']"]
  by (simp add: sample_cert_def certificate_identity_def sample_pki_def load_own_def)

text \<open>
  C34: services are kept apart. With plain names (no slash, not empty, not a dot element), a peer
  whose valid certificate names a service that is not authorised is denied by the ingress, and a
  client that dials a service is denied when the server's certificate names another one.
\<close>

theorem services_kept_apart:
  assumes "plain_name ns" "plain_name svc" "\<And>s. s \<in> set services \<Longrightarrow> plain_name s" "CHR ''/'' \<notin> set td"
    and "server_tls_config env files (map (spiffe_id td ns) services) = Inr scfg" "load_own env files = Inr own"
    and "vc (root_pool scfg) [] presented = (leaf # rest) # cs" "presented \<noteq> []"
    and "certificate_identity (parse_uri env) leaf = Inr (spiffe_id td ns svc)" "svc \<notin> set services"
    and "plain_name target" "client_tls_config env files (spiffe_id td ns target) name = Inr ccfg"
    and "vc (root_pool ccfg) name presented = (leaf # rest) # cs" "target \<noteq> svc"
  shows "tls_handshake vc scfg presented = Inl (RbacDenied (spiffe_id td ns svc)) \<and>
    tls_handshake vc ccfg presented = Inl (RbacDenied (spiffe_id td ns svc))"
proof -
  have inj: "spiffe_id td ns s = spiffe_id td ns svc \<Longrightarrow> s = svc" if "plain_name s" for s
    using spiffe_id_inj [OF assms(1) that assms(1,2,4,4)] by blast
  have "spiffe_id td ns svc \<notin> set (map (spiffe_id td ns) services)" using inj assms(3,10) by force
  moreover have "spiffe_id td ns target \<noteq> spiffe_id td ns svc" using inj [OF assms(11)] assms(14) by blast
  moreover have "own_certificate scfg = Inr own" "server_name scfg = []" "own_certificate ccfg = Inr own" "server_name ccfg = name"
    using assms(5,6,12) by (auto simp: server_tls_config_def client_tls_config_def split: sum.splits)
  ultimately show ?thesis
    using assms(7-9,13) server_tls_configD [OF assms(5)] client_tls_configD [OF assms(12)]
    by (simp add: tls_handshake_def require_identity_def peer_identity_def identity_set_get gm_get_Cons)
qed

definition sample_client_tls :: "(unit, certificate) tls_config" where
  "sample_client_tls = \<lparr>min_version = TLS13, root_pool = (), client_auth_mode = NoClientCert, server_name = ''echo.mesh'',
     next_protos = [], own_certificate = Inr [],
     verify_connection = require_identity (parse_uri sample_pki) [(spiffe_id ''m'' ''d'' ''echo'', ())]\<rparr>"

theorem services_kept_apart_witness:
  "tls_handshake (\<lambda>_ _ c. [c]) sample_server_tls [sample_cert ''intruder''] = Inl (RbacDenied (spiffe_id ''m'' ''d'' ''intruder''))"
proof -
  have "tls_handshake (\<lambda>_ _ c. [c]) sample_server_tls [sample_cert ''intruder''] = Inl (RbacDenied (spiffe_id ''m'' ''d'' ''intruder'')) \<and>
      tls_handshake (\<lambda>_ _ c. [c]) sample_client_tls [sample_cert ''intruder''] = Inl (RbacDenied (spiffe_id ''m'' ''d'' ''intruder''))"
    by (rule services_kept_apart [where services = "[''client'']" and target = "''echo''" and env = sample_pki and files = sample_files
          and name = "''echo.mesh''" and leaf = "sample_cert ''intruder''" and rest = "[]" and cs = "[]" and own = "[]"])
      (auto simp: plain_name_def sample_server_config [unfolded sample_pki_def] sample_cert_def certificate_identity_def sample_pki_def load_own_def
        client_tls_config_def load_ca_pool_def sample_client_tls_def)
  then show ?thesis by blast
qed

text \<open>
  Finding: \<open>path.Join\<close> cleans the joined path, so names with dot elements or slashes take the identity
  of another service.
\<close>

theorem spiffe_id_alias: "spiffe_id td ''default'' ''x/../echo'' = spiffe_id td ''default'' ''echo''"
  by (simp add: spiffe_id_def path_join_def path_clean_def)

end
