(* ===== verification/Tcp_Relay.thy ===== *)
theory Tcp_Relay
  imports Mesh_Security Retry
begin

text \<open>
  The two TCP relays: the mTLS ingress of \<^verbatim>\<open>internal/meshsecurity/relay.go\<close> and the transparent proxy
  of \<^verbatim>\<open>internal/transparentproxy/server.go\<close>. What sockets do (accepting, dialing, the bytes a copy
  moves and the error that ends it) is an argument. A handler is the list of actions it takes on its
  connection, in order; the two copies run concurrently, and a schedule merges their actions.
  Deferred closes run last, in reverse order.
\<close>

unbundle bit_operations_syntax

section \<open>Actions\<close>

datatype relay_error =
    HandshakeRejected mesh_error | HandshakeFailed string | PeerError mesh_error | DialBackend string string
  | CopyError string | ResolveError string | DialDestination string string | NotTcp string

datatype relay_action =
    Reported relay_error
  | Announced string string
  | Dialed string int bool
  | Copied bool string
  | CloseWrite bool
  | ClosedUp
  | ClosedDown

text \<open>What \<open>io.Copy\<close> does: the bytes moved, and the error with whether it is \<open>net.ErrClosed\<close>.\<close>

record copy_result =
  cp_bytes :: string
  cp_error :: "(string \<times> bool) option"

fun merge_by :: "bool list \<Rightarrow> 'a list \<Rightarrow> 'a list \<Rightarrow> 'a list" where
  "merge_by s [] ys = ys"
| "merge_by s xs [] = xs"
| "merge_by [] (x # xs) (y # ys) = x # merge_by [] xs (y # ys)"
| "merge_by (True # s) (x # xs) (y # ys) = x # merge_by s xs (y # ys)"
| "merge_by (False # s) (x # xs) (y # ys) = y # merge_by s (x # xs) ys"

section \<open>The mTLS ingress\<close>

record ('pool, 'raw) relay_config =
  rl_tls :: "('pool, 'raw) tls_config option"
  rl_backend :: string
  rl_dial_timeout :: int
  rl_on_connection :: bool
  rl_on_error :: bool

definition report_relay_error :: "('pool, 'raw) relay_config \<Rightarrow> relay_error \<Rightarrow> relay_action list" where
  "report_relay_error cfg e = (if rl_on_error cfg then [Reported e] else [])"

text \<open>\<open>relayCopy\<close>: \<open>up\<close> is the direction; \<open>half\<close> tells whether the destination can close its write side.\<close>

definition relay_copy :: "('pool, 'raw) relay_config \<Rightarrow> bool \<Rightarrow> bool \<Rightarrow> copy_result \<Rightarrow> relay_action list" where
  "relay_copy cfg up half c =
     Copied up (cp_bytes c)
     # (case cp_error c of
          Some (e, False) \<Rightarrow> report_relay_error cfg (CopyError e)
        | _ \<Rightarrow> [])
     @ (if half then [CloseWrite up] else [])"

record 'pool relay_env =
  re_io_error :: "string option"
  re_presented :: "certificate list"
  re_dial :: "string option"
  re_up :: copy_result
  re_down :: copy_result
  re_half_up :: bool
  re_half_down :: bool
  re_schedule :: "bool list"

definition relay_connection ::
  "('pool \<Rightarrow> string \<Rightarrow> certificate list \<Rightarrow> certificate list list) \<Rightarrow> (string \<Rightarrow> string option) \<Rightarrow> ('pool, 'raw) relay_config \<Rightarrow>
     ('pool, 'raw) tls_config \<Rightarrow> int \<Rightarrow> 'pool relay_env \<Rightarrow> relay_action list" where
  "relay_connection vc parse cfg tls timeout e =
     (case re_io_error e of
        Some err \<Rightarrow> report_relay_error cfg (HandshakeFailed err)
      | None \<Rightarrow>
          (case tls_handshake vc tls (re_presented e) of
             Inl err \<Rightarrow> report_relay_error cfg (HandshakeRejected err)
           | Inr st \<Rightarrow>
               (case peer_identity parse st of
                  Inl err \<Rightarrow> report_relay_error cfg (PeerError err)
                | Inr identity \<Rightarrow>
                    (let serial = (case peer_certificates st of [] \<Rightarrow> [] | c # _ \<Rightarrow> cert_serial c)
                     in (if rl_on_connection cfg then [Announced identity serial] else [])
                        @ (case re_dial e of
                             Some err \<Rightarrow>
                               Dialed (rl_backend cfg) timeout False
                               # report_relay_error cfg (DialBackend (rl_backend cfg) err)
                           | None \<Rightarrow>
                               Dialed (rl_backend cfg) timeout True
                               # merge_by (re_schedule e) (relay_copy cfg True (re_half_up e) (re_up e))
                                   (relay_copy cfg False (re_half_down e) (re_down e))
                               @ [ClosedUp])))))
     @ [ClosedDown]"

text \<open>
  The accept loop: an error after the context is done, or of a closed listener, ends it quietly.
  The script may end while the loop still waits.
\<close>

datatype 'c accept = AcceptConn 'c | AcceptError string bool int

datatype serve_result = ServeNil | ServeError string | StillServing

fun accept_loop :: "go_context \<Rightarrow> 'c accept list \<Rightarrow> serve_result \<times> 'c list" where
  "accept_loop ctx [] = (StillServing, [])"
| "accept_loop ctx (AcceptError err is_closed t # as) =
     (if ctx_err ctx t \<noteq> None \<or> is_closed then (ServeNil, []) else (ServeError err, []))"
| "accept_loop ctx (AcceptConn c # as) = (case accept_loop ctx as of (r, cs) \<Rightarrow> (r, c # cs))"

definition serve_relay ::
  "('pool \<Rightarrow> string \<Rightarrow> certificate list \<Rightarrow> certificate list list) \<Rightarrow> (string \<Rightarrow> string option) \<Rightarrow> go_context \<Rightarrow> ('pool, 'raw) relay_config \<Rightarrow>
     'pool relay_env accept list \<Rightarrow> serve_result \<times> relay_action list list" where
  "serve_relay vc parse ctx cfg accepts =
     (case rl_tls cfg of
        None \<Rightarrow> (ServeError ''meshsecurity: TLS config and backend are required'', [])
      | Some tls \<Rightarrow>
          if rl_backend cfg = [] then (ServeError ''meshsecurity: TLS config and backend are required'', [])
          else (let timeout = (if rl_dial_timeout cfg \<le> 0 then 3 * second else rl_dial_timeout cfg);
                    (r, conns) = accept_loop ctx accepts
                in (r, map (relay_connection vc parse cfg tls timeout) conns)))"

section \<open>The transparent proxy\<close>

record tproxy_config =
  tp_dial_timeout :: int
  tp_on_connection :: bool
  tp_on_error :: bool

definition tp_report :: "tproxy_config \<Rightarrow> relay_error \<Rightarrow> relay_action list" where
  "tp_report cfg e = (if tp_on_error cfg then [Reported e] else [])"

definition copy_half :: "tproxy_config \<Rightarrow> bool \<Rightarrow> copy_result \<Rightarrow> relay_action list" where
  "copy_half cfg up c =
     Copied up (cp_bytes c)
     # (case cp_error c of Some (e, False) \<Rightarrow> tp_report cfg (CopyError e) | _ \<Rightarrow> [])
     @ [CloseWrite up]"

text \<open>A connection with what resolving its destination and dialing it give; the dial may return a connection that is not TCP.\<close>

record tproxy_env =
  te_is_tcp :: bool
  te_resolve :: "string + string"
  te_dial :: "string + bool"
  te_up :: copy_result
  te_down :: copy_result
  te_schedule :: "bool list"

definition tp_handle :: "tproxy_config \<Rightarrow> int \<Rightarrow> tproxy_env \<Rightarrow> relay_action list" where
  "tp_handle cfg timeout e =
     (case te_resolve e of
        Inl err \<Rightarrow> tp_report cfg (ResolveError err)
      | Inr target \<Rightarrow>
          (case te_dial e of
             Inl err \<Rightarrow> Dialed target timeout False # tp_report cfg (DialDestination target err)
           | Inr is_tcp \<Rightarrow>
               Dialed target timeout True
               # (if \<not> is_tcp then ClosedUp # tp_report cfg (NotTcp target)
                  else (if tp_on_connection cfg then [Announced target []] else [])
                       @ merge_by (te_schedule e) (copy_half cfg True (te_up e)) (copy_half cfg False (te_down e))
                       @ [ClosedUp])))
     @ [ClosedDown]"

definition tp_serve :: "go_context \<Rightarrow> tproxy_config \<Rightarrow> tproxy_env accept list \<Rightarrow> serve_result \<times> relay_action list list" where
  "tp_serve ctx cfg accepts =
     (let timeout = (if tp_dial_timeout cfg \<le> 0 then 3 * second else tp_dial_timeout cfg);
          (r, conns) = accept_loop ctx accepts
      in (case r of ServeError e \<Rightarrow> ServeError (''accept transparent connection: '' @ e) | _ \<Rightarrow> r,
          map (\<lambda>e. if te_is_tcp e then tp_handle cfg timeout e else [ClosedDown]) conns))"

section \<open>The original destination\<close>

text \<open>
  \<open>OriginalDestination\<close>: the socket address that \<open>getsockopt(SO_ORIGINAL_DST)\<close> fills in, after the two
  errors of the system calls. The port is stored in network byte order.
\<close>

record sockaddr =
  sa_family :: int
  sa_port :: "8 word \<times> 8 word"
  sa_addr :: "8 word \<times> 8 word \<times> 8 word \<times> 8 word"

definition af_inet :: int where
  "af_inet = 2"

datatype dst_error = SyscallConnError string | ControlError string | SockoptError int | AddressFamily int

definition be_uint16 :: "8 word \<times> 8 word \<Rightarrow> 16 word" where
  "be_uint16 p = (case p of (hi, lo) \<Rightarrow> push_bit 8 (ucast hi) OR ucast lo)"

definition dotted :: "8 word \<times> 8 word \<times> 8 word \<times> 8 word \<Rightarrow> string" where
  "dotted a = (case a of (a, b, c, d) \<Rightarrow>
     join_with CHR ''.'' [nat_to_dec (unat a), nat_to_dec (unat b), nat_to_dec (unat c), nat_to_dec (unat d)])"

definition original_destination ::
  "string option \<Rightarrow> string option \<Rightarrow> int \<Rightarrow> sockaddr \<Rightarrow> dst_error + string" where
  "original_destination conn_err control_err errno sa =
     (case conn_err of
        Some e \<Rightarrow> Inl (SyscallConnError e)
      | None \<Rightarrow>
          (case control_err of
             Some e \<Rightarrow> Inl (ControlError e)
           | None \<Rightarrow>
               if errno \<noteq> 0 then Inl (SockoptError errno)
               else if sa_family sa \<noteq> af_inet then Inl (AddressFamily (sa_family sa))
               else Inr (dotted (sa_addr sa) @ '':'' @ nat_to_dec (unat (be_uint16 (sa_port sa))))))"

section \<open>The discipline of a handler\<close>

text \<open>
  The life of a relayed connection: at most one upstream connection, bytes only while it is open,
  and both sides closed exactly once, the upstream first.
\<close>

datatype relay_state = Fresh | UpOpen | UpClosed | Done

fun relay_next :: "relay_state \<Rightarrow> relay_action \<Rightarrow> relay_state option" where
  "relay_next Fresh (Dialed a t ok) = Some (if ok then UpOpen else Fresh)"
| "relay_next UpOpen (Copied up bs) = Some UpOpen"
| "relay_next UpOpen (CloseWrite up) = Some UpOpen"
| "relay_next UpOpen ClosedUp = Some UpClosed"
| "relay_next Fresh ClosedDown = Some Done"
| "relay_next UpClosed ClosedDown = Some Done"
| "relay_next Done _ = None"
| "relay_next s (Reported e) = Some s"
| "relay_next s (Announced i n) = Some s"
| "relay_next _ _ = None"

fun relay_run :: "relay_state \<Rightarrow> relay_action list \<Rightarrow> relay_state option" where
  "relay_run s [] = Some s"
| "relay_run s (a # as) = (case relay_next s a of None \<Rightarrow> None | Some s' \<Rightarrow> relay_run s' as)"

lemma relay_run_append: "relay_run s (xs @ ys) = (case relay_run s xs of None \<Rightarrow> None | Some s' \<Rightarrow> relay_run s' ys)"
  by (induction s xs rule: relay_run.induct) (auto split: option.splits)

lemma done_once: "relay_run s as = Some Done \<Longrightarrow> s \<noteq> Done \<Longrightarrow> count_list as ClosedDown = 1"
proof (induction s as rule: relay_run.induct)
  case (2 s a as)
  then obtain s' where s': "relay_next s a = Some s'" "relay_run s' as = Some Done" by (auto split: option.splits)
  show ?case
  proof (cases "s' = Done")
    case True
    with s' have "a = ClosedDown" by (cases s; cases a) (auto split: if_splits)
    moreover have "as = []" using s'(2) True by (cases as) auto
    ultimately show ?thesis by simp
  next
    case False
    with s'(1) 2(3) have "a \<noteq> ClosedDown" by (cases s) auto
    with 2(1) [OF s'(1,2) False] show ?thesis by simp
  qed
qed simp

text \<open>
  The contract of a connection handler, and what a server that runs one handler per accepted
  connection gets from it: every connection it was given is closed, once.
\<close>

locale connection_handler =
  fixes handler :: "'env \<Rightarrow> relay_action list"
  assumes disciplined: "relay_run Fresh (handler e) = Some Done"
begin

lemma closed_once: "count_list (handler e) ClosedDown = 1"
  using done_once [OF disciplined] by simp

lemma all_closed: "count_list (concat (map handler es)) ClosedDown = length es"
  by (induction es) (simp_all add: closed_once)

lemma closed_last: "handler e \<noteq> [] \<and> last (handler e) = ClosedDown"
proof (cases "handler e" rule: rev_cases)
  case Nil
  with disciplined [of e] show ?thesis by simp
next
  case (snoc as a)
  then obtain s where "relay_next s a = Some Done"
    using disciplined [of e] by (auto simp: relay_run_append split: option.splits)
  then have "a = ClosedDown" by (cases s; cases a) (auto split: if_splits)
  with snoc show ?thesis by simp
qed

end

lemma merge_by_open:
  "list_all (\<lambda>a. relay_next UpOpen a = Some UpOpen) xs \<Longrightarrow> list_all (\<lambda>a. relay_next UpOpen a = Some UpOpen) ys \<Longrightarrow>
     list_all (\<lambda>a. relay_next UpOpen a = Some UpOpen) (merge_by s xs ys)"
  by (induction s xs ys rule: merge_by.induct) auto

lemma relay_run_open: "list_all (\<lambda>a. relay_next UpOpen a = Some UpOpen) xs \<Longrightarrow> relay_run UpOpen (xs @ ys) = relay_run UpOpen ys"
  by (induction xs) auto

lemma relay_copy_open: "list_all (\<lambda>a. relay_next UpOpen a = Some UpOpen) (relay_copy cfg up half c)"
  by (auto simp: relay_copy_def report_relay_error_def split: option.split prod.split bool.split)

lemma copy_half_open: "list_all (\<lambda>a. relay_next UpOpen a = Some UpOpen) (copy_half cfg up c)"
  by (auto simp: copy_half_def tp_report_def split: option.split prod.split bool.split)

lemma relay_connection_disciplined: "relay_run Fresh (relay_connection vc parse cfg tls timeout e) = Some Done"
proof -
  have m: "relay_run UpOpen (merge_by s (relay_copy cfg True h (re_up e)) (relay_copy cfg False h' (re_down e)) @ ys) = relay_run UpOpen ys"
    for s h h' ys by (intro relay_run_open merge_by_open relay_copy_open)
  show ?thesis
    by (auto simp: relay_connection_def report_relay_error_def m Let_def split: option.split sum.split)
qed

lemma tp_handle_disciplined: "relay_run Fresh (tp_handle cfg timeout e) = Some Done"
proof -
  have m: "relay_run UpOpen (merge_by s (copy_half cfg True (te_up e)) (copy_half cfg False (te_down e)) @ ys) = relay_run UpOpen ys"
    for s ys by (intro relay_run_open merge_by_open copy_half_open)
  show ?thesis
    by (auto simp: tp_handle_def tp_report_def m split: option.split sum.split)
qed

interpretation ingress: connection_handler "relay_connection vc parse cfg tls timeout"
  for vc parse cfg tls timeout
  by unfold_locales (rule relay_connection_disciplined)

interpretation tproxy: connection_handler "\<lambda>e. if te_is_tcp e then tp_handle cfg timeout e else [ClosedDown]"
  for cfg timeout
  by unfold_locales (simp add: tp_handle_disciplined)

lemma set_merge_by: "set (merge_by s xs ys) = set xs \<union> set ys"
  by (induction s xs ys rule: merge_by.induct) auto

lemma accept_loop_mem: "c \<in> set (snd (accept_loop ctx as)) \<Longrightarrow> AcceptConn c \<in> set as"
  by (induction ctx as rule: accept_loop.induct) (auto split: if_splits prod.splits)

lemma relay_connection_dials:
  assumes "Dialed a t ok \<in> set (relay_connection vc parse cfg tls timeout e)"
  shows "a = rl_backend cfg \<and> t = timeout \<and> (\<exists>st. tls_handshake vc tls (re_presented e) = Inr st)"
proof -
  have copy: "Dialed a t ok \<notin> set (relay_copy cfg up h c)" for up h c
    by (auto simp: relay_copy_def report_relay_error_def split: option.splits prod.splits bool.splits)
  show ?thesis
    using assms copy
    by (auto simp: relay_connection_def report_relay_error_def set_merge_by Let_def split: option.splits sum.splits if_splits)
qed

lemma be_uint16_inj: "be_uint16 (h, l) = be_uint16 (h', l') \<Longrightarrow> h = h' \<and> l = l'"
proof -
  have lo: "l = ucast (be_uint16 (h, l))" for h l
    by (rule bit_word_eqI) (auto simp: be_uint16_def bit_simps)
  have hi: "h = ucast (drop_bit 8 (be_uint16 (h, l)))" for h l
    by (rule bit_word_eqI) (auto simp: be_uint16_def bit_simps dest: bit_imp_le_length)
  assume "be_uint16 (h, l) = be_uint16 (h', l')"
  then show ?thesis using lo [of l h] lo [of l' h'] hi [of h l] hi [of h' l'] by metis
qed

lemma nat_to_dec_inj: "nat_to_dec m = nat_to_dec n \<Longrightarrow> m = n"
  by (metis dec_val_nat_to_dec nat_int)

lemma nat_to_dec_free: "\<not> is_digit c \<Longrightarrow> c \<notin> set (nat_to_dec n)"
  using nat_to_dec_digits [of n] by (auto simp: list_all_iff)

lemma dotted_inj: "dotted a = dotted b \<Longrightarrow> a = b"
proof -
  assume eq: "dotted a = dotted b"
  have sp: "split_on CHR ''.'' (dotted (x, y, z, u)) =
      [nat_to_dec (unat x), nat_to_dec (unat y), nat_to_dec (unat z), nat_to_dec (unat u)]" for x y z u
    unfolding dotted_def prod.case by (rule split_join) (auto simp: nat_to_dec_free is_digit_def)
  obtain x y z u x' y' z' u' where ab: "a = (x, y, z, u)" "b = (x', y', z', u')" by (metis surj_pair)
  with eq sp [of x y z u] sp [of x' y' z' u'] show ?thesis
    by (auto dest!: nat_to_dec_inj simp: word_unat_eq_iff)
qed

lemma dotted_no_colon: "CHR '':'' \<notin> set (dotted a)"
  by (cases a) (auto simp: dotted_def nat_to_dec_free is_digit_def)

section \<open>Properties\<close>


definition sample_relay :: "(unit, certificate) relay_config" where
  "sample_relay = \<lparr>rl_tls = Some sample_server_tls, rl_backend = ''127.0.0.1:8080'', rl_dial_timeout = 0,
     rl_on_connection = True, rl_on_error = True\<rparr>"

definition sample_copy :: "string \<Rightarrow> copy_result" where
  "sample_copy bs = \<lparr>cp_bytes = bs, cp_error = None\<rparr>"

definition sample_peer :: "string \<Rightarrow> unit relay_env" where
  "sample_peer svc = \<lparr>re_io_error = None, re_presented = [sample_cert svc], re_dial = None, re_up = sample_copy ''ping'',
     re_down = sample_copy ''pong'', re_half_up = True, re_half_down = True, re_schedule = [True, False]\<rparr>"




text \<open>
  The text of an original destination names it: two IPv4 socket addresses give the same target
  only if address and port are equal, with the port read in network byte order.
\<close>

theorem original_destination_faithful:
  assumes "original_destination None None 0 sa = Inr s" "original_destination None None 0 sb = Inr s"
  shows "sa_addr sa = sa_addr sb \<and> sa_port sa = sa_port sb \<and> sa_family sa = sa_family sb"
proof -
  have s: "dotted (sa_addr sa) @ CHR '':'' # nat_to_dec (unat (be_uint16 (sa_port sa))) =
      dotted (sa_addr sb) @ CHR '':'' # nat_to_dec (unat (be_uint16 (sa_port sb)))"
    and f: "sa_family sa = af_inet" "sa_family sb = af_inet"
    using assms by (auto simp: original_destination_def split: if_splits)
  from append_sep_inj [OF s dotted_no_colon dotted_no_colon]
  have "dotted (sa_addr sa) = dotted (sa_addr sb)" "nat_to_dec (unat (be_uint16 (sa_port sa))) = nat_to_dec (unat (be_uint16 (sa_port sb)))"
    by auto
  then have "sa_addr sa = sa_addr sb" "be_uint16 (sa_port sa) = be_uint16 (sa_port sb)"
    using dotted_inj nat_to_dec_inj by (auto simp: word_unat_eq_iff)
  with f be_uint16_inj show ?thesis by (metis prod.collapse)
qed

theorem original_destination_faithful_witness:
  "let sa = \<lparr>sa_family = 2, sa_port = (31, 144), sa_addr = (10, 0, 0, 7)\<rparr>
   in \<exists>s. original_destination None None 0 sa = Inr s \<and>
      (\<forall>p. original_destination None None 0 (sa\<lparr>sa_port := p\<rparr>) = Inr s \<longleftrightarrow> p = (31, 144))"
proof -
  let ?sa = "\<lparr>sa_family = 2, sa_port = (31, 144), sa_addr = (10, 0, 0, 7)\<rparr>"
  obtain s where s: "original_destination None None 0 ?sa = Inr s" by (simp add: original_destination_def af_inet_def)
  have "original_destination None None 0 (?sa\<lparr>sa_port := p\<rparr>) = Inr s \<longleftrightarrow> p = (31, 144)" for p
    using original_destination_faithful [OF s, of "?sa\<lparr>sa_port := p\<rparr>"] s by auto
  with s show ?thesis by (auto simp: Let_def)
qed

end
