(* ===== verification/Sidecar.thy ===== *)
theory Sidecar
  imports Resolver Grpc_Pool Registration Tcp_Relay
begin

text \<open>
  \<^verbatim>\<open>cmd/sidecar/main.go\<close>: how the sidecar command turns its flags into the components of the other
  theories, the exit code of every failure on the way, and its readiness endpoint. The record
  \<open>sidecar_flags\<close> has the parsed flags that influence behaviour; \<open>sidecar_env\<close> has what the outside
  decides: the tracer, the listeners and the files. Goroutines are represented by what they are given;
  how they end, the metrics listener and the shutdown are in \<open>Sidecar_Run\<close>. Logging is left out.
\<close>

section \<open>Lists of status codes and services\<close>

text \<open>
  \<open>strings.ToLower\<close>, exact as far as the comparison with ASCII names goes: ASCII letters, and the
  two other runes whose lower case is an ASCII letter (the Kelvin sign and the dotted capital I).
\<close>

function lower_name :: "string \<Rightarrow> string" where
  "lower_name s =
     (case s of [] \<Rightarrow> []
      | c # cs \<Rightarrow>
          if has_prefix s (bytes [226, 132, 170]) then CHR ''k'' # lower_name (drop 3 s)
          else if has_prefix s (bytes [196, 176]) then CHR ''i'' # lower_name (drop 2 s)
          else (if 65 \<le> (of_char c :: nat) \<and> (of_char c :: nat) \<le> 90 then char_of (of_char c + 32 :: nat) else c) # lower_name cs)"
  by pat_completeness auto
termination by (relation "measure length") auto

declare lower_name.simps [simp del]

definition code_of_name :: "string \<Rightarrow> grpc_code option" where
  "code_of_name name =
     (if name = ''unavailable'' then Some CodeUnavailable
      else if name = ''resource_exhausted'' \<or> name = ''resourceexhausted'' then Some CodeResourceExhausted
      else if name = ''internal'' then Some CodeInternal
      else if name = ''aborted'' then Some CodeAborted
      else if name = ''deadline_exceeded'' \<or> name = ''deadlineexceeded'' then Some CodeDeadlineExceeded
      else None)"

fun parse_codes_loop :: "string list \<Rightarrow> (grpc_code, bool) gomap \<Rightarrow> string + (grpc_code, bool) gomap" where
  "parse_codes_loop [] m = Inr m"
| "parse_codes_loop (raw # raws) m =
     (let name = lower_name (trim_space raw)
      in if name = [] then parse_codes_loop raws m
         else case code_of_name name of
                None \<Rightarrow> Inl raw
              | Some c \<Rightarrow> parse_codes_loop raws (gm_set c True m))"

definition parse_grpc_codes :: "string \<Rightarrow> string + (grpc_code, bool) gomap" where
  "parse_grpc_codes text = parse_codes_loop (split_on CHR '','' text) []"

definition parse_retryable_codes :: "string \<Rightarrow> string + (grpc_code, bool) gomap" where
  "parse_retryable_codes text = parse_grpc_codes text"

definition split_services :: "string \<Rightarrow> string list" where
  "split_services text = filter (\<lambda>s. s \<noteq> []) (map trim_space (split_on CHR '','' text))"

section \<open>Readiness\<close>

text \<open>The two readiness flags are set by the callbacks of the control stream and of the registrar.\<close>

fun first_undiscovered :: "cache \<Rightarrow> string list \<Rightarrow> string option" where
  "first_undiscovered c [] = None"
| "first_undiscovered c (s # ss) = (if list_cache c s = [] then Some s else first_undiscovered c ss)"

definition readyz :: "bool \<Rightarrow> bool \<Rightarrow> bool \<Rightarrow> string list \<Rightarrow> cache \<Rightarrow> int \<times> string" where
  "readyz control_ready registration_configured registration_ready required c =
     (if \<not> control_ready \<or> (registration_configured \<and> \<not> registration_ready) then (503, ''not ready'' @ [CHR 0x0A])
      else case first_undiscovered c required of
             Some s \<Rightarrow> (503, ''required service not discovered: '' @ s @ [CHR 0x0A])
           | None \<Rightarrow> (200, ''ready'' @ [CHR 0x0A]))"

section \<open>Starting\<close>

record sidecar_flags =
  fl_listen :: string
  fl_sidecar_id :: string
  fl_lb :: string
  fl_use_pool :: bool
  fl_max_conns :: int
  fl_max_idle :: int
  fl_keepalive :: int
  fl_keepalive_timeout :: int
  fl_request_timeout :: int
  fl_max_attempts :: int
  fl_backoff :: int
  fl_max_backoff :: int
  fl_retry_codes :: string
  fl_budget :: budget_config
  fl_circuit :: bool
  fl_circuit_cfg :: cb_config
  fl_circuit_codes :: string
  fl_limit :: bool
  fl_limit_rule :: rate_limit_rule
  fl_service_limits :: string
  fl_route_limits :: string
  fl_registry :: string
  fl_register_service :: string
  fl_register_instance :: string
  fl_register_address :: string
  fl_register_ttl :: int
  fl_readiness :: string
  fl_transparent :: string
  fl_mtls_listen :: string
  fl_mtls_backend :: string
  fl_mtls_files :: identity_files
  fl_trust_domain :: string
  fl_namespace :: string
  fl_allowed_peers :: string

record ('pool, 'raw) sidecar_env =
  en_tracer_ok :: bool
  en_listen :: "string \<Rightarrow> string \<Rightarrow> bool"
  en_pki :: "('pool, 'raw) pki"
  en_now :: int
  en_tick :: "nat \<Rightarrow> int"
  en_mesh_text :: "mesh_error \<Rightarrow> string"

text \<open>The sidecar's identity and its registration: the instance defaults to the sidecar, which defaults to its address.\<close>

definition sidecar_id :: "sidecar_flags \<Rightarrow> string" where
  "sidecar_id fl = (if fl_sidecar_id fl = [] then fl_listen fl else fl_sidecar_id fl)"

definition registration_config :: "sidecar_flags \<Rightarrow> reg_config option" where
  "registration_config fl =
     (if fl_registry fl \<noteq> [] \<or> fl_register_service fl \<noteq> [] \<or> fl_register_address fl \<noteq> []
      then Some \<lparr>rc_url = fl_registry fl,
                 rc_endpoint = \<lparr>ep_service = fl_register_service fl,
                   ep_instance = (if fl_register_instance fl = [] then sidecar_id fl else fl_register_instance fl),
                   ep_address = fl_register_address fl, ep_metadata = None\<rparr>,
                 rc_ttl = fl_register_ttl fl, rc_retry_delay = 0\<rparr>
      else None)"

definition security_configured :: "sidecar_flags \<Rightarrow> bool" where
  "security_configured fl \<longleftrightarrow> fl_mtls_listen fl \<noteq> [] \<or> fl_mtls_backend fl \<noteq> [] \<or> file_ca (fl_mtls_files fl) \<noteq> [] \<or>
     file_cert (fl_mtls_files fl) \<noteq> [] \<or> file_key (fl_mtls_files fl) \<noteq> []"

definition allowed_identities :: "sidecar_flags \<Rightarrow> string list" where
  "allowed_identities fl = map (spiffe_id (fl_trust_domain fl) (fl_namespace fl)) (split_services (fl_allowed_peers fl))"

definition start_ingress ::
  "sidecar_flags \<Rightarrow> ('pool, 'raw) sidecar_env \<Rightarrow> int + ('pool, 'raw) tls_config option" where
  "start_ingress fl en =
     (if \<not> security_configured fl then Inr None
      else if \<not> fl_use_pool fl then Inl 2
      else (case server_tls_config (en_pki en) (fl_mtls_files fl) (allowed_identities fl) of
              Inl e \<Rightarrow> Inl 2
            | Inr tls \<Rightarrow>
                (case current_identity (en_pki en) (fl_mtls_files fl) of
                   Inl e \<Rightarrow> Inl 2
                 | Inr _ \<Rightarrow> if en_listen en ''tcp'' (fl_mtls_listen fl) then Inr (Some tls) else Inl 1)))"

definition algorithm_of :: "string \<Rightarrow> algorithm" where
  "algorithm_of s =
     (if s = ''round_robin'' then RoundRobin
      else if s = ''weighted_round_robin'' then WeightedRoundRobin
      else if s = ''least_connections'' then LeastConnections else OtherAlgorithm s)"

definition start_limiter :: "sidecar_flags \<Rightarrow> ('pool, 'raw) sidecar_env \<Rightarrow> int + local_rate_limiter option" where
  "start_limiter fl en =
     (if \<not> fl_limit fl then Inr None
      else (case parse_named_rate_rules (fl_service_limits fl) False of
              Inl e \<Rightarrow> Inl 2
            | Inr svc_rules \<Rightarrow>
                (case parse_named_rate_rules (fl_route_limits fl) True of
                   Inl e \<Rightarrow> Inl 2
                 | Inr route_rules \<Rightarrow>
                     (let dflt = (if f_lt (Fin 0) (rate_per_second (fl_limit_rule fl)) then Some (fl_limit_rule fl) else None)
                      in case new_local_rate_limiter dflt svc_rules route_rules (en_tick en) of
                           Inl e \<Rightarrow> Inl 2
                         | Inr l \<Rightarrow> Inr (Some l)))))"

text \<open>The credentials of an upstream: a client configuration that expects the identity of the target service.\<close>

definition credentials_for_service ::
  "sidecar_flags \<Rightarrow> ('pool, 'raw) sidecar_env \<Rightarrow> string \<Rightarrow> go_error + ('pool, 'raw) tls_config" where
  "credentials_for_service fl en service =
     (case client_tls_config (en_pki en) (fl_mtls_files fl)
             (spiffe_id (fl_trust_domain fl) (fl_namespace fl) service) (service @ ''.mesh'') of
        Inl e \<Rightarrow> Inl (PlainErr (en_mesh_text en e))
      | Inr tls \<Rightarrow> Inr tls)"

definition pool_settings ::
  "sidecar_flags \<Rightarrow> ('pool, 'raw) sidecar_env \<Rightarrow> ('pool, 'raw) tls_config grpc_pool_config" where
  "pool_settings fl en =
     \<lparr>gp_max = fl_max_conns fl, gp_idle = fl_max_idle fl, gp_reap = 0, gp_keepalive = fl_keepalive fl,
      gp_keepalive_timeout = fl_keepalive_timeout fl,
      gp_credentials = (if security_configured fl then Some (credentials_for_service fl en) else None)\<rparr>"

record ('pool, 'raw) sidecar =
  sd_id :: string
  sd_registration :: "reg_config option"
  sd_readiness :: "string list"
  sd_transparent :: bool
  sd_ingress :: "('pool, 'raw) relay_config option"
  sd_resolver :: resolver
  sd_server :: server_config
  sd_budget :: budget
  sd_breakers :: "breaker_set option"
  sd_limiter :: "local_rate_limiter option"
  sd_pool :: "(('pool, 'raw) tls_config grpc_pool_config \<times> conn_pool) option"

definition server_settings ::
  "sidecar_flags \<Rightarrow> (grpc_code, bool) gomap \<Rightarrow> (grpc_code, bool) gomap \<Rightarrow> server_config" where
  "server_settings fl retry failure =
     \<lparr>sc_timeout = fl_request_timeout fl,
      sc_retry = \<lparr>pol_attempts = fl_max_attempts fl, pol_initial = fl_backoff fl, pol_max = fl_max_backoff fl, pol_codes = Some retry\<rparr>,
      sc_failure_codes = Some failure, sc_metrics = True\<rparr>"

text \<open>The main function up to serving: the exit code of the first failure, or the running sidecar.\<close>

definition sidecar_start :: "sidecar_flags \<Rightarrow> ('pool, 'raw) sidecar_env \<Rightarrow> int + ('pool, 'raw) sidecar" where
  "sidecar_start fl en =
     (if \<not> en_tracer_ok en then Inl 2
      else if \<not> en_listen en ''tcp'' (fl_listen fl) then Inl 1
      else if fl_transparent fl \<noteq> [] \<and> \<not> en_listen en ''tcp4'' (fl_transparent fl) then Inl 1
      else (case start_ingress fl en of
              Inl code \<Rightarrow> Inl code
            | Inr ingress \<Rightarrow>
                (case new_resolver False (algorithm_of (fl_lb fl)) of
                   Inl e \<Rightarrow> Inl 2
                 | Inr res \<Rightarrow>
                     (case parse_retryable_codes (fl_retry_codes fl) of
                        Inl e \<Rightarrow> Inl 2
                      | Inr retry \<Rightarrow>
                          (case parse_grpc_codes (fl_circuit_codes fl) of
                             Inl e \<Rightarrow> Inl 2
                           | Inr failure \<Rightarrow>
                               (case start_limiter fl en of
                                  Inl code \<Rightarrow> Inl code
                                | Inr limiter \<Rightarrow>
                                    (case (if fl_use_pool fl
                                           then (case new_grpc_pool (pool_settings fl en) of
                                                   Inl e \<Rightarrow> Inl 2 | Inr p \<Rightarrow> Inr (Some (pool_settings fl en, p)))
                                           else Inr None) of
                                       Inl code \<Rightarrow> Inl code
                                     | Inr pool \<Rightarrow>
                                         Inr \<lparr>sd_id = sidecar_id fl, sd_registration = registration_config fl,
                                              sd_readiness = split_services (fl_readiness fl),
                                              sd_transparent = (fl_transparent fl \<noteq> []),
                                              sd_ingress = map_option (\<lambda>tls. \<lparr>rl_tls = Some tls, rl_backend = fl_mtls_backend fl,
                                                rl_dial_timeout = 0, rl_on_connection = True, rl_on_error = True\<rparr>) ingress,
                                              sd_resolver = res,
                                              sd_server = normalize_server_config (server_settings fl retry failure),
                                              sd_budget = new_budget (fl_budget fl) (en_now en),
                                              sd_breakers = (if fl_circuit fl then Some (new_breaker_set (fl_circuit_cfg fl)) else None),
                                              sd_limiter = limiter, sd_pool = pool\<rparr>)))))))"

section \<open>Lemmas\<close>

definition code_piece :: "string \<Rightarrow> grpc_code option" where
  "code_piece raw = code_of_name (lower_name (trim_space raw))"

definition blank_piece :: "string \<Rightarrow> bool" where
  "blank_piece raw \<longleftrightarrow> lower_name (trim_space raw) = []"

lemma code_piece_blank: "blank_piece raw \<Longrightarrow> code_piece raw = None"
  by (simp add: blank_piece_def code_piece_def code_of_name_def)

lemma parse_codes_loop_cons:
  "parse_codes_loop (raw # raws) m =
     (if blank_piece raw then parse_codes_loop raws m
      else case code_piece raw of None \<Rightarrow> Inl raw | Some c \<Rightarrow> parse_codes_loop raws (gm_set c True m))"
  by (simp add: blank_piece_def code_piece_def Let_def)

lemma parse_codes_loop_result:
  "parse_codes_loop raws m = Inr m' \<Longrightarrow>
     (\<forall>raw \<in> set raws. blank_piece raw \<or> code_piece raw \<noteq> None) \<and>
     (\<forall>c. gm_get m' c = (if Some c \<in> code_piece ` set raws then Some True else gm_get m c))"
proof (induction raws arbitrary: m)
  case (Cons raw raws)
  show ?case
  proof (cases "blank_piece raw")
    case True
    with Cons.IH [of m] Cons.prems code_piece_blank [OF True] show ?thesis
      by (auto simp: parse_codes_loop_cons simp del: parse_codes_loop.simps)
  next
    case False
    with Cons.prems obtain d where d: "code_piece raw = Some d" "parse_codes_loop raws (gm_set d True m) = Inr m'"
      by (auto simp: parse_codes_loop_cons simp del: parse_codes_loop.simps split: option.splits)
    from Cons.IH [OF d(2)] d(1) show ?thesis by auto
  qed
qed simp

lemma parse_codes_loop_error:
  "parse_codes_loop raws m = Inl raw \<Longrightarrow> raw \<in> set raws \<and> \<not> blank_piece raw \<and> code_piece raw = None"
proof (induction raws arbitrary: m)
  case (Cons r raws)
  then show ?case
    by (auto simp: parse_codes_loop_cons simp del: parse_codes_loop.simps split: option.splits if_splits)
qed simp

lemma first_undiscovered_None: "first_undiscovered c ss = None \<longleftrightarrow> (\<forall>s \<in> set ss. list_cache c s \<noteq> [])"
  by (induction ss) auto

section \<open>Properties\<close>

text \<open>
  The code lists of the command line. A list is accepted exactly when each of its comma-separated
  pieces is blank or names a known code, in any case and with spaces around it; the resulting set
  holds precisely the named codes, and a rejected list is reported by one of its unknown pieces.
\<close>

theorem parse_codes_exact:
  "case parse_grpc_codes text of
     Inr m \<Rightarrow> (\<forall>raw \<in> set (split_on CHR '','' text). blank_piece raw \<or> code_piece raw \<noteq> None) \<and>
       (\<forall>c. code_set (Some m) c \<longleftrightarrow> Some c \<in> code_piece ` set (split_on CHR '','' text))
   | Inl raw \<Rightarrow> raw \<in> set (split_on CHR '','' text) \<and> \<not> blank_piece raw \<and> code_piece raw = None"
proof (cases "parse_grpc_codes text")
  case (Inl raw)
  with parse_codes_loop_error [of "split_on CHR '','' text" "[]" raw] show ?thesis by (simp add: parse_grpc_codes_def)
next
  case (Inr m)
  with parse_codes_loop_result [of "split_on CHR '','' text" "[]" m] show ?thesis
    by (simp add: parse_grpc_codes_def code_set_def)
qed

lemma lower_name_ascii:
  "list_all (\<lambda>c. (of_char c :: nat) < 128) s \<Longrightarrow> lower_name s = to_lower s"
proof (induction s)
  case Nil
  then show ?case by (subst lower_name.simps) (simp add: to_lower_def)
next
  case (Cons c s)
  have "\<not> has_prefix (c # s) (bytes [226, 132, 170])" "\<not> has_prefix (c # s) (bytes [196, 176])"
    using Cons.prems by (auto simp: has_prefix_def bytes_def)
  with Cons show ?case by (subst lower_name.simps) (simp add: to_lower_def)
qed

theorem parse_codes_exact_witness:
  "\<exists>m. parse_grpc_codes ''Internal,,ABORTED'' = Inr m \<and> code_set (Some m) CodeInternal \<and> code_set (Some m) CodeAborted \<and>
     \<not> code_set (Some m) CodeUnavailable"
proof -
  have pieces: "set (split_on CHR '','' ''Internal,,ABORTED'') = {''Internal'', [], ''ABORTED''}" by auto
  have c: "code_piece ''Internal'' = Some CodeInternal" "code_piece ''ABORTED'' = Some CodeAborted" "blank_piece []" "code_piece [] = None"
    by (simp_all add: code_piece_def blank_piece_def trim_space_plain plain_def lower_name_ascii to_lower_def code_of_name_def
        char_of_def bit_0)
  show ?thesis
    using parse_codes_exact [of "''Internal,,ABORTED''"] unfolding pieces
    by (cases "parse_grpc_codes ''Internal,,ABORTED''") (auto simp: c)
qed

text \<open>
  The sidecar is ready exactly when a snapshot of the control plane has arrived, its own service
  is registered if it is to be, and every required service has an instance in the discovery cache.
\<close>

theorem readyz_exact:
  assumes "cache_wf c"
  shows "fst (readyz control_ready reg_configured reg_ready required c) = 200 \<longleftrightarrow>
    control_ready \<and> (reg_configured \<longrightarrow> reg_ready) \<and> (\<forall>s \<in> set required. \<exists>i ep. abs_cache c (s, i) = Some ep)"
proof -
  have "list_cache c s \<noteq> [] \<longleftrightarrow> (\<exists>i ep. abs_cache c (s, i) = Some ep)" for s
  proof -
    have "list_cache c s \<noteq> [] \<longleftrightarrow> (\<exists>ep. ep \<in> set (list_cache c s))" by (cases "list_cache c s") auto
    also have "\<dots> \<longleftrightarrow> (\<exists>i ep. abs_cache c (s, i) = Some ep)"
      using set_list_cache [OF assms] abs_cache_instance [OF assms] by metis
    finally show ?thesis .
  qed
  then have "first_undiscovered c required = None \<longleftrightarrow> (\<forall>s \<in> set required. \<exists>i ep. abs_cache c (s, i) = Some ep)"
    by (simp add: first_undiscovered_None)
  then show ?thesis by (auto simp: readyz_def split: option.splits)
qed

theorem readyz_exact_witness:
  "fst (readyz True False False [''echo''] (replace_cache \<lparr>sn_endpoints = [ep_a], sn_revision = 3\<rparr> new_cache)) = 200"
proof -
  let ?c = "replace_cache \<lparr>sn_endpoints = [ep_a], sn_revision = 3\<rparr> new_cache"
  have wf: "cache_wf ?c" by (simp add: replace_cache_wf new_cache_wf)
  have "abs_cache ?c (''echo'', ''a'') \<noteq> None"
    by (simp add: abs_cache_def lookup_services_def replace_cache_def new_cache_def build_services_def put_endpoint_def ep_a_def)
  then show ?thesis using readyz_exact [OF wf, of True False False "[''echo'']"] by auto
qed


definition sample_flags :: sidecar_flags where
  "sample_flags =
     \<lparr>fl_listen = '':18080'', fl_sidecar_id = [], fl_lb = ''round_robin'', fl_use_pool = True, fl_max_conns = 2, fl_max_idle = 30 * second,
      fl_keepalive = 0, fl_keepalive_timeout = 0, fl_request_timeout = 2 * second, fl_max_attempts = 3, fl_backoff = 20 * millisecond,
      fl_max_backoff = 200 * millisecond, fl_retry_codes = [], fl_budget = \<lparr>bc_rate = Fin 100, bc_burst = 100\<rparr>, fl_circuit = False,
      fl_circuit_cfg = \<lparr>window_size = 20, minimum_requests = 10, failure_threshold = Fin (1 / 2), cooldown = 5 * second, half_open_max = 2\<rparr>,
      fl_circuit_codes = [], fl_limit = False, fl_limit_rule = \<lparr>rate_per_second = Fin 0, burst = 1000\<rparr>, fl_service_limits = [],
      fl_route_limits = [], fl_registry = [], fl_register_service = [], fl_register_instance = [], fl_register_address = [],
      fl_register_ttl = 15 * second, fl_readiness = [], fl_transparent = [], fl_mtls_listen = '':18443'', fl_mtls_backend = ''127.0.0.1:8080'',
      fl_mtls_files = sample_files, fl_trust_domain = ''m'', fl_namespace = ''d'', fl_allowed_peers = ''client''\<rparr>"

definition sample_env :: "(unit, certificate) sidecar_env" where
  "sample_env =
     \<lparr>en_tracer_ok = True, en_listen = (\<lambda>_ _. True), en_pki = sample_pki\<lparr>load_pair := (\<lambda>_ _. Inr [sample_cert ''echo''])\<rparr>,
      en_now = 0, en_tick = (\<lambda>_. 0), en_mesh_text = (\<lambda>_. [])\<rparr>"

lemma sample_start: "\<exists>sd. sidecar_start sample_flags sample_env = Inr sd"
proof -
  have ing: "\<exists>tls. start_ingress sample_flags sample_env = Inr tls"
    by (simp add: start_ingress_def security_configured_def sample_flags_def sample_env_def server_tls_config_def load_ca_pool_def
        sample_pki_def current_identity_def sample_cert_def certificate_identity_def)
  have codes: "parse_grpc_codes [] = Inr []"
    by (simp add: parse_grpc_codes_def) (subst lower_name.simps, simp)
  show ?thesis
    using ing
    by (auto simp: sidecar_start_def sample_flags_def sample_env_def new_resolver_def new_picker_def algorithm_of_def codes
        parse_retryable_codes_def start_limiter_def new_grpc_pool_def new_pool_def)
qed


end
