(* ===== verification/Control_Stream.thy ===== *)
theory Control_Stream
  imports Discovery Retry
begin

text \<open>
  \<^verbatim>\<open>internal/controlstream\<close>: the stream by which a control plane publishes endpoint snapshots
  (\<^verbatim>\<open>server.go\<close>) and a sidecar applies them to its discovery cache and reconnects (\<^verbatim>\<open>client.go\<close>).
  What gRPC does (dialing, opening the stream, the messages received, the result of each send) is an
  argument of the functions: a script. Metadata maps are copied on both sides, as the code does.
  Logging is not modelled.
\<close>

section \<open>Messages\<close>

record proto_endpoint =
  pe_service :: string
  pe_instance :: string
  pe_address :: string
  pe_metadata :: "(string, string) gomap"

datatype control_payload =
    Register string "64 word" | Heartbeat string | Ack "64 word"
  | EndpointUpdate "proto_endpoint list" bool
  | RouteUpdate | NoPayload

record control_message =
  cm_version :: "64 word"
  cm_payload :: control_payload

section \<open>The server\<close>

definition wire_endpoint :: "endpoint \<Rightarrow> proto_endpoint" where
  "wire_endpoint ep =
     \<lparr>pe_service = ep_service ep, pe_instance = ep_instance ep, pe_address = ep_address ep,
      pe_metadata = gm_copy (case ep_metadata ep of None \<Rightarrow> [] | Some md \<Rightarrow> md)\<rparr>"

definition snapshot_message :: "snapshot \<Rightarrow> control_message" where
  "snapshot_message s =
     \<lparr>cm_version = word_of_int (sn_revision s), cm_payload = EndpointUpdate (map wire_endpoint (sn_endpoints s)) True\<rparr>"

text \<open>
  \<open>sendSnapshot\<close> on what \<open>FullSync\<close> returns and what \<open>Send\<close> returns: the messages that reach the
  stream and the result.
\<close>

definition send_snapshot :: "'e + snapshot \<Rightarrow> 'e option \<Rightarrow> control_message list \<times> ('e + int)" where
  "send_snapshot fs serr =
     (case fs of
        Inl e \<Rightarrow> ([], Inl e)
      | Inr s \<Rightarrow> (case serr of Some e \<Rightarrow> ([], Inl e) | None \<Rightarrow> ([snapshot_message s], Inr (sn_revision s))))"

text \<open>The callback of \<open>Watch\<close>, once for each event delivered; an error cancels the stream.\<close>

fun watch_handler :: "(('e + snapshot) \<times> 'e option) list \<Rightarrow> control_message list \<times> bool" where
  "watch_handler [] = ([], False)"
| "watch_handler ((fs, serr) # evs) =
     (let (ms, r) = send_snapshot fs serr; (ms', cancelled) = watch_handler evs
      in (ms @ ms', (case r of Inl _ \<Rightarrow> True | Inr _ \<Rightarrow> cancelled)))"

text \<open>
  \<open>Stream\<close>: nothing is sent before the sidecar registers. The result is the messages sent, the revision
  from which the watch was started, the error returned and whether the context was cancelled by a
  failed send.
\<close>

definition server_stream ::
  "control_message list \<Rightarrow> ('e + snapshot) \<times> 'e option \<Rightarrow> (('e + snapshot) \<times> 'e option) list \<Rightarrow> 'e option \<Rightarrow>
   control_message list \<times> int option \<times> 'e option \<times> bool" where
  "server_stream received initial evs watch_err =
     (if \<not> list_ex (\<lambda>m. case cm_payload m of Register _ _ \<Rightarrow> True | _ \<Rightarrow> False) received then ([], None, None, False)
      else case send_snapshot (fst initial) (snd initial) of
             (ms, Inl e) \<Rightarrow> (ms, None, Some e, False)
           | (ms, Inr r) \<Rightarrow>
               (let (ms', cancelled) = watch_handler evs in (ms @ ms', Some (wrap64 (r + 1)), watch_err, cancelled)))"

section \<open>The client\<close>

record client_config =
  cc_sidecar :: string
  cc_heartbeat :: int
  cc_initial :: int
  cc_max :: int

definition client_normalized :: "client_config \<Rightarrow> client_config" where
  "client_normalized c =
     (let c = (if cc_heartbeat c \<le> 0 then c\<lparr>cc_heartbeat := 15 * second\<rparr> else c);
          c = (if cc_initial c \<le> 0 then c\<lparr>cc_initial := 100 * millisecond\<rparr> else c)
      in if cc_max c \<le> 0 \<or> cc_max c < cc_initial c then c\<lparr>cc_max := 2 * second\<rparr> else c)"

definition unwire_endpoint :: "proto_endpoint \<Rightarrow> endpoint" where
  "unwire_endpoint e =
     \<lparr>ep_service = pe_service e, ep_instance = pe_instance e, ep_address = pe_address e,
      ep_metadata = Some (gm_copy (pe_metadata e))\<rparr>"

definition proto_snapshot :: "64 word \<Rightarrow> proto_endpoint list \<Rightarrow> snapshot" where
  "proto_snapshot version eps = \<lparr>sn_endpoints = map unwire_endpoint eps, sn_revision = sint version\<rparr>"

datatype 'e recv = RecvMsg control_message | RecvEOF | RecvErr 'e

datatype 'e client_error = StreamErr 'e | ErrNonSnapshot

datatype 'e run_result = Running | Ended "'e client_error option"

record client_state =
  cl_cache :: cache
  cl_sent :: "control_message list"
  cl_snapshots :: nat
  cl_now :: int
  cl_waits :: "int list"

definition send_msg :: "64 word \<Rightarrow> control_payload \<Rightarrow> client_state \<Rightarrow> client_state" where
  "send_msg v p st = st\<lparr>cl_sent := cl_sent st @ [\<lparr>cm_version = v, cm_payload = p\<rparr>]\<rparr>"

text \<open>
  The receive loop over what \<open>Recv\<close> returns, each with the error that the \<open>Send\<close> of its acknowledgement
  returns. Where the script ends the loop is blocked in \<open>Recv\<close>.
\<close>

fun recv_loop :: "('e recv \<times> 'e option) list \<Rightarrow> client_state \<Rightarrow> 'e run_result \<times> client_state" where
  "recv_loop [] st = (Running, st)"
| "recv_loop ((RecvEOF, serr) # rs) st = (Ended None, st)"
| "recv_loop ((RecvErr e, serr) # rs) st = (Ended (Some (StreamErr e)), st)"
| "recv_loop ((RecvMsg m, serr) # rs) st =
     (case cm_payload m of
        EndpointUpdate eps full \<Rightarrow>
          (if \<not> full then (Ended (Some ErrNonSnapshot), st)
           else
             (let st = st\<lparr>cl_cache := replace_cache (proto_snapshot (cm_version m) eps) (cl_cache st),
                          cl_snapshots := cl_snapshots st + 1\<rparr>;
                  st = send_msg 0 (Ack (cm_version m)) st
              in case serr of Some e \<Rightarrow> (Ended (Some (StreamErr e)), st) | None \<Rightarrow> recv_loop rs st))
      | RouteUpdate \<Rightarrow>
          (let st = send_msg 0 (Ack (cm_version m)) st
           in case serr of Some e \<Rightarrow> (Ended (Some (StreamErr e)), st) | None \<Rightarrow> recv_loop rs st)
      | _ \<Rightarrow> recv_loop rs st)"

text \<open>
  The heartbeat goroutine of a stream over what its select receives: the messages it sends and whether
  it has returned. It touches nothing but the stream.
\<close>

datatype 'e heartbeat_event = HeartbeatTick "'e option" | HeartbeatDone

fun heartbeat_loop :: "string \<Rightarrow> 'e heartbeat_event list \<Rightarrow> control_message list \<times> bool" where
  "heartbeat_loop sidecar [] = ([], False)"
| "heartbeat_loop sidecar (HeartbeatDone # evs) = ([], True)"
| "heartbeat_loop sidecar (HeartbeatTick serr # evs) =
     (let m = \<lparr>cm_version = 0, cm_payload = Heartbeat sidecar\<rparr>
      in if serr \<noteq> None then ([m], True)
         else let (ms, fin) = heartbeat_loop sidecar evs in (m # ms, fin))"

record 'e run_script =
  rs_dial :: "'e option"
  rs_open :: "'e option"
  rs_register :: "'e option"
  rs_events :: "('e recv \<times> 'e option) list"
  rs_end :: int
  rs_tie :: bool

definition run_once :: "client_config \<Rightarrow> 'e run_script \<Rightarrow> client_state \<Rightarrow> 'e run_result \<times> client_state" where
  "run_once cfg r st =
     (case rs_dial r of
        Some e \<Rightarrow> (Ended (Some (StreamErr e)), st)
      | None \<Rightarrow>
          (case rs_open r of
             Some e \<Rightarrow> (Ended (Some (StreamErr e)), st)
           | None \<Rightarrow>
               (let st = send_msg 0 (Register (cc_sidecar cfg) (word_of_int (revision (cl_cache st)))) st
                in case rs_register r of
                     Some e \<Rightarrow> (Ended (Some (StreamErr e)), st)
                   | None \<Rightarrow> recv_loop (rs_events r) st)))"

definition next_backoff :: "client_config \<Rightarrow> int \<Rightarrow> int" where
  "next_backoff cfg d = (let b = wrap64 (d * 2) in if cc_max cfg < b then cc_max cfg else b)"

text \<open>The loop of \<open>Run\<close> over the scripts of its streams: whether it has returned, and the state.\<close>

fun client_loop ::
  "client_config \<Rightarrow> go_context \<Rightarrow> 'e run_script list \<Rightarrow> int \<Rightarrow> client_state \<Rightarrow> bool \<times> client_state" where
  "client_loop cfg ctx [] d st = (ctx_err ctx (cl_now st) \<noteq> None, st)"
| "client_loop cfg ctx (r # rs) d st =
     (if ctx_err ctx (cl_now st) \<noteq> None then (True, st)
      else
        (let (res, st) = run_once cfg r st
         in if res = Running then (False, st)
            else
              (let st = st\<lparr>cl_now := rs_end r\<rparr>
               in if ctx_err ctx (cl_now st) \<noteq> None then (True, st)
                  else
                    (let (e, t) = sleep_ctx ctx (rs_tie r) d (cl_now st);
                         st = st\<lparr>cl_now := t, cl_waits := cl_waits st @ [d]\<rparr>
                     in if e \<noteq> None then (True, st) else client_loop cfg ctx rs (next_backoff cfg d) st))))"

definition client_run :: "client_config \<Rightarrow> go_context \<Rightarrow> 'e run_script list \<Rightarrow> client_state \<Rightarrow> bool \<times> client_state" where
  "client_run cfg ctx rs st = (let cfg = client_normalized cfg in client_loop cfg ctx rs (cc_initial cfg) st)"

section \<open>Lemmas\<close>

lemma sint_of_int64: "in64 x \<Longrightarrow> sint (word_of_int x :: 64 word) = x"
  by (simp add: in64_def sint_sbintrunc' signed_take_bit_int_eq_self)

text \<open>A snapshot as it arrives: an absent metadata map arrives as an empty one.\<close>

definition delivered_endpoint :: "endpoint \<Rightarrow> endpoint" where
  "delivered_endpoint ep = ep\<lparr>ep_metadata := Some (case ep_metadata ep of None \<Rightarrow> [] | Some md \<Rightarrow> md)\<rparr>"

definition delivered :: "snapshot \<Rightarrow> snapshot" where
  "delivered s = s\<lparr>sn_endpoints := map delivered_endpoint (sn_endpoints s)\<rparr>"

lemma unwire_wire: "ep_wf ep \<Longrightarrow> unwire_endpoint (wire_endpoint ep) = delivered_endpoint ep"
  by (cases "ep_metadata ep") (auto simp: unwire_endpoint_def wire_endpoint_def delivered_endpoint_def ep_wf_def)

definition snapshot_ok :: "snapshot \<Rightarrow> bool" where
  "snapshot_ok s \<longleftrightarrow> in64 (sn_revision s) \<and> (\<forall>ep \<in> set (sn_endpoints s). ep_wf ep)"

lemma proto_snapshot_message:
  assumes "snapshot_ok s"
  shows "proto_snapshot (word_of_int (sn_revision s)) (map wire_endpoint (sn_endpoints s)) = delivered s"
  using assms by (auto simp: proto_snapshot_def delivered_def snapshot_ok_def sint_of_int64 unwire_wire)

definition published :: "(('e + snapshot) \<times> 'e option) list \<Rightarrow> snapshot list" where
  "published evs = concat (map (\<lambda>(fs, serr). case (fs, serr) of (Inr s, None) \<Rightarrow> [s] | _ \<Rightarrow> []) evs)"

lemma watch_handler_messages: "fst (watch_handler evs) = map snapshot_message (published evs)"
proof (induction evs)
  case (Cons ev evs)
  obtain fs serr where "ev = (fs, serr)" by fastforce
  then show ?case using Cons
    by (auto simp: published_def send_snapshot_def split: sum.splits option.splits prod.splits)
qed (simp add: published_def)

lemma recv_snapshots:
  assumes "\<forall>s \<in> set ss. snapshot_ok s"
  shows "recv_loop (map (\<lambda>s. (RecvMsg (snapshot_message s), None)) ss) st =
    (Running, st\<lparr>cl_cache := fold replace_cache (map delivered ss) (cl_cache st), cl_snapshots := cl_snapshots st + length ss,
       cl_sent := cl_sent st @ map (\<lambda>s. \<lparr>cm_version = 0, cm_payload = Ack (word_of_int (sn_revision s))\<rparr>) ss\<rparr>)"
  using assms
proof (induction ss arbitrary: st)
  case (Cons s ss)
  have "proto_snapshot (word_of_int (sn_revision s)) (map wire_endpoint (sn_endpoints s)) = delivered s"
    using proto_snapshot_message Cons.prems by simp
  then show ?case using Cons.IH Cons.prems by (simp add: snapshot_message_def send_msg_def Let_def)
qed simp

lemma delivered_consistent:
  "snapshots_consistent ss \<Longrightarrow> snapshots_consistent (map delivered ss)"
  by (auto simp: snapshots_consistent_def delivered_def)

lemma delivered_revision [simp]: "sn_revision (delivered s) = sn_revision s"
  by (simp add: delivered_def)

lemma next_backoff_funpow:
  assumes "0 < d" "d < 2 ^ 62" "0 < cc_max cfg" "cc_max cfg < 2 ^ 62"
  shows "(next_backoff cfg ^^ k) d = (if k = 0 then d else min (cc_max cfg) (d * 2 ^ k))"
proof (induction k)
  case (Suc k)
  let ?d = "(next_backoff cfg ^^ k) d"
  have b: "0 < ?d" "?d < 2 ^ 62" using Suc assms by (auto simp: min_def)
  then have "wrap64 (?d * 2) = ?d * 2" by (intro wrap64_id) (simp add: in64_def)
  then have "(next_backoff cfg ^^ Suc k) d = min (cc_max cfg) (?d * 2)" by (simp add: next_backoff_def Let_def)
  also have "\<dots> = min (cc_max cfg) (d * 2 ^ Suc k)" using Suc assms(3) by (auto simp: min_def mult.assoc)
  finally show ?case by simp
qed simp

lemma recv_loop_waits: "recv_loop rs st = (res, st') \<Longrightarrow> cl_waits st' = cl_waits st \<and> cl_now st' = cl_now st"
proof (induction rs st rule: recv_loop.induct)
  case (4 m serr rs st)
  then show ?case
    by (cases "cm_payload m") (auto simp: send_msg_def Let_def split: if_splits option.splits)
qed auto

lemma run_once_waits: "run_once cfg r st = (res, st') \<Longrightarrow> cl_waits st' = cl_waits st"
  by (auto simp: run_once_def send_msg_def Let_def split: option.splits dest: recv_loop_waits)

lemma client_loop_waits:
  "client_loop cfg ctx rs d st = (ret, st') \<Longrightarrow>
   (\<exists>m. cl_waits st' = cl_waits st @ map (\<lambda>k. (next_backoff cfg ^^ k) d) [0..<m]) \<and> (ret \<longrightarrow> ctx_err ctx (cl_now st') \<noteq> None)"
proof (induction rs arbitrary: d st)
  case Nil
  then show ?case by (auto intro: exI [of _ 0])
next
  case (Cons r rs)
  obtain res st1 where ro: "run_once cfg r st = (res, st1)" by fastforce
  have w1: "cl_waits st1 = cl_waits st" by (rule run_once_waits [OF ro])
  obtain e t where sl: "sleep_ctx ctx (rs_tie r) d (rs_end r) = (e, t)" by fastforce
  let ?st = "st1\<lparr>cl_now := t, cl_waits := cl_waits st1 @ [d]\<rparr>"
  consider (early) "ctx_err ctx (cl_now st) \<noteq> None" | (running) "ctx_err ctx (cl_now st) = None" "res = Running"
    | (ended) "ctx_err ctx (cl_now st) = None" "res \<noteq> Running" "ctx_err ctx (rs_end r) \<noteq> None"
    | (woken) x where "ctx_err ctx (cl_now st) = None" "res \<noteq> Running" "ctx_err ctx (rs_end r) = None" "e = Some x"
    | (again) "ctx_err ctx (cl_now st) = None" "res \<noteq> Running" "ctx_err ctx (rs_end r) = None" "e = None"
    by (cases e) blast+
  then show ?case
  proof cases
    case woken
    then have "ret" "st' = ?st" using Cons.prems ro sl by (auto simp: Let_def)
    moreover have "ctx_err ctx t \<noteq> None" using sleep_some sl woken(4) by force
    ultimately show ?thesis using w1 by (auto intro!: exI [of _ 1])
  next
    case again
    then have "client_loop cfg ctx rs (next_backoff cfg d) ?st = (ret, st')" using Cons.prems ro sl by (simp add: Let_def)
    then obtain m where m: "cl_waits st' = cl_waits ?st @ map (\<lambda>k. (next_backoff cfg ^^ k) (next_backoff cfg d)) [0..<m]"
        and r: "ret \<longrightarrow> ctx_err ctx (cl_now st') \<noteq> None"
      using Cons.IH by blast
    have "[d] @ map (\<lambda>k. (next_backoff cfg ^^ k) (next_backoff cfg d)) [0..<m] = map (\<lambda>k. (next_backoff cfg ^^ k) d) [0..<Suc m]"
      by (simp add: upt_conv_Cons map_Suc_upt [symmetric] funpow_swap1 comp_def del: upt_Suc)
    then show ?thesis using m w1 r by (auto intro!: exI [of _ "Suc m"])
  qed (use Cons.prems ro w1 in \<open>auto simp: Let_def intro!: exI [of _ 0]\<close>)
qed

text \<open>The newest snapshot of a stream is what the cache is replaced by; every message is acknowledged.\<close>

lemma stream_cache:
  assumes "server_stream received (Inr s0, None) evs werr = (ms, start, err, cancelled)"
    and "list_ex (\<lambda>m. case cm_payload m of Register _ _ \<Rightarrow> True | _ \<Rightarrow> False) received"
    and "\<forall>s \<in> set (s0 # published evs). snapshot_ok s \<and> sn_revision s \<le> sn_revision t"
    and "snapshots_consistent (s0 # published evs)" "t \<in> set (s0 # published evs)"
    and "recv_loop (map (\<lambda>m. (RecvMsg m, None)) ms) st = (res, st')"
  shows "res = Running \<and> start = Some (wrap64 (sn_revision s0 + 1)) \<and> cl_cache st' = replace_cache (delivered t) (cl_cache st) \<and>
    cl_sent st' = cl_sent st @ map (\<lambda>m. \<lparr>cm_version = 0, cm_payload = Ack (cm_version m)\<rparr>) ms"
proof -
  let ?ss = "s0 # published evs"
  have ms: "ms = map snapshot_message ?ss" "start = Some (wrap64 (sn_revision s0 + 1))"
    using assms(1,2) watch_handler_messages [of evs] by (auto simp: server_stream_def send_snapshot_def split: prod.splits)
  have run: "recv_loop (map (\<lambda>s. (RecvMsg (snapshot_message s), None)) ?ss) st = (res, st')"
    using assms(6) unfolding ms(1) by (simp add: comp_def)
  have ok: "\<forall>s \<in> set ?ss. snapshot_ok s" using assms(3) by blast
  from recv_snapshots [OF ok, of st] run
  have st': "res = Running" "st' = st\<lparr>cl_cache := fold replace_cache (map delivered ?ss) (cl_cache st), cl_snapshots := cl_snapshots st + length ?ss,
       cl_sent := cl_sent st @ map (\<lambda>s. \<lparr>cm_version = 0, cm_payload = Ack (word_of_int (sn_revision s))\<rparr>) ?ss\<rparr>"
    by (metis Pair_inject)+
  have "fold replace_cache (map delivered ?ss) (cl_cache st) = replace_cache (delivered t) (cl_cache st)"
    by (rule fold_replace_newest [OF delivered_consistent [OF assms(4)]]) (use assms(3,5) in auto)
  then have "cl_cache st' = replace_cache (delivered t) (cl_cache st)" unfolding st'(2) by simp
  moreover have "cl_sent st' = cl_sent st @ map (\<lambda>m. \<lparr>cm_version = 0, cm_payload = Ack (cm_version m)\<rparr>) ms"
    unfolding st'(2) ms(1) by (simp add: snapshot_message_def comp_def)
  ultimately show ?thesis using st'(1) ms(2) by simp
qed

section \<open>Properties\<close>


text \<open>
  Reconnecting. Between streams the sidecar waits the initial backoff first and then twice the
  previous wait, never more than the maximum, without overflow; \<open>Run\<close> returns only when its context is
  done.
\<close>

theorem client_reconnects:
  assumes "client_run cfg ctx rs st = (ret, st')" "cl_waits st = []"
    and "cc_initial (client_normalized cfg) < 2 ^ 62" "cc_max (client_normalized cfg) < 2 ^ 62"
  shows "(\<forall>k < length (cl_waits st'). cl_waits st' ! k =
      (if k = 0 then cc_initial (client_normalized cfg)
       else min (cc_max (client_normalized cfg)) (cc_initial (client_normalized cfg) * 2 ^ k))) \<and>
    (ret \<longrightarrow> ctx_err ctx (cl_now st') \<noteq> None)"
proof -
  let ?c = "client_normalized cfg"
  have pos: "0 < cc_initial ?c" "0 < cc_max ?c" by (auto simp: client_normalized_def Let_def)
  have "client_loop ?c ctx rs (cc_initial ?c) st = (ret, st')" using assms(1) by (simp add: client_run_def Let_def)
  from client_loop_waits [OF this] obtain m
    where m: "cl_waits st' = map (\<lambda>k. (next_backoff ?c ^^ k) (cc_initial ?c)) [0..<m]" and r: "ret \<longrightarrow> ctx_err ctx (cl_now st') \<noteq> None"
    using assms(2) by auto
  show ?thesis
  proof (intro conjI allI impI)
    fix k assume "k < length (cl_waits st')"
    then show "cl_waits st' ! k = (if k = 0 then cc_initial ?c else min (cc_max ?c) (cc_initial ?c * 2 ^ k))"
      using next_backoff_funpow [OF pos(1) assms(3) pos(2) assms(4), of k] by (simp add: m)
  qed (use r in blast)
qed

section \<open>Witnesses\<close>

definition demo_client :: client_state where
  "demo_client = \<lparr>cl_cache = new_cache, cl_sent = [], cl_snapshots = 0, cl_now = 0, cl_waits = []\<rparr>"

definition demo_snap :: "endpoint list \<Rightarrow> int \<Rightarrow> snapshot" where
  "demo_snap eps r = \<lparr>sn_endpoints = eps, sn_revision = r\<rparr>"

definition demo_events :: "((string + snapshot) \<times> string option) list" where
  "demo_events = [(Inr (demo_snap [ep_a, ep_b] 7), None), (Inl ''etcd down'', None), (Inr (demo_snap [ep_b] 5), None)]"


definition demo_fail :: "string run_script" where
  "demo_fail = \<lparr>rs_dial = Some ''refused'', rs_open = None, rs_register = None, rs_events = [], rs_end = 0, rs_tie = True\<rparr>"

theorem client_reconnects_witness:
  "cl_waits (snd (client_run \<lparr>cc_sidecar = ''s'', cc_heartbeat = 0, cc_initial = 0, cc_max = 0\<rparr>
      \<lparr>done_at = None, done_err = Canceled\<rparr> [demo_fail, demo_fail] demo_client)) ! 1 = 200 * millisecond"
proof -
  let ?cfg = "\<lparr>cc_sidecar = ''s'', cc_heartbeat = 0, cc_initial = 0, cc_max = 0\<rparr>" and ?ctx = "\<lparr>done_at = None, done_err = Canceled\<rparr>"
  obtain ret st' where run: "client_run ?cfg ?ctx [demo_fail, demo_fail] demo_client = (ret, st')" by fastforce
  have n: "cc_initial (client_normalized ?cfg) = 100 * millisecond" "cc_max (client_normalized ?cfg) = 2 * second"
    by (simp_all add: client_normalized_def)
  have len: "length (cl_waits st') = 2"
    using run by (auto simp: client_run_def run_once_def demo_fail_def demo_client_def sleep_ctx_def ctx_err_def Let_def split: if_splits)
  have "\<forall>k < length (cl_waits st'). cl_waits st' ! k =
      (if k = 0 then cc_initial (client_normalized ?cfg)
       else min (cc_max (client_normalized ?cfg)) (cc_initial (client_normalized ?cfg) * 2 ^ k))"
    using client_reconnects [OF run] by (simp add: n demo_client_def)
  then have "cl_waits st' ! 1 = min (2 * second) (100 * millisecond * 2 ^ 1)" using len by (simp add: n)
  then show ?thesis using run by simp
qed

end
