(* ===== verification/Control_Plane.thy ===== *)
theory Control_Plane
  imports Registration Control_Stream
begin

text \<open>
  \<^verbatim>\<open>cmd/control-plane/main.go\<close>: the control-plane command, which serves the registry API over HTTP and
  the control stream over gRPC from one etcd, and its shutdown. What the servers do is an argument:
  when their \<open>Serve\<close> calls return, and how long a graceful stop takes, if it ends at all.
\<close>

section \<open>Starting and serving\<close>

record control_flags =
  cf_etcd :: string
  cf_ttl :: int

definition default_control_flags :: control_flags where
  "default_control_flags = \<lparr>cf_etcd = ''http://127.0.0.1:2379'', cf_ttl = 15\<rparr>"

text \<open>The components: the registry API on an etcd store, and the source of the control stream on the same etcd.\<close>

definition control_api ::
  "'s http_net \<Rightarrow> (string \<Rightarrow> json_error + json) \<Rightarrow> (json \<Rightarrow> string) \<Rightarrow> control_flags \<Rightarrow> (source_error, 's) registry_api" where
  "control_api net text_json json_text fl =
     \<lparr>api_store = etcd_store net (new_etcd_client (cf_etcd fl)) text_json json_text, api_default_ttl = cf_ttl fl\<rparr>"

definition control_source ::
  "'s http_net \<Rightarrow> (string \<Rightarrow> json_error + json) \<Rightarrow> control_flags \<Rightarrow> 's \<Rightarrow> (source_error + snapshot) \<times> 's" where
  "control_source net text_json fl = etcd_full_sync net (new_etcd_client (cf_etcd fl)) text_json"

text \<open>
  The exit code: 1 if the gRPC listener cannot be opened, or if the HTTP server ends with an error
  other than \<open>ErrServerClosed\<close> while the context is live; a failing gRPC server cancels the context.
\<close>

definition cancelled_at :: "int option \<Rightarrow> (bool \<times> int) option \<Rightarrow> int option" where
  "cancelled_at signal grpc_end =
     (case grpc_end of
        Some (True, t) \<Rightarrow>
          (case signal of None \<Rightarrow> Some t | Some s \<Rightarrow> if s \<le> t then Some s else Some t)
      | _ \<Rightarrow> signal)"

definition control_exit :: "bool \<Rightarrow> int option \<Rightarrow> (bool \<times> int) option \<Rightarrow> bool \<times> bool \<times> int \<Rightarrow> int" where
  "control_exit grpc_listens signal grpc_end http_end =
     (if \<not> grpc_listens then 1
      else case http_end of
             (failed, server_closed, t) \<Rightarrow>
               if failed \<and> \<not> server_closed \<and> ctx_err \<lparr>done_at = cancelled_at signal grpc_end, done_err = Canceled\<rparr> t = None
               then 1 else 0)"

section \<open>Shutting down\<close>

datatype shutdown_action = HttpShutdown int | GracefulStopped int | ForcedStop int

text \<open>
  After the context is done: the HTTP server gets five seconds, then the gRPC server one second to
  drain before it is stopped by force. A duration of \<^term>\<open>None\<close> never ends. If draining ends exactly
  when the timer fires, \<open>tie\<close> decides.
\<close>

definition control_shutdown :: "int \<Rightarrow> int option \<Rightarrow> int option \<Rightarrow> bool \<Rightarrow> shutdown_action list" where
  "control_shutdown start http_drain grpc_drain tie =
     (let t1 = start + (case http_drain of None \<Rightarrow> 5 * second | Some d \<Rightarrow> min d (5 * second))
      in [HttpShutdown t1,
          case grpc_drain of
            None \<Rightarrow> ForcedStop (t1 + second)
          | Some d \<Rightarrow> if d < second \<or> d = second \<and> tie then GracefulStopped (t1 + d) else ForcedStop (t1 + second)])"

fun action_time :: "shutdown_action \<Rightarrow> int" where
  "action_time (HttpShutdown t) = t"
| "action_time (GracefulStopped t) = t"
| "action_time (ForcedStop t) = t"

text \<open>
  The main goroutine ends the process when \<open>ListenAndServe\<close> returns, at \<open>main_end\<close>, and does not wait for
  the goroutine that shuts down: only the actions until then happen.
\<close>

definition before_exit :: "int \<Rightarrow> shutdown_action list \<Rightarrow> shutdown_action list" where
  "before_exit main_end actions = takeWhile (\<lambda>a. action_time a \<le> main_end) actions"

section \<open>Properties\<close>

text \<open>
  The control plane stops in bounded time. However long its streams stay open, both servers are
  stopped within six seconds of the signal, HTTP first, and streams are cut only after a full second
  of draining.
\<close>

theorem control_shutdown_bounded:
  assumes "\<And>d. http_drain = Some d \<Longrightarrow> 0 \<le> d" "\<And>d. grpc_drain = Some d \<Longrightarrow> 0 \<le> d"
  shows "\<exists>t1 a. control_shutdown start http_drain grpc_drain tie = [HttpShutdown t1, a] \<and> start \<le> t1 \<and> t1 \<le> action_time a \<and>
    action_time a \<le> start + 6 * second \<and>
    (\<forall>t. a = ForcedStop t \<longrightarrow> t = t1 + second \<and> (\<forall>d. grpc_drain = Some d \<longrightarrow> second \<le> d))"
proof -
  define t1 where "t1 = start + (case http_drain of None \<Rightarrow> 5 * second | Some d \<Rightarrow> min d (5 * second))"
  have t: "start \<le> t1" "t1 \<le> start + 5 * second"
    using assms(1) by (auto simp: t1_def split: option.splits)
  show ?thesis
  proof (cases grpc_drain)
    case None
    with t show ?thesis by (auto simp: control_shutdown_def t1_def [symmetric] Let_def)
  next
    case (Some d)
    have "0 \<le> d" using assms(2) Some by simp
    with Some t show ?thesis by (auto simp: control_shutdown_def t1_def [symmetric] Let_def)
  qed
qed

theorem control_shutdown_bounded_witness:
  "control_shutdown 0 (Some millisecond) None True = [HttpShutdown millisecond, ForcedStop (millisecond + second)] \<and>
   action_time (ForcedStop (millisecond + second)) \<le> 6 * second"
  using control_shutdown_bounded [of "Some millisecond" None 0 True]
  by (simp add: control_shutdown_def)

text \<open>
  The drain window is not granted. \<open>net/http\<close> documents that \<open>ListenAndServe\<close> returns as soon as
  \<open>Shutdown\<close> is called, that is at the start of the shutdown; the process then exits at once, and unless all gRPC
  streams end in the same instant they are cut neither gracefully nor after their second.
\<close>

theorem drain_window_lost:
  assumes "\<And>d. http_drain = Some d \<Longrightarrow> 0 \<le> d" "\<And>d. grpc_drain = Some d \<Longrightarrow> 0 < d"
  shows "\<forall>a \<in> set (before_exit start (control_shutdown start http_drain grpc_drain tie)). a = HttpShutdown start"
proof -
  define t1 where "t1 = start + (case http_drain of None \<Rightarrow> 5 * second | Some d \<Rightarrow> min d (5 * second))"
  have "start \<le> t1" using assms(1) by (auto simp: t1_def split: option.splits)
  then show ?thesis
    using assms(2) by (cases grpc_drain) (auto simp: before_exit_def control_shutdown_def t1_def [symmetric] Let_def)
qed

end
