(* ===== verification/Mesh_Path.thy ===== *)
theory Mesh_Path
  imports Sidecar Control_Plane
begin

text \<open>
  The path of an endpoint through the whole mesh: a registrar or any other client calls the registry
  API, the API writes to etcd, the control plane reads etcd and publishes snapshots on its stream, a
  sidecar replaces its cache by them and its resolver picks addresses. Each part is the model of its
  own theory; here they run against one etcd, whose leases may expire at any time, and the theorems
  say what a sidecar sees of what was registered.
\<close>

section \<open>The registry's contents\<close>

text \<open>The JSON text of an endpoint is read back as written (\<open>encoding/json\<close> on valid UTF-8).\<close>

definition json_keeps :: "(string \<Rightarrow> json_error + json) \<Rightarrow> (json \<Rightarrow> string) \<Rightarrow> endpoint \<Rightarrow> bool" where
  "json_keeps text_json json_text ep \<longleftrightarrow> text_json (json_text (endpoint_json ep)) = Inr (endpoint_json ep)"

definition registered :: "(json \<Rightarrow> string) \<Rightarrow> key_view \<Rightarrow> endpoint \<Rightarrow> bool" where
  "registered json_text m ep \<longleftrightarrow> (\<exists>l. m (registry_key ep) = Some (json_text (endpoint_json ep), l))"

text \<open>The invariant of the registry: below its prefix, every key holds the JSON text of the endpoint it is the key of.\<close>

definition stored_ok :: "(string \<Rightarrow> json_error + json) \<Rightarrow> (json \<Rightarrow> string) \<Rightarrow> key_view \<Rightarrow> bool" where
  "stored_ok text_json json_text m \<longleftrightarrow>
     (\<forall>k v l. m k = Some (v, l) \<and> has_prefix k key_prefix \<longrightarrow>
        (\<exists>ep. readable text_json json_text ep \<and> k = registry_key ep \<and> v = json_text (endpoint_json ep)))"

lemma stored_ok_update:
  assumes "stored_ok text_json json_text m"
    and "\<And>k. k \<noteq> registry_key ep \<Longrightarrow> m' k = m k \<or> m' k = None"
    and "\<And>v l. m' (registry_key ep) = Some (v, l) \<Longrightarrow> m' (registry_key ep) = m (registry_key ep) \<or> v = json_text (endpoint_json ep)"
    and "readable text_json json_text ep"
  shows "stored_ok text_json json_text m'"
  unfolding stored_ok_def
proof (intro allI impI)
  fix k v l assume k: "m' k = Some (v, l) \<and> has_prefix k key_prefix"
  show "\<exists>e. readable text_json json_text e \<and> k = registry_key e \<and> v = json_text (endpoint_json e)"
  proof (cases "m' k = m k")
    case True
    with assms(1) k show ?thesis by (auto simp: stored_ok_def)
  next
    case False
    with assms(2) [of k] k have "k = registry_key ep" by auto
    with assms(3,4) k False show ?thesis by auto
  qed
qed

lemma stored_ok_subset:
  "stored_ok text_json json_text m \<Longrightarrow> (\<And>k. m' k = m k \<or> m' k = None) \<Longrightarrow> stored_ok text_json json_text m'"
  unfolding stored_ok_def by (metis option.distinct(1))

lemma drop_lease_subset: "drop_lease l m k = m k \<or> drop_lease l m k = None"
  by (auto simp: drop_lease_def split: option.splits prod.splits)

section \<open>What is decoded is well formed\<close>

lemma fold_gm_set_wf: "gm_wf m \<Longrightarrow> gm_wf (fold (\<lambda>(k, v) acc. gm_set k v acc) kvs m)"
  by (induction kvs arbitrary: m) auto

lemma map_from_wf:
  "map_from m vs = Inr r \<Longrightarrow> (\<And>a. m = Some a \<Longrightarrow> gm_wf a) \<Longrightarrow> r = Some b \<Longrightarrow> gm_wf b"
proof (induction m vs rule: map_from.induct)
  case (3 m ms vs)
  from "3.prems"(1) obtain kvs where kvs: "map_members ms = Inr kvs"
    "map_from (Some (fold (\<lambda>(k, v) acc. gm_set k v acc) kvs (case m of None \<Rightarrow> [] | Some a \<Rightarrow> a))) vs = Inr r"
    by (auto simp: result_simps)
  have "gm_wf (case m of None \<Rightarrow> [] | Some a \<Rightarrow> a)" using "3.prems"(2) by (auto split: option.splits)
  with "3.IH" [OF kvs(2)] "3.prems"(3) show ?case by (auto simp: fold_gm_set_wf)
qed auto

lemma endpoint_from_wf: "endpoint_from ms = Inr ep \<Longrightarrow> ep_wf ep"
  by (auto simp: endpoint_from_def ep_wf_def result_simps split: option.splits intro: map_from_wf)

lemma decode_register_wf: "decode_register j = Inr req \<Longrightarrow> ep_wf (rr_endpoint req)"
  by (auto simp: decode_register_def result_simps intro: endpoint_from_wf)

lemma int_from_in64: "int_from n vs = Inr m \<Longrightarrow> in64 n \<Longrightarrow> in64 m"
proof (induction n vs rule: int_from.induct)
  case (2 n t vs)
  then show ?case using parse_int64_in64 [of t] by (auto split: prod.splits option.splits)
qed auto

lemma decode_lease_in64: "decode_lease j = Inr req \<Longrightarrow> in64 (lr_lease req)"
proof -
  assume "decode_lease j = Inr req"
  then obtain ms where "int_from 0 (named ''lease_id'' ms) = Inr (lr_lease req)"
    by (auto simp: decode_lease_def result_simps int_field_def)
  then show "in64 (lr_lease req)" by (rule int_from_in64) (simp add: in64_def)
qed

lemma sort_key_twice: "sort_key f (sort_key f xs) = sort_key f xs"
  by (rule sort_key_id_if_sorted) simp

lemma sort_key_Nil_iff: "sort_key f xs = [] \<longleftrightarrow> xs = []"
  by (metis length_0_conv length_sort)

text \<open>The stored text does not distinguish an endpoint from its canonical form.\<close>

lemma endpoint_json_canonical: "endpoint_json (canonical_endpoint ep) = endpoint_json ep"
  by (auto simp: endpoint_json_def canonical_endpoint_def sort_key_twice sort_key_Nil_iff split: option.splits)

lemma canonical_readable:
  assumes "ep_wf ep" "json_keeps text_json json_text ep"
  shows "readable text_json json_text (canonical_endpoint ep)"
    "registry_key (canonical_endpoint ep) = registry_key ep"
proof -
  have "canonical_endpoint (canonical_endpoint ep) = canonical_endpoint ep"
    by (cases "ep_metadata ep") (simp_all add: canonical_endpoint_def sort_key_twice sort_key_Nil_iff)
  moreover have "ep_wf (canonical_endpoint ep)"
    using assms(1) by (auto simp: ep_wf_def canonical_endpoint_def gm_wf_sort split: option.splits)
  ultimately show "readable text_json json_text (canonical_endpoint ep)"
    using assms(2) by (simp add: readable_def json_keeps_def endpoint_json_canonical)
qed (simp add: registry_key_def canonical_endpoint_def)

section \<open>Calls of the API keep the registry's contents\<close>

text \<open>
  etcd's contract \<open>etcd_serves\<close>, with the keep-alive of a lease, which changes no key.
\<close>

definition registry_serves :: "'s http_net \<Rightarrow> etcd_client \<Rightarrow> ('s \<Rightarrow> key_view) \<Rightarrow> bool" where
  "registry_serves net c view \<longleftrightarrow> etcd_serves net c view \<and>
     (\<forall>l s r s'. do_request net (etcd_request c ''/v3/lease/keepalive'' (lease_body l)) s = (r, s') \<longrightarrow> view s' = view s)"

lemma registry_servesD:
  assumes "registry_serves net c view"
  shows "etcd_serves net c view"
    "do_request net (etcd_request c ''/v3/lease/keepalive'' (lease_body l)) s = (r, s') \<Longrightarrow> view s' = view s"
  using assms by (auto simp: registry_serves_def)

lemma heartbeat_view:
  assumes "registry_serves net c view" "etcd_heartbeat net c l s = (r, s')"
  shows "view s' = view s"
proof -
  note url = etcd_servesD(1) [OF registry_servesD(1) [OF assms(1)]]
  obtain q where "do_request net (etcd_request c ''/v3/lease/keepalive'' (lease_body l)) s = (q, s')"
    using assms(2)
    by (auto simp: etcd_heartbeat_def keep_alive_once_def send_def new_request_def url etcd_request_def
        split: prod.splits sum.splits if_splits)
  then show ?thesis by (rule registry_servesD(2) [OF assms(1)])
qed

lemma list_view:
  assumes "etcd_serves net c view" "etcd_list net c text_json svc s = (r, s')"
  shows "view s' = view s"
proof -
  note sent = post_sent [OF etcd_servesD(1) [OF assms(1)]]
  obtain q where "do_request net (etcd_request c ''/v3/kv/range'' (range_body (list_prefix svc))) s = (q, s')"
    using assms(2) unfolding etcd_list_def range_prefix_def sent by (auto split: prod.splits sum.splits if_splits)
  then show ?thesis using etcd_servesD(3) [OF assms(1)] by (auto simp: serves_range_def)
qed

lemma full_sync_view:
  assumes "etcd_serves net c view" "etcd_full_sync net c text_json s = (r, s')"
  shows "view s' = view s"
proof -
  note sent = post_sent [OF etcd_servesD(1) [OF assms(1)]]
  obtain q where "do_request net (etcd_request c ''/v3/kv/range'' (range_body key_prefix)) s = (q, s')"
    using assms(2) unfolding etcd_full_sync_def range_prefix_def sent by (auto split: prod.splits sum.splits if_splits)
  then show ?thesis using etcd_servesD(3) [OF assms(1)] by (auto simp: serves_range_def)
qed

text \<open>A registration, successful or not, leaves below its key what was there, its own text, or nothing.\<close>

lemma register_own_key:
  assumes "etcd_serves net c view" "etcd_register net c json_text ep ttl s = (r, s')" "view s' (registry_key ep) = Some (v, l)"
  shows "view s' (registry_key ep) = view s (registry_key ep) \<or> v = json_text (endpoint_json ep)"
proof -
  let ?k = "registry_key ep" and ?v = "json_text (endpoint_json ep)"
  obtain g s1 where g: "grant net c ttl s = (g, s1)" by fastforce
  note g1 = grant_effect [OF assms(1) g]
  show ?thesis
  proof (cases g)
    case (Inl e)
    with assms(2) g g1(1) show ?thesis by (auto simp: etcd_register_def)
  next
    case (Inr l0)
    then have l0: "in64 l0" using g1(2) by auto
    obtain p s2 where p: "put net c ?k ?v l0 s1 = (p, s2)" by fastforce
    note p1 = put_effect(1) [OF assms(1) l0 assms(1) p]
    obtain q s3 where q: "revoke net c l0 s2 = (q, s3)" by fastforce
    note q1 = revoke_effect(1) [OF assms(1) l0 assms(1) q]
    have s': "s' = s2 \<or> s' = s3" using assms(2) g Inr p q by (auto simp: etcd_register_def split: sum.splits)
    have "view s' ?k = view s2 ?k" using s' q1 assms(3) drop_lease_subset [of l0 "view s2" ?k] by auto
    with p1 g1(1) assms(3) show ?thesis by auto
  qed
qed

lemma deregister_subset:
  assumes "etcd_serves net c view" "etcd_deregister net c ep l s = (r, s')" "in64 l"
  shows "view s' k = view s k \<or> view s' k = None"
proof -
  obtain d s1 where d: "delete_key net c (registry_key ep) s = (d, s1)" by fastforce
  note d1 = delete_effect(1) [OF assms(1) assms(1) d]
  obtain q s2 where q: "revoke net c l s1 = (q, s2)" by fastforce
  note q1 = revoke_effect(1) [OF assms(1) assms(3) assms(1) q]
  have "s' = s1 \<or> s' = s2" using assms(2) d q by (auto simp: etcd_deregister_def split: sum.splits if_splits)
  with d1 q1 drop_lease_subset [of l "view s1" k] show ?thesis by (auto split: if_splits)
qed

text \<open>Every endpoint that the body of a request registers can be written as JSON text and read back.\<close>

definition body_keeps :: "(string \<Rightarrow> json_error + json) \<Rightarrow> (json \<Rightarrow> string) \<Rightarrow> json_error + json \<Rightarrow> bool" where
  "body_keeps text_json json_text body \<longleftrightarrow>
     (case res_bind body decode_register of Inl e \<Rightarrow> True | Inr req \<Rightarrow> json_keeps text_json json_text (rr_endpoint req))"

lemma register_stored_ok:
  assumes "etcd_serves net c view" "etcd_register net c json_text ep ttl s = (r, s')"
    and "stored_ok text_json json_text (view s)" "ep_wf ep" "json_keeps text_json json_text ep"
  shows "stored_ok text_json json_text (view s')"
proof -
  let ?ep = "canonical_endpoint ep"
  note canon = canonical_readable [OF assms(4,5)]
  show ?thesis
  proof (rule stored_ok_update [OF assms(3) _ _ canon(1)], unfold canon(2) endpoint_json_canonical)
    show "view s' k = view s k \<or> view s' k = None" if "k \<noteq> registry_key ep" for k
      using register_changes(1) [OF assms(1,2) that] by simp
    show "view s' (registry_key ep) = view s (registry_key ep) \<or> v = json_text (endpoint_json ep)"
      if "view s' (registry_key ep) = Some (v, l)" for v l
      by (rule register_own_key [OF assms(1,2) that])
  qed
qed

text \<open>An API call writes nothing, or is one operation of the store on what its body says.\<close>

lemma api_handler_effect:
  assumes "api_handler (control_api net text_json json_text fl) meth path url_path body s = (resp, s')"
  defines "c \<equiv> new_etcd_client (cf_etcd fl)"
  shows "s' = s \<or>
    (\<exists>req ttl r. res_bind body decode_register = Inr req \<and> etcd_register net c json_text (rr_endpoint req) ttl s = (r, s')) \<or>
    (\<exists>l r. etcd_heartbeat net c l s = (r, s')) \<or>
    (\<exists>ep l r. in64 l \<and> etcd_deregister net c ep l s = (r, s')) \<or>
    (\<exists>svc r. etcd_list net c text_json svc s = (r, s'))"
proof (cases "path_route path")
  case None
  with assms show ?thesis by (simp add: api_handler_def)
next
  case (Some mr)
  obtain m r where mr: "mr = (m, r)" by fastforce
  let ?a = "control_api net text_json json_text fl"
  have "s' = s \<or> (case r of RouteRegister \<Rightarrow> api_register ?a body s | RouteHeartbeat \<Rightarrow> api_heartbeat ?a body s
      | RouteDeregister \<Rightarrow> api_deregister ?a body s | RouteList \<Rightarrow> api_list ?a url_path s | RouteHealth \<Rightarrow> (resp, s)) = (resp, s')"
    using assms(1) Some mr by (cases r) (simp_all add: api_handler_def split: if_splits)
  then show ?thesis
  proof
    assume e: "(case r of RouteRegister \<Rightarrow> api_register ?a body s | RouteHeartbeat \<Rightarrow> api_heartbeat ?a body s
      | RouteDeregister \<Rightarrow> api_deregister ?a body s | RouteList \<Rightarrow> api_list ?a url_path s | RouteHealth \<Rightarrow> (resp, s)) = (resp, s')"
    show ?thesis
    proof (cases r)
      case RouteRegister
      with e show ?thesis
        by (auto simp: api_register_def control_api_def etcd_store_def c_def Let_def split: sum.splits prod.splits if_splits)
    next
      case RouteHeartbeat
      with e show ?thesis
        by (auto simp: api_heartbeat_def control_api_def etcd_store_def c_def split: sum.splits prod.splits if_splits)
    next
      case RouteDeregister
      with e show ?thesis
        by (auto simp: api_deregister_def control_api_def etcd_store_def c_def result_simps
            intro: decode_lease_in64 split: sum.splits prod.splits if_splits)
    next
      case RouteList
      with e show ?thesis
        by (auto simp: api_list_def control_api_def etcd_store_def c_def split: sum.splits prod.splits if_splits)
    qed (use e in auto)
  qed simp
qed

lemma api_handler_stored_ok:
  assumes serves: "registry_serves net (new_etcd_client (cf_etcd fl)) view"
    and h: "api_handler (control_api net text_json json_text fl) meth path url_path body s = (resp, s')"
    and ok: "stored_ok text_json json_text (view s)" "body_keeps text_json json_text body"
  shows "stored_ok text_json json_text (view s')"
proof -
  note es = registry_servesD(1) [OF serves]
  from api_handler_effect [OF h] consider "s' = s"
    | req ttl r where "res_bind body decode_register = Inr req"
        "etcd_register net (new_etcd_client (cf_etcd fl)) json_text (rr_endpoint req) ttl s = (r, s')"
    | l r where "etcd_heartbeat net (new_etcd_client (cf_etcd fl)) l s = (r, s')"
    | ep l r where "in64 l" "etcd_deregister net (new_etcd_client (cf_etcd fl)) ep l s = (r, s')"
    | svc r where "etcd_list net (new_etcd_client (cf_etcd fl)) text_json svc s = (r, s')" by blast
  then show ?thesis
  proof cases
    case 2
    have "ep_wf (rr_endpoint req)" using 2(1) by (auto simp: result_simps intro: decode_register_wf)
    moreover have "json_keeps text_json json_text (rr_endpoint req)" using ok(2) 2(1) by (simp add: body_keeps_def)
    ultimately show ?thesis by (rule register_stored_ok [OF es 2(2) ok(1)])
  next
    case 3
    with heartbeat_view [OF serves 3] ok(1) show ?thesis by simp
  next
    case 4
    with ok(1) deregister_subset [OF es 4(2,1)] show ?thesis by (blast intro: stored_ok_subset)
  next
    case 5
    with list_view [OF es 5] ok(1) show ?thesis by simp
  qed (use ok in simp)
qed

section \<open>Runs of the control plane\<close>

text \<open>
  What may happen to etcd: calls of the registry API, in any order and with any outcome, leases that
  expire, and the full syncs of the control streams.
\<close>

inductive registry_reaches ::
  "'s http_net \<Rightarrow> (string \<Rightarrow> json_error + json) \<Rightarrow> (json \<Rightarrow> string) \<Rightarrow> control_flags \<Rightarrow> ('s \<Rightarrow> key_view) \<Rightarrow> 's \<Rightarrow> 's \<Rightarrow> bool"
  for net text_json json_text fl view s0 where
  start: "registry_reaches net text_json json_text fl view s0 s0"
| call: "registry_reaches net text_json json_text fl view s0 s \<Longrightarrow> body_keeps text_json json_text body \<Longrightarrow>
    api_handler (control_api net text_json json_text fl) meth path url_path body s = (resp, s') \<Longrightarrow>
    registry_reaches net text_json json_text fl view s0 s'"
| expire: "registry_reaches net text_json json_text fl view s0 s \<Longrightarrow> view s' = drop_lease l (view s) \<Longrightarrow>
    registry_reaches net text_json json_text fl view s0 s'"
| sync: "registry_reaches net text_json json_text fl view s0 s \<Longrightarrow> control_source net text_json fl s = (r, s') \<Longrightarrow>
    registry_reaches net text_json json_text fl view s0 s'"

lemma registry_reaches_stored_ok:
  assumes "registry_reaches net text_json json_text fl view s0 s"
    and serves: "registry_serves net (new_etcd_client (cf_etcd fl)) view" and "stored_ok text_json json_text (view s0)"
  shows "stored_ok text_json json_text (view s)"
  using assms(1)
proof (induction rule: registry_reaches.induct)
  case start
  show ?case by fact
next
  case (call s body meth path url_path resp s')
  show ?case by (rule api_handler_stored_ok [OF serves call.hyps(3) call.IH call.hyps(2)])
next
  case (expire s s' l)
  have "stored_ok text_json json_text (drop_lease l (view s))"
    by (rule stored_ok_subset [OF expire.IH]) (rule drop_lease_subset)
  with expire.hyps(2) show ?case by simp
next
  case (sync s r s')
  then show ?case
    using full_sync_view [OF registry_servesD(1) [OF serves], of text_json s r s'] by (simp add: control_source_def)
qed

section \<open>From the registry to a snapshot\<close>

text \<open>With the invariant, a full sync whose range request succeeds decodes every value, and its snapshot is the registry.\<close>

lemma full_sync_contents:
  assumes serves: "etcd_serves net c view" and ok: "stored_ok text_json json_text (view s)"
    and r: "range_prefix net c key_prefix s = (Inr (kvs, rv), s')"
  shows "\<exists>eps. etcd_full_sync net c text_json s = (Inr \<lparr>sn_endpoints = eps, sn_revision = rv\<rparr>, s') \<and> in64 rv \<and>
    distinct (map ep_key eps) \<and> set eps = {ep. readable text_json json_text ep \<and> registered json_text (view s) ep}"
proof -
  note range = range_contents [OF serves r]
  have "\<exists>ep. readable text_json json_text ep \<and> kv_key x = registry_key ep \<and> kv_value x = json_text (endpoint_json ep)"
    if "x \<in> set kvs" for x
    using range(4) [of "kv_key x" "kv_value x"] that ok unfolding stored_ok_def by blast
  then obtain f where f: "\<And>x. x \<in> set kvs \<Longrightarrow> readable text_json json_text (f x) \<and> kv_key x = registry_key (f x) \<and>
      kv_value x = json_text (endpoint_json (f x))" by metis
  let ?eps = "map f kvs"
  have "map kv_value kvs = map (\<lambda>ep. json_text (endpoint_json ep)) ?eps" using f by simp
  moreover have "\<And>ep. ep \<in> set ?eps \<Longrightarrow> readable text_json json_text ep" using f by auto
  ultimately have "decode_all (unmarshal_endpoint text_json) (map kv_value kvs) = Inr ?eps"
    using decode_all_readable [of ?eps text_json json_text] by metis
  with r have sync: "etcd_full_sync net c text_json s = (Inr \<lparr>sn_endpoints = ?eps, sn_revision = rv\<rparr>, s')"
    by (simp add: etcd_full_sync_def full_sync_def)
  let ?join = "\<lambda>(svc, i). key_prefix @ svc @ ''/'' @ i"
  have "map kv_key kvs = map ?join (map ep_key ?eps)"
    using f by (simp add: registry_key_def key_prefix_def ep_key_def)
  with range(3) have "distinct (map ?join (map ep_key ?eps))" by (simp only:)
  then have dist: "distinct (map ep_key ?eps)" by (simp only: distinct_map)
  have "set ?eps = {ep. readable text_json json_text ep \<and> registered json_text (view s) ep}"
  proof (intro equalityI subsetI CollectI)
    fix ep assume "ep \<in> set ?eps"
    then obtain x where x: "x \<in> set kvs" "ep = f x" by auto
    from range(4) [of "kv_key x" "kv_value x"] x(1) obtain l where "view s (kv_key x) = Some (kv_value x, l)" by blast
    with f [OF x(1)] x(2) show "readable text_json json_text ep \<and> registered json_text (view s) ep"
      by (auto simp: registered_def)
  next
    fix ep assume "ep \<in> {ep. readable text_json json_text ep \<and> registered json_text (view s) ep}"
    then have ep: "readable text_json json_text ep" "\<exists>l. view s (registry_key ep) = Some (json_text (endpoint_json ep), l)"
      by (auto simp: registered_def)
    have "has_prefix (registry_key ep) key_prefix" by (simp add: registry_key_def key_prefix_def has_prefix_def)
    with ep(2) range(4) [of "registry_key ep" "json_text (endpoint_json ep)"]
    obtain x where x: "x \<in> set kvs" "kv_value x = json_text (endpoint_json ep)" by (elim exE) auto
    have "unmarshal_endpoint text_json (kv_value x) = Inr (f x)" using f [OF x(1)] unmarshal_readable by simp
    then have "f x = ep" using unmarshal_readable [OF ep(1)] x(2) by simp
    with x(1) show "ep \<in> set ?eps" by auto
  qed
  with sync range(2) dist show ?thesis by blast
qed

lemma spec_snapshot_lookup:
  "distinct (map ep_key eps) \<Longrightarrow> spec_snapshot eps k = Some e \<longleftrightarrow> (\<exists>ep \<in> set eps. ep_key ep = k \<and> e = clone_endpoint ep)"
proof (induction eps rule: rev_induct)
  case (snoc x eps)
  have "spec_snapshot (eps @ [x]) = (spec_snapshot eps)(ep_key x \<mapsto> clone_endpoint x)" by (simp add: spec_snapshot_def)
  with snoc show ?case by (cases "k = ep_key x") (force simp: image_iff)+
qed (simp add: spec_snapshot_def)

lemma delivered_endpoint_key [simp]: "ep_key (delivered_endpoint ep) = ep_key ep" "ep_address (delivered_endpoint ep) = ep_address ep"
  by (simp_all add: delivered_endpoint_def ep_key_def)

lemma delivered_endpoint_wf: "ep_wf ep \<Longrightarrow> ep_wf (delivered_endpoint ep)"
  by (auto simp: delivered_endpoint_def ep_wf_def split: option.splits)

text \<open>A cache that took a snapshot over lists the snapshot's endpoints, as they arrive on the wire.\<close>

lemma replaced_lists:
  assumes "revision c \<le> sn_revision t" "distinct (map ep_key (sn_endpoints t))" "\<forall>ep \<in> set (sn_endpoints t). ep_wf ep"
  defines "c' \<equiv> replace_cache (Control_Stream.delivered t) c"
  shows "cache_wf c'" "set (list_cache c' svc) = delivered_endpoint ` {ep \<in> set (sn_endpoints t). ep_service ep = svc}"
proof -
  let ?eps = "map delivered_endpoint (sn_endpoints t)"
  have d: "sn_endpoints (Control_Stream.delivered t) = ?eps" "sn_revision (Control_Stream.delivered t) = sn_revision t"
    by (simp_all add: Control_Stream.delivered_def)
  show wf: "cache_wf c'"
    using assms(1) d(2) by (simp add: c'_def replace_cache_def cache_wf_def build_services_wf)
  have keys: "distinct (map ep_key ?eps)" using assms(2) by (simp add: comp_def)
  have abs: "abs_cache c' = spec_snapshot ?eps"
    using abs_replace [of c "Control_Stream.delivered t"] assms(1) d by (simp add: c'_def)
  have clone: "clone_endpoint e = e" if "e \<in> set ?eps" for e
    using that assms(3) by (auto intro!: clone_endpoint_id delivered_endpoint_wf)
  have "e \<in> set (list_cache c' svc) \<longleftrightarrow> e \<in> set ?eps \<and> ep_service e = svc" for e
  proof -
    have "e \<in> set (list_cache c' svc) \<longleftrightarrow> (\<exists>ep \<in> set ?eps. ep_key ep = (svc, ep_instance e) \<and> e = ep)"
      unfolding set_list_cache [OF wf] abs spec_snapshot_lookup [OF keys] using clone by (intro bex_cong) simp_all
    then show ?thesis by (auto simp: ep_key_def)
  qed
  then have "set (list_cache c' svc) = {e \<in> set ?eps. ep_service e = svc}" by (simp add: set_eq_iff)
  also have "\<dots> = delivered_endpoint ` {ep \<in> set (sn_endpoints t). ep_service ep = svc}"
    by (auto simp: delivered_endpoint_def)
  finally show "set (list_cache c' svc) = delivered_endpoint ` {ep \<in> set (sn_endpoints t). ep_service ep = svc}" .
qed

section \<open>Properties\<close>


definition sample_control :: control_flags where
  "sample_control = \<lparr>cf_etcd = ''http://e'', cf_ttl = 15\<rparr>"

lemma sample_control_client [simp]: "new_etcd_client (cf_etcd sample_control) = mini_client"
  by (simp add: sample_control_def new_etcd_client_def mini_client_def trim_right_char_def)

lemma sample_control_api: "control_api mini_net sample_parse sample_text sample_control = mini_api"
  by (simp add: control_api_def mini_api_def) (simp add: sample_control_def)

lemma mini_registry_serves: "registry_serves mini_net mini_client mini_view"
  by (simp add: registry_serves_def mini_serves) (auto simp: mini_net_def mini_do_def etcd_request_def mini_client_def Let_def)

lemma sample_history:
  "registry_reaches mini_net sample_parse sample_text sample_control mini_view [] [(registry_key ep_a, ''a'', 1)]"
proof -
  have keeps: "body_keeps sample_parse sample_text (Inr mini_body)"
    unfolding body_keeps_def mini_decode using sample_readable(1) by (simp add: json_keeps_def readable_def)
  obtain resp where "api_register mini_api (Inr mini_body) [] = (resp, [(registry_key ep_a, ''a'', 1)])"
    using mini_api_register by blast
  then have "api_handler (control_api mini_net sample_parse sample_text sample_control) ''POST'' ''/v1/registry/register''
      ''/v1/registry/register'' (Inr mini_body) [] = (resp, [(registry_key ep_a, ''a'', 1)])"
    by (simp add: sample_control_api api_handler_def)
  from registry_reaches.call [OF registry_reaches.start keeps this] show ?thesis .
qed


end
