(* ===== verification/Observability.thy ===== *)
theory Observability
  imports Proxy
begin

text \<open>
  \<^verbatim>\<open>internal/observability/observability.go\<close>: the metrics of a sidecar and its tracer. The registry is
  Prometheus' and an argument: \<open>register\<close> adds a collector or refuses it. \<open>registry_contract\<close> has
  what its documentation promises: a collector is refused exactly when one of its names is taken.
  \<open>MustRegister\<close> panics on a refusal, which is the value \<open>None\<close>.
\<close>

section \<open>Metrics\<close>

datatype metric_kind = Counter | Histogram | Gauge

record metric_desc =
  md_name :: string
  md_help :: string
  md_kind :: metric_kind
  md_labels :: "string list"

datatype collector = Vec metric_desc | GoCollector | ProcessCollector

record 'r metrics =
  m_requests :: metric_desc
  m_duration :: metric_desc
  m_retries :: metric_desc
  m_circuit_breaker :: metric_desc
  m_rate_limit_rejected :: metric_desc
  m_registry :: 'r

fun must_register :: "(collector \<Rightarrow> 'r \<Rightarrow> 'r option) \<Rightarrow> collector list \<Rightarrow> 'r \<Rightarrow> 'r option" where
  "must_register register [] r = Some r"
| "must_register register (c # cs) r = (case register c r of None \<Rightarrow> None | Some r \<Rightarrow> must_register register cs r)"

definition metric_vectors :: "'r \<Rightarrow> 'r metrics" where
  "metric_vectors new_registry =
     \<lparr>m_requests = \<lparr>md_name = ''minimesh_request_total'', md_help = ''Total proxy requests.'', md_kind = Counter,
        md_labels = [''service'', ''method'', ''code'']\<rparr>,
      m_duration = \<lparr>md_name = ''minimesh_request_duration_seconds'', md_help = ''End-to-end proxy request duration.'',
        md_kind = Histogram, md_labels = [''service'', ''method'', ''code'']\<rparr>,
      m_retries = \<lparr>md_name = ''minimesh_retry_total'', md_help = ''Total retry attempts after the initial attempt.'',
        md_kind = Counter, md_labels = [''service'', ''method'']\<rparr>,
      m_circuit_breaker = \<lparr>md_name = ''minimesh_circuit_breaker_total'', md_help = ''Circuit breaker rejections.'',
        md_kind = Counter, md_labels = [''service'', ''event'']\<rparr>,
      m_rate_limit_rejected = \<lparr>md_name = ''minimesh_rate_limit_rejected_total'',
        md_help = ''Requests rejected by the local rate limiter.'', md_kind = Counter, md_labels = [''service'', ''method'']\<rparr>,
      m_registry = new_registry\<rparr>"

definition new_metrics :: "(collector \<Rightarrow> 'r \<Rightarrow> 'r option) \<Rightarrow> 'r \<Rightarrow> 'r metrics option" where
  "new_metrics register new_registry =
     (let m = metric_vectors new_registry
      in case must_register register
                [Vec (m_requests m), Vec (m_duration m), Vec (m_retries m), Vec (m_circuit_breaker m), Vec (m_rate_limit_rejected m)]
                (m_registry m) of
           None \<Rightarrow> None
         | Some r \<Rightarrow>
             (case must_register register [GoCollector, ProcessCollector] r of
                None \<Rightarrow> None
              | Some r \<Rightarrow> Some (m\<lparr>m_registry := r\<rparr>)))"

text \<open>The collectors that read the pool when they are scraped; their functions are the gauges of the sidecar.\<close>

definition register_active_connections :: "(collector \<Rightarrow> 'r \<Rightarrow> 'r option) \<Rightarrow> 'r metrics \<Rightarrow> 'r metrics option" where
  "register_active_connections register m =
     map_option (\<lambda>r. m\<lparr>m_registry := r\<rparr>) (must_register register
       [Vec \<lparr>md_name = ''minimesh_active_connections'', md_help = ''Active upstream gRPC connections.'', md_kind = Gauge, md_labels = []\<rparr>]
       (m_registry m))"

definition connection_collectors :: "collector list" where
  "connection_collectors =
     [Vec \<lparr>md_name = ''minimesh_active_connections'', md_help = ''Upstream gRPC connections currently serving requests.'',
        md_kind = Gauge, md_labels = []\<rparr>,
      Vec \<lparr>md_name = ''minimesh_idle_connections'', md_help = ''Reusable idle upstream gRPC connections.'', md_kind = Gauge, md_labels = []\<rparr>,
      Vec \<lparr>md_name = ''minimesh_connection_created_total'', md_help = ''Total upstream gRPC connections created.'',
        md_kind = Counter, md_labels = []\<rparr>]"

definition register_connection_stats :: "(collector \<Rightarrow> 'r \<Rightarrow> 'r option) \<Rightarrow> 'r metrics \<Rightarrow> 'r metrics option" where
  "register_connection_stats register m =
     map_option (\<lambda>r. m\<lparr>m_registry := r\<rparr>) (must_register register connection_collectors (m_registry m))"

text \<open>
  A use of a metric by the proxy: its vector and the label values, which \<open>WithLabelValues\<close> accepts only in
  the number of the labels.
\<close>

fun metric_use :: "'r metrics \<Rightarrow> metric \<Rightarrow> metric_desc \<times> string list" where
  "metric_use m (RequestTotal service method code) = (m_requests m, [service, method, code])"
| "metric_use m (RequestDuration service method code _) = (m_duration m, [service, method, code])"
| "metric_use m (RetryTotal service method) = (m_retries m, [service, method])"
| "metric_use m (CircuitBreakerTotal service event) = (m_circuit_breaker m, [service, event])"
| "metric_use m (RateLimitRejected service method) = (m_rate_limit_rejected m, [service, method])"

definition with_label_values :: "metric_desc \<times> string list \<Rightarrow> bool" where
  "with_label_values u \<longleftrightarrow> length (snd u) = length (md_labels (fst u))"

section \<open>The tracer\<close>

text \<open>
  \<open>InitTracer\<close> with the creation of the exporter as an argument: the error, or whether a provider that
  exports was installed (otherwise the shutdown function does nothing).
\<close>

definition init_tracer :: "(string \<Rightarrow> 'e option) \<Rightarrow> string \<Rightarrow> 'e + bool" where
  "init_tracer new_exporter endpoint =
     (if trim_space endpoint = [] then Inr False
      else case new_exporter endpoint of Some e \<Rightarrow> Inl e | None \<Rightarrow> Inr True)"

section \<open>The contract of the registry\<close>

fun collector_names :: "string set \<Rightarrow> string set \<Rightarrow> collector \<Rightarrow> string set" where
  "collector_names go process (Vec d) = {md_name d}"
| "collector_names go process GoCollector = go"
| "collector_names go process ProcessCollector = process"

definition registry_contract :: "(collector \<Rightarrow> 'r \<Rightarrow> 'r option) \<Rightarrow> ('r \<Rightarrow> string set) \<Rightarrow> string set \<Rightarrow> string set \<Rightarrow> bool" where
  "registry_contract register taken go process \<longleftrightarrow>
     (\<forall>c r. if collector_names go process c \<inter> taken r = {}
            then \<exists>s. register c r = Some s \<and> taken s = taken r \<union> collector_names go process c else register c r = None) \<and>
     (\<forall>n \<in> go. has_prefix n ''go_'') \<and> (\<forall>n \<in> process. has_prefix n ''process_'')"

lemma registry_accepts:
  assumes "registry_contract register taken go process" "collector_names go process c \<inter> taken r = {}"
  obtains s where "register c r = Some s" "taken s = taken r \<union> collector_names go process c"
  using assms unfolding registry_contract_def by meson

lemma registry_refuses:
  "registry_contract register taken go process \<Longrightarrow> collector_names go process c \<inter> taken r \<noteq> {} \<Longrightarrow> register c r = None"
  unfolding registry_contract_def by meson

text \<open>Collectors whose names are new and pairwise disjoint are all accepted.\<close>

lemma must_register_fresh:
  assumes "registry_contract register taken go process"
    and "\<forall>c \<in> set cs. collector_names go process c \<inter> taken r = {}"
    and "sorted_wrt (\<lambda>c d. collector_names go process c \<inter> collector_names go process d = {}) cs"
  obtains s where "must_register register cs r = Some s" "taken s = taken r \<union> (\<Union>c \<in> set cs. collector_names go process c)"
  using assms(2,3)
proof (induction cs arbitrary: r thesis)
  case (Cons c cs)
  obtain s where s: "register c r = Some s" "taken s = taken r \<union> collector_names go process c"
    using registry_accepts [OF assms(1), of c r] Cons.prems(2) by auto
  have "\<forall>d \<in> set cs. collector_names go process d \<inter> taken s = {}"
    using Cons.prems(2,3) s(2) by (auto simp: Int_Un_distrib Int_commute)
  from Cons.IH [OF _ this] Cons.prems(3) obtain q where
    "must_register register cs s = Some q" "taken q = taken s \<union> (\<Union>c \<in> set cs. collector_names go process c)" by auto
  then show ?case using Cons.prems(1) [of q] s by (auto simp: Un_assoc)
qed simp

lemma runtime_names:
  assumes "registry_contract register taken go process"
  shows "go \<inter> process = {}" "\<not> has_prefix n ''go_'' \<Longrightarrow> n \<notin> go" "\<not> has_prefix n ''process_'' \<Longrightarrow> n \<notin> process"
proof -
  have go: "\<forall>n \<in> go. has_prefix n ''go_''" and pr: "\<forall>n \<in> process. has_prefix n ''process_''"
    using assms by (simp_all add: registry_contract_def)
  show "go \<inter> process = {}"
  proof (rule ccontr)
    assume "go \<inter> process \<noteq> {}"
    then obtain n where "has_prefix n ''go_''" "has_prefix n ''process_''" using go pr by blast
    then show False by (cases n) (auto simp: has_prefix_def)
  qed
  show "\<not> has_prefix n ''go_'' \<Longrightarrow> n \<notin> go" "\<not> has_prefix n ''process_'' \<Longrightarrow> n \<notin> process" using go pr by blast+
qed

section \<open>Properties\<close>

text \<open>
  No registration and no use of a metric panics. On a registry that refuses exactly the names it has,
  the metrics of a sidecar register, then the connection gauges once (as the command does on either of
  its branches), while registering gauges again, or the older single gauge as well, would panic. Every
  metric that the proxy records was registered and gets one value per label.
\<close>

theorem metrics_registered:
  assumes "registry_contract register taken go process" "taken new_registry = {}"
  shows "\<exists>m m'. new_metrics register new_registry = Some m \<and> register_connection_stats register m = Some m' \<and>
    register_connection_stats register m' = None \<and> register_active_connections register m' = None \<and>
    (\<forall>x. with_label_values (metric_use m' x) \<and> md_name (fst (metric_use m' x)) \<in> taken (m_registry m'))"
proof -
  note rt = runtime_names [OF assms(1)]
  let ?m = "metric_vectors new_registry"
  let ?cs = "[Vec (m_requests ?m), Vec (m_duration ?m), Vec (m_retries ?m), Vec (m_circuit_breaker ?m), Vec (m_rate_limit_rejected ?m)]"
  have reg: "m_registry ?m = new_registry" by (simp add: metric_vectors_def)
  obtain r where r: "must_register register ?cs new_registry = Some r" "taken r = (\<Union>c \<in> set ?cs. collector_names go process c)"
    by (rule must_register_fresh [OF assms(1), of ?cs new_registry]) (simp_all add: assms(2) metric_vectors_def)
  obtain s where s: "must_register register [GoCollector, ProcessCollector] r = Some s" "taken s = taken r \<union> go \<union> process"
    by (rule must_register_fresh [OF assms(1), of "[GoCollector, ProcessCollector]" r])
      (simp_all add: r(2) rt has_prefix_def metric_vectors_def Un_assoc)
  have new: "new_metrics register new_registry = Some (?m\<lparr>m_registry := s\<rparr>)"
    by (simp add: new_metrics_def Let_def reg r(1) s(1) del: must_register.simps)
  obtain q where q: "must_register register connection_collectors s = Some q"
      "taken q = taken s \<union> (\<Union>c \<in> set connection_collectors. collector_names go process c)"
    by (rule must_register_fresh [OF assms(1), of connection_collectors s])
      (simp_all add: r(2) s(2) rt has_prefix_def metric_vectors_def connection_collectors_def)
  have stats: "register_connection_stats register (?m\<lparr>m_registry := s\<rparr>) = Some (?m\<lparr>m_registry := q\<rparr>)"
    by (simp add: register_connection_stats_def q(1))
  have twice: "register (Vec \<lparr>md_name = ''minimesh_active_connections'', md_help = h, md_kind = Gauge, md_labels = []\<rparr>) q = None" for h
    by (rule registry_refuses [OF assms(1)]) (simp add: q(2) connection_collectors_def)
  have "register_connection_stats register (?m\<lparr>m_registry := q\<rparr>) = None" "register_active_connections register (?m\<lparr>m_registry := q\<rparr>) = None"
    by (simp_all add: register_connection_stats_def register_active_connections_def connection_collectors_def twice)
  moreover have "with_label_values (metric_use (?m\<lparr>m_registry := q\<rparr>) x) \<and> md_name (fst (metric_use (?m\<lparr>m_registry := q\<rparr>) x)) \<in> taken q" for x
    by (cases x) (simp_all add: with_label_values_def q(2) s(2) r(2), simp_all add: metric_vectors_def)
  ultimately show ?thesis using new stats by (intro exI conjI allI) auto
qed

definition names_registry :: "collector \<Rightarrow> string list \<Rightarrow> string list option" where
  "names_registry c r =
     (case c of
        Vec d \<Rightarrow> if md_name d \<in> set r then None else Some (md_name d # r)
      | GoCollector \<Rightarrow> if ''go_goroutines'' \<in> set r then None else Some (''go_goroutines'' # r)
      | ProcessCollector \<Rightarrow> if ''process_open_fds'' \<in> set r then None else Some (''process_open_fds'' # r))"

theorem metrics_registered_witness:
  "\<exists>m m'. new_metrics names_registry [] = Some m \<and> register_connection_stats names_registry m = Some m' \<and>
     register_connection_stats names_registry m' = None"
proof -
  have "registry_contract names_registry set {''go_goroutines''} {''process_open_fds''}"
    unfolding registry_contract_def
  proof (intro conjI allI)
    fix c r show "if collector_names {''go_goroutines''} {''process_open_fds''} c \<inter> set r = {}
      then \<exists>s. names_registry c r = Some s \<and> set s = set r \<union> collector_names {''go_goroutines''} {''process_open_fds''} c
      else names_registry c r = None" by (cases c) (auto simp: names_registry_def)
  qed (simp_all add: has_prefix_def)
  from metrics_registered [OF this, of "[]"] show ?thesis by auto
qed

end
