(* ===== verification/Sidecar_Run.thy ===== *)
theory Sidecar_Run
  imports Sidecar Observability
begin

text \<open>
  \<^verbatim>\<open>cmd/sidecar/main.go\<close> around the set-up of \<open>Sidecar\<close>: the defaults of its flags, and its end. The main
  goroutine serves RPCs until \<open>server.Serve\<close> returns; a second goroutine waits for the context, stops
  the server gracefully, and then closes the connection pool and the metrics server. The two and the RPCs are a
  step relation over the pool of \<open>Connection_Pool\<close>. gRPC's contract is in the steps: after \<open>GracefulStop\<close>
  was called no RPC begins, \<open>GracefulStop\<close> returns when every RPC has returned, and \<open>Serve\<close> returns
  without an error only after \<open>GracefulStop\<close> was called; whether it does so before the RPCs have
  returned is the parameter \<open>early\<close>.
\<close>

section \<open>Defaults\<close>

definition default_flags :: sidecar_flags where
  "default_flags =
     \<lparr>fl_listen = '':18080'', fl_sidecar_id = [], fl_lb = ''round_robin'', fl_use_pool = True, fl_max_conns = 2,
      fl_max_idle = 30 * second, fl_keepalive = 30 * second, fl_keepalive_timeout = 5 * second,
      fl_request_timeout = 2 * second, fl_max_attempts = 3, fl_backoff = 20 * millisecond, fl_max_backoff = 200 * millisecond,
      fl_retry_codes = ''unavailable,resource_exhausted,internal'',
      fl_budget = \<lparr>bc_rate = Fin 100, bc_burst = 100\<rparr>,
      fl_circuit = True,
      fl_circuit_cfg = \<lparr>window_size = 20, minimum_requests = 10, failure_threshold = Fin (1 / 2), cooldown = 5 * second,
        half_open_max = 2\<rparr>,
      fl_circuit_codes = ''unavailable,resource_exhausted,internal,deadline_exceeded'',
      fl_limit = True, fl_limit_rule = \<lparr>rate_per_second = Fin 0, burst = 1000\<rparr>, fl_service_limits = [], fl_route_limits = [],
      fl_registry = [], fl_register_service = [], fl_register_instance = [], fl_register_address = [],
      fl_register_ttl = 15 * second, fl_readiness = [], fl_transparent = [], fl_mtls_listen = [], fl_mtls_backend = [],
      fl_mtls_files = \<lparr>file_ca = [], file_cert = [], file_key = []\<rparr>, fl_trust_domain = ''minimesh.local'',
      fl_namespace = ''default'', fl_allowed_peers = []\<rparr>"

section \<open>The metrics listener\<close>

text \<open>
  The handlers of the metrics listener by pattern. \<open>http.ServeMux\<close> takes the longest pattern that fits:
  one that ends in a slash fits every path below it, any other only its own path. Paths are cleaned (a request
  with another path is redirected first).
\<close>

datatype handler = ServeMetrics | ServeLivez | ServeReadyz | ServePprof string

definition metrics_routes :: "bool \<Rightarrow> (string \<times> handler) list" where
  "metrics_routes pprof =
     [(''/metrics'', ServeMetrics), (''/livez'', ServeLivez), (''/readyz'', ServeReadyz)] @
     (if pprof then [(''/debug/pprof/'', ServePprof ''Index''), (''/debug/pprof/cmdline'', ServePprof ''Cmdline''),
        (''/debug/pprof/profile'', ServePprof ''Profile''), (''/debug/pprof/symbol'', ServePprof ''Symbol''),
        (''/debug/pprof/trace'', ServePprof ''Trace'')] else [])"

definition pattern_fits :: "string \<Rightarrow> string \<Rightarrow> bool" where
  "pattern_fits path pat \<longleftrightarrow> (if last pat = CHR ''/'' then has_prefix path pat else path = pat)"

fun longest_pattern :: "string \<Rightarrow> (string \<times> handler) list \<Rightarrow> (string \<times> handler) option \<Rightarrow> (string \<times> handler) option" where
  "longest_pattern path [] best = best"
| "longest_pattern path ((pat, h) # rs) best =
     longest_pattern path rs
       (if pattern_fits path pat \<and> (case best of None \<Rightarrow> True | Some (b, _) \<Rightarrow> length b < length pat) then Some (pat, h) else best)"

definition metrics_mux :: "bool \<Rightarrow> string \<Rightarrow> handler option" where
  "metrics_mux pprof path = map_option snd (longest_pattern path (metrics_routes pprof) None)"

definition livez :: "int \<times> string" where
  "livez = (200, ''ok'' @ [CHR 0x0A])"

text \<open>The values of the connection gauges; without a pool they are zero.\<close>

definition connection_gauges :: "conn_pool option \<Rightarrow> float64 \<times> float64 \<times> float64" where
  "connection_gauges pool =
     (case pool of
        None \<Rightarrow> (Fin 0, Fin 0, Fin 0)
      | Some p \<Rightarrow> (f_of_int (st_active (pool_stats_of p)), f_of_int (st_idle (pool_stats_of p)), f_of_int (st_created (pool_stats_of p))))"

lemma longest_pattern_source:
  "longest_pattern path rs best = Some (pat, h) \<Longrightarrow> best = Some (pat, h) \<or> ((pat, h) \<in> set rs \<and> pattern_fits path pat)"
  by (induction path rs best rule: longest_pattern.induct) (auto split: if_splits)

text \<open>Profiling is reachable only below its own path and only if it was enabled.\<close>

lemma pprof_guarded:
  assumes "metrics_mux pprof path = Some (ServePprof what)"
  shows "pprof \<and> has_prefix path ''/debug/pprof/''"
proof -
  obtain pat where "longest_pattern path (metrics_routes pprof) None = Some (pat, ServePprof what)"
    using assms by (auto simp: metrics_mux_def)
  from longest_pattern_source [OF this] have "(pat, ServePprof what) \<in> set (metrics_routes pprof)" "pattern_fits path pat" by auto
  then show ?thesis by (auto simp: metrics_routes_def pattern_fits_def has_prefix_def split: if_splits)
qed

section \<open>Serving and stopping\<close>

text \<open>An RPC is outside the pool, dialing for it, or holds a handle of it; a waiting \<open>Acquire\<close> enters again.\<close>

datatype rpc = Running | Dialing string nat | Leased nat | Returned

datatype closer = WaitDone | Stopping | Stopped | PoolClosed pool_stats | Finished pool_stats

record sidecar_run =
  ru_pool :: pool_world
  ru_calls :: "rpc list"
  ru_cancelled :: bool
  ru_closer :: closer
  ru_exit :: "int option"

definition run_start :: "conn_pool \<Rightarrow> sidecar_run" where
  "run_start p = \<lparr>ru_pool = pool_start p, ru_calls = [], ru_cancelled = False, ru_closer = WaitDone, ru_exit = None\<rparr>"

definition after_enter :: "string \<Rightarrow> 'e enter_result \<Rightarrow> pool_world \<Rightarrow> rpc" where
  "after_enter t r w =
     (case r of EnterGot _ \<Rightarrow> Leased (length (pw_handles w)) | EnterDial a \<Rightarrow> Dialing t a | _ \<Rightarrow> Running)"

definition after_dial :: "'e pool_error + nat \<Rightarrow> pool_world \<Rightarrow> rpc" where
  "after_dial r w = (case r of Inl _ \<Rightarrow> Running | Inr _ \<Rightarrow> Leased (length (pw_handles w)))"

inductive run_step :: "bool \<Rightarrow> sidecar_run \<Rightarrow> sidecar_run \<Rightarrow> bool" for early where
  begin_rpc: "ru_exit r = None \<Longrightarrow> ru_closer r = WaitDone \<Longrightarrow> run_step early r (r\<lparr>ru_calls := ru_calls r @ [Running]\<rparr>)"
| enter: "ru_exit r = None \<Longrightarrow> i < length (ru_calls r) \<Longrightarrow> ru_calls r ! i = Running \<Longrightarrow>
    run_step early r (r\<lparr>ru_pool := pool_exec (EvAcquire t (cerr :: string option)) (ru_pool r),
      ru_calls := (ru_calls r)[i := after_enter t (fst (acquire_enter t cerr (pw_pool (ru_pool r)))) (ru_pool r)]\<rparr>)"
| dialed: "ru_exit r = None \<Longrightarrow> i < length (ru_calls r) \<Longrightarrow> ru_calls r ! i = Dialing t a \<Longrightarrow>
    event_ok (EvDialed t a cn (err :: string option) now) (ru_pool r) \<Longrightarrow>
    run_step early r (r\<lparr>ru_pool := pool_exec (EvDialed t a cn err now) (ru_pool r),
      ru_calls := (ru_calls r)[i := after_dial (fst (acquire_dialed t a cn err now (pw_pool (ru_pool r)))) (ru_pool r)]\<rparr>)"
| release: "ru_exit r = None \<Longrightarrow> i < length (ru_calls r) \<Longrightarrow> ru_calls r ! i = Leased h \<Longrightarrow>
    run_step early r (r\<lparr>ru_pool := pool_exec (EvRelease h now :: string pool_event) (ru_pool r), ru_calls := (ru_calls r)[i := Running]\<rparr>)"
| return_rpc: "ru_exit r = None \<Longrightarrow> i < length (ru_calls r) \<Longrightarrow> ru_calls r ! i = Running \<Longrightarrow>
    run_step early r (r\<lparr>ru_calls := (ru_calls r)[i := Returned]\<rparr>)"
| reap: "ru_exit r = None \<Longrightarrow> map_order order (pw_pool (ru_pool r)) \<Longrightarrow>
    run_step early r (r\<lparr>ru_pool := pool_exec (EvReap now order :: string pool_event) (ru_pool r)\<rparr>)"
| cancel: "ru_exit r = None \<Longrightarrow> run_step early r (r\<lparr>ru_cancelled := True\<rparr>)"
| stop: "ru_exit r = None \<Longrightarrow> ru_cancelled r \<Longrightarrow> ru_closer r = WaitDone \<Longrightarrow> run_step early r (r\<lparr>ru_closer := Stopping\<rparr>)"
| stopped: "ru_exit r = None \<Longrightarrow> ru_closer r = Stopping \<Longrightarrow> set (ru_calls r) \<subseteq> {Returned} \<Longrightarrow>
    run_step early r (r\<lparr>ru_closer := Stopped\<rparr>)"
| close_pool: "ru_exit r = None \<Longrightarrow> ru_closer r = Stopped \<Longrightarrow> map_order order (pw_pool (ru_pool r)) \<Longrightarrow>
    run_step early r (r\<lparr>ru_pool := pool_exec (EvClose order :: string pool_event) (ru_pool r),
      ru_closer := PoolClosed (pool_stats_of (pw_pool (ru_pool r)))\<rparr>)"
| finish: "ru_exit r = None \<Longrightarrow> ru_closer r = PoolClosed s \<Longrightarrow> run_step early r (r\<lparr>ru_closer := Finished s\<rparr>)"
| serve_stopped: "ru_exit r = None \<Longrightarrow> ru_closer r \<noteq> WaitDone \<Longrightarrow> early \<or> ru_closer r \<noteq> Stopping \<Longrightarrow>
    run_step early r (r\<lparr>ru_exit := Some 0\<rparr>)"
| serve_failed: "ru_exit r = None \<Longrightarrow> run_step early r (r\<lparr>ru_exit := Some (if ru_cancelled r then 0 else 1)\<rparr>)"

inductive run_reach :: "bool \<Rightarrow> pool_config \<Rightarrow> sidecar_run \<Rightarrow> bool" for early cfg where
  start: "new_pool cfg False = (Inr p :: string pool_error + conn_pool) \<Longrightarrow> run_reach early cfg (run_start p)"
| step: "run_reach early cfg r \<Longrightarrow> run_step early r s \<Longrightarrow> run_reach early cfg s"

text \<open>
  The goroutines of the other components, when their function returns: a registration that fails cancels the
  context, an interception or ingress that fails does so if nothing else has, and the metrics server does
  unless it was closed. Their callbacks set the flags of the readiness endpoint.
\<close>

definition registration_ended :: "reg_error option \<Rightarrow> sidecar_run \<Rightarrow> sidecar_run" where
  "registration_ended err r = (if err \<noteq> None then r\<lparr>ru_cancelled := True\<rparr> else r)"

definition transparent_ended :: "'e option \<Rightarrow> sidecar_run \<Rightarrow> sidecar_run" where
  "transparent_ended err r = (if err \<noteq> None \<and> \<not> ru_cancelled r then r\<lparr>ru_cancelled := True\<rparr> else r)"

definition ingress_ended :: "'e option \<Rightarrow> sidecar_run \<Rightarrow> sidecar_run" where
  "ingress_ended err r = (if err \<noteq> None \<and> \<not> ru_cancelled r then r\<lparr>ru_cancelled := True\<rparr> else r)"

datatype serve_error = ServerClosed | ServeFailed string

definition metrics_ended :: "serve_error option \<Rightarrow> sidecar_run \<Rightarrow> sidecar_run" where
  "metrics_ended err r = (if err \<noteq> None \<and> err \<noteq> Some ServerClosed then r\<lparr>ru_cancelled := True\<rparr> else r)"

record ready_flags =
  control_ready :: bool
  registration_ready :: bool

definition on_snapshot :: "ready_flags \<Rightarrow> ready_flags" where
  "on_snapshot f = f\<lparr>control_ready := True\<rparr>"

definition on_registered :: "int \<Rightarrow> ready_flags \<Rightarrow> ready_flags" where
  "on_registered lease f = f\<lparr>registration_ready := True\<rparr>"

lemma component_ended:
  assumes "ru_exit r = None" "s \<in> {registration_ended re r, transparent_ended te r, ingress_ended ie r, metrics_ended me r}"
  shows "s = r \<or> run_step early r s"
  using assms cancel [OF assms(1)]
  by (auto simp: registration_ended_def transparent_ended_def ingress_ended_def metrics_ended_def split: if_splits)

section \<open>The invariant\<close>

fun dial_of :: "rpc \<Rightarrow> (string \<times> nat) multiset" where
  "dial_of (Dialing t a) = {#(t, a)#}"
| "dial_of _ = {#}"

definition dials_of :: "rpc list \<Rightarrow> (string \<times> nat) multiset" where
  "dials_of cs = sum_list (map dial_of cs)"

definition handles_held :: "(nat \<times> bool) list \<Rightarrow> rpc list \<Rightarrow> bool" where
  "handles_held hs cs \<longleftrightarrow>
     (\<forall>h < length hs. \<not> snd (hs ! h) \<longrightarrow> Leased h \<in> set cs) \<and> (\<forall>h. Leased h \<in> set cs \<longrightarrow> h < length hs)"

fun past_stop :: "closer \<Rightarrow> bool" where
  "past_stop WaitDone = False"
| "past_stop Stopping = False"
| "past_stop _ = True"

fun past_close :: "closer \<Rightarrow> bool" where
  "past_close (PoolClosed _) = True"
| "past_close (Finished _) = True"
| "past_close _ = False"

definition run_inv :: "pool_config \<Rightarrow> sidecar_run \<Rightarrow> bool" where
  "run_inv cfg r \<longleftrightarrow>
     pool_reach cfg (ru_pool r) \<and> pw_dials (ru_pool r) = dials_of (ru_calls r) \<and>
     handles_held (pw_handles (ru_pool r)) (ru_calls r) \<and>
     (p_closed (pw_pool (ru_pool r)) \<longleftrightarrow> past_close (ru_closer r)) \<and>
     (past_stop (ru_closer r) \<longrightarrow> set (ru_calls r) \<subseteq> {Returned}) \<and>
     (ru_closer r \<noteq> WaitDone \<longrightarrow> ru_cancelled r) \<and>
     (\<forall>c. ru_exit r = Some c \<longrightarrow> c = (if ru_cancelled r then 0 else 1)) \<and>
     (\<forall>s. ru_closer r = PoolClosed s \<or> ru_closer r = Finished s \<longrightarrow> st_active s = 0)"

lemma run_invD:
  assumes "run_inv cfg r"
  shows "pool_reach cfg (ru_pool r)" "pw_dials (ru_pool r) = dials_of (ru_calls r)"
    "handles_held (pw_handles (ru_pool r)) (ru_calls r)" "p_closed (pw_pool (ru_pool r)) \<longleftrightarrow> past_close (ru_closer r)"
    "past_stop (ru_closer r) \<Longrightarrow> set (ru_calls r) \<subseteq> {Returned}" "ru_closer r \<noteq> WaitDone \<Longrightarrow> ru_cancelled r"
    "ru_exit r = Some c \<Longrightarrow> c = (if ru_cancelled r then 0 else 1)"
    "ru_closer r = PoolClosed s \<or> ru_closer r = Finished s \<Longrightarrow> st_active s = 0"
  using assms by (auto simp: run_inv_def)

lemma dials_of_update:
  "i < length cs \<Longrightarrow> dials_of (cs[i := c]) + dial_of (cs ! i) = dials_of cs + dial_of c"
  by (induction cs arbitrary: i) (auto simp: dials_of_def nth_Cons add_ac split: nat.split)

lemma exec_closed:
  "p_closed (pw_pool (pool_exec ev w)) \<longleftrightarrow> p_closed (pw_pool w) \<or> (\<exists>order. ev = EvClose order)"
proof -
  have r: "p_closed (snd (fold (reap_target now) order s)) = p_closed (snd s)" for now order s
    by (induction order arbitrary: s) (auto simp: reap_target_def Let_def split: option.splits prod.splits)
  show ?thesis
  proof (cases ev)
    case (EvAcquire t cerr)
    then show ?thesis
      by (auto simp: acquire_enter_def ensure_target_def entry_use_def Let_def split: option.split prod.splits)
  next
    case (EvDialed t a cn err now)
    then show ?thesis by (auto simp: acquire_dialed_def Let_def split: option.splits prod.splits)
  next
    case (EvReap now order)
    then show ?thesis using r [of now order "([], pw_pool w)"] by (auto simp: reap_idle_def split: prod.splits)
  next
    case (EvClose order)
    then show ?thesis by (auto simp: close_pool_def Let_def split: prod.splits)
  qed (auto simp: release_entry_def Let_def split: prod.splits)
qed

lemma set_update_keeps: "x \<in> set xs \<Longrightarrow> x \<noteq> xs ! i \<Longrightarrow> x \<in> set (xs[i := y])"
  by (metis in_set_conv_nth length_list_update nth_list_update_neq)

text \<open>The RPC's step changes the tables of the pool as it changes the RPC.\<close>

definition tables_step :: "pool_world \<Rightarrow> rpc \<Rightarrow> rpc \<Rightarrow> pool_world \<Rightarrow> bool" where
  "tables_step w c d v \<longleftrightarrow>
     pw_dials v + dial_of c = pw_dials w + dial_of d \<and>
     (case (c, d) of
        (_, Leased h) \<Rightarrow> (\<forall>g. c \<noteq> Leased g) \<and> h = length (pw_handles w) \<and> (\<exists>e. pw_handles v = pw_handles w @ [(e, False)])
      | (Leased h, _) \<Rightarrow> (\<exists>e. pw_handles v = (pw_handles w)[h := (e, True)])
      | _ \<Rightarrow> pw_handles v = pw_handles w)"

lemma tables_held:
  assumes "tables_step w (cs ! i) d v" "i < length cs" "handles_held (pw_handles w) cs" "pw_dials w = dials_of cs"
  shows "handles_held (pw_handles v) (cs[i := d]) \<and> pw_dials v = dials_of (cs[i := d])"
proof
  have "pw_dials v + dial_of (cs ! i) = dials_of (cs[i := d]) + dial_of (cs ! i)"
    using assms dials_of_update by (simp add: tables_step_def)
  then show "pw_dials v = dials_of (cs[i := d])" by simp
  have mem: "Leased h \<in> set (cs[i := d])" if "Leased h \<in> set cs" "Leased h \<noteq> cs ! i" for h
    using set_update_keeps that by fast
  have d: "d \<in> set (cs[i := d])" using assms(2) by (simp add: set_update_memI)
  have sub: "x = d \<or> x \<in> set cs" if "x \<in> set (cs[i := d])" for x using that set_update_subset_insert by fastforce
  have old: "\<And>h. h < length (pw_handles w) \<Longrightarrow> \<not> snd (pw_handles w ! h) \<Longrightarrow> Leased h \<in> set cs"
      "\<And>h. Leased h \<in> set cs \<Longrightarrow> h < length (pw_handles w)"
    using assms(3) by (auto simp: handles_held_def)
  consider (got) h where "d = Leased h" | (gave) h where "cs ! i = Leased h" "\<forall>g. d \<noteq> Leased g"
    | (none) "\<forall>g. cs ! i \<noteq> Leased g" "\<forall>g. d \<noteq> Leased g" by blast
  then show "handles_held (pw_handles v) (cs[i := d])"
  proof cases
    case got
    then obtain e where v: "\<forall>g. cs ! i \<noteq> Leased g" "h = length (pw_handles w)" "pw_handles v = pw_handles w @ [(e, False)]"
      using assms(1) by (auto simp: tables_step_def split: rpc.splits)
    show ?thesis unfolding handles_held_def
    proof (intro conjI allI impI)
      fix g assume "g < length (pw_handles v)" "\<not> snd (pw_handles v ! g)"
      then show "Leased g \<in> set (cs[i := d])"
        using v(2,3) got d mem [of g] old(1) [of g] v(1) [rule_format, of g] by (cases "g = h") (auto simp: nth_append)
    next
      fix g assume "Leased g \<in> set (cs[i := d])"
      then show "g < length (pw_handles v)" using sub [of "Leased g"] old(2) [of g] v got by auto
    qed
  next
    case gave
    then obtain e where v: "pw_handles v = (pw_handles w)[h := (e, True)]"
      using assms(1) by (auto simp: tables_step_def split: rpc.splits)
    show ?thesis unfolding handles_held_def
    proof (intro conjI allI impI)
      fix g assume "g < length (pw_handles v)" "\<not> snd (pw_handles v ! g)"
      then show "Leased g \<in> set (cs[i := d])"
        using v gave mem [of g] old(1) [of g] by (cases "g = h") auto
    next
      fix g assume "Leased g \<in> set (cs[i := d])"
      then show "g < length (pw_handles v)" using sub [of "Leased g"] old(2) [of g] v gave by auto
    qed
  next
    case none
    then have "pw_handles v = pw_handles w" using assms(1) by (auto simp: tables_step_def split: rpc.splits)
    then show ?thesis using none old mem sub unfolding handles_held_def by metis
  qed
qed

lemma enter_tables:
  fixes cerr :: "string option"
  shows "tables_step w Running (after_enter t (fst (acquire_enter t cerr (pw_pool w))) w) (pool_exec (EvAcquire t cerr) w)"
  by (auto simp: tables_step_def after_enter_def Let_def split: prod.splits enter_result.splits)

lemma dialed_tables:
  fixes err :: "string option"
  assumes "(t, a) \<in># pw_dials w"
  shows "tables_step w (Dialing t a) (after_dial (fst (acquire_dialed t a cn err now (pw_pool w))) w) (pool_exec (EvDialed t a cn err now) w)"
proof -
  obtain r closed p where "acquire_dialed t a cn err now (pw_pool w) = (r, closed, p)" by (metis prod_cases3)
  then show ?thesis using assms by (cases r) (auto simp: tables_step_def after_dial_def)
qed

lemma release_tables:
  "h < length (pw_handles w) \<Longrightarrow> tables_step w (Leased h) Running (pool_exec (EvRelease h now :: string pool_event) w)"
  by (auto simp: tables_step_def Let_def split: prod.splits) (metis list_update_id)

lemma pool_event_reach:
  fixes ev :: "string pool_event"
  shows "run_inv cfg r \<Longrightarrow> event_ok ev (ru_pool r) \<Longrightarrow> pool_reach cfg (pool_exec ev (ru_pool r))"
  by (rule pool_reach.event [OF run_invD(1)])

text \<open>A step of one RPC that moves it from one state to another with an event of the pool.\<close>

lemma rpc_step_inv:
  fixes ev :: "string pool_event"
  assumes inv: "run_inv cfg r" and i: "i < length (ru_calls r)" "ru_calls r ! i \<noteq> Returned"
    and ev: "event_ok ev (ru_pool r)" "\<forall>order. ev \<noteq> EvClose order"
    and step: "tables_step (ru_pool r) (ru_calls r ! i) d (pool_exec ev (ru_pool r))"
  shows "run_inv cfg (r\<lparr>ru_pool := pool_exec ev (ru_pool r), ru_calls := (ru_calls r)[i := d]\<rparr>)"
proof -
  note I = run_invD [OF inv]
  have "\<not> past_stop (ru_closer r)" using I(5) i nth_mem by blast
  moreover have "p_closed (pw_pool (pool_exec ev (ru_pool r))) \<longleftrightarrow> past_close (ru_closer r)"
    using exec_closed [of ev "ru_pool r"] ev(2) I(4) by blast
  ultimately show ?thesis
    using pool_event_reach [OF inv ev(1)] tables_held [OF step i(1) I(3,2)] I(6-8) by (simp add: run_inv_def)
qed

lemma past_close_stop: "past_close c \<Longrightarrow> past_stop c" by (cases c) auto

text \<open>Without a lease no connection counts as active.\<close>

lemma released_handles:
  assumes "handles_held hs cs" "set cs \<subseteq> {Returned}" "(e, b) \<in> set hs"
  shows b
proof -
  obtain h where "h < length hs" "hs ! h = (e, b)" using assms(3) by (metis in_set_conv_nth)
  then show b using assms(1,2) unfolding handles_held_def by fastforce
qed

lemma stats_inactive:
  assumes "world_inv w" "\<forall>(e, b) \<in> set (pw_handles w). b"
  shows "st_active (pool_stats_of (pw_pool w)) = 0"
proof -
  let ?p = "pw_pool w"
  note I = world_invD [OF assms(1)]
  have zero: "pe_active (p_heap ?p ! i) = 0" if "i < length (p_heap ?p)" for i
  proof -
    have "outstanding (pw_handles w) i = 0"
      using assms(2) unfolding outstanding_def by (auto simp: filter_empty_conv)
    then show ?thesis using I(6) that unfolding active_inv_def by simp
  qed
  have entries: "st_active (fold (stats_entry (p_heap ?p)) es s) = st_active s" if "set es \<subseteq> {..<length (p_heap ?p)}" for es s
    using that by (induction es arbitrary: s) (auto simp: stats_entry_def zero)
  have "set (tp_entries (p_tps ?p ! a)) \<subseteq> {..<length (p_heap ?p)}" if "(t, a) \<in> set (p_targets ?p)" for t a
  proof -
    have "gm_get (p_targets ?p) t = Some a" using that I(2) by (auto simp: targets_inv_def gm_wf_def gm_get_def)
    then show ?thesis using target_owner(1) [OF assms(1)] I(3) by (auto simp: tps_inv_def)
  qed
  then have "st_active (fold (\<lambda>(_, a). fold (stats_entry (p_heap ?p)) (tp_entries (p_tps ?p ! a))) ts s) = st_active s"
    if "set ts \<subseteq> set (p_targets ?p)" for ts s
    using that by (induction ts arbitrary: s) (auto simp: entries)
  then show ?thesis by (simp add: pool_stats_of_def)
qed

lemma run_step_inv: "run_step early r s \<Longrightarrow> run_inv cfg r \<Longrightarrow> run_inv cfg s"
proof (induction rule: run_step.induct)
  case (begin_rpc r)
  note I = run_invD [OF begin_rpc(3)]
  show ?case using I(1,2,4) I(3) begin_rpc(1,2) by (auto simp: run_inv_def dials_of_def handles_held_def)
next
  case (enter r i t cerr)
  then show ?case using rpc_step_inv [OF enter(4,2), of "EvAcquire t cerr"] enter_tables by simp
next
  case (dialed r i t a cn err now)
  then show ?case using rpc_step_inv [OF dialed(5,2) _ dialed(4)] dialed_tables by simp
next
  case (release r i h now)
  have "h < length (pw_handles (ru_pool r))"
    using run_invD(3) [OF release(4)] release(2,3) nth_mem unfolding handles_held_def by metis
  then show ?case using rpc_step_inv [OF release(4,2), of "EvRelease h now"] release_tables release(3) by simp
next
  case (return_rpc r i)
  note I = run_invD [OF return_rpc(4)]
  have "tables_step (ru_pool r) (ru_calls r ! i) Returned (ru_pool r)" using return_rpc(3) by (simp add: tables_step_def)
  moreover have "past_stop (ru_closer r) \<Longrightarrow> False" using I(5) return_rpc(2,3) nth_mem by fastforce
  ultimately show ?case using I tables_held [of "ru_pool r" "ru_calls r" i Returned "ru_pool r"] return_rpc(1,2)
    by (auto simp: run_inv_def)
next
  case (reap r order now)
  note I = run_invD [OF reap(3)]
  have "pw_dials (pool_exec (EvReap now order :: string pool_event) (ru_pool r)) = pw_dials (ru_pool r)"
    "pw_handles (pool_exec (EvReap now order :: string pool_event) (ru_pool r)) = pw_handles (ru_pool r)"
    by (auto split: prod.splits)
  then show ?case
    using I pool_event_reach [OF reap(3), of "EvReap now order"] exec_closed [of "EvReap now order :: string pool_event" "ru_pool r"] reap(1,2)
    by (simp add: run_inv_def del: pool_exec.simps)
next
  case (close_pool r order)
  note I = run_invD [OF close_pool(4)]
  have "set (ru_calls r) \<subseteq> {Returned}" using I(5) close_pool(2) by simp
  then have "st_active (pool_stats_of (pw_pool (ru_pool r))) = 0"
    using stats_inactive [OF reach_inv [OF I(1)]] released_handles [OF I(3)] by blast
  moreover
  have "pw_dials (pool_exec (EvClose order :: string pool_event) (ru_pool r)) = pw_dials (ru_pool r)"
    "pw_handles (pool_exec (EvClose order :: string pool_event) (ru_pool r)) = pw_handles (ru_pool r)"
    by (auto split: prod.splits)
  ultimately show ?case
    using I pool_event_reach [OF close_pool(4), of "EvClose order"] close_pool(1-3)
      exec_closed [of "EvClose order :: string pool_event" "ru_pool r"] by (simp add: run_inv_def del: pool_exec.simps)
qed (auto simp: run_inv_def)

lemma run_reach_inv: "run_reach early cfg r \<Longrightarrow> run_inv cfg r"
proof (induction rule: run_reach.induct)
  case (start p)
  then show ?case using pool_reach.start [OF start]
    by (auto simp: run_inv_def run_start_def pool_start_def dials_of_def handles_held_def new_pool_def)
qed (rule run_step_inv)

text \<open>The two lists of codes among the defaults.\<close>

lemma default_codes:
  "parse_grpc_codes ''unavailable,resource_exhausted,internal'' =
     Inr [(CodeUnavailable, True), (CodeResourceExhausted, True), (CodeInternal, True)]"
  "parse_grpc_codes ''unavailable,resource_exhausted,internal,deadline_exceeded'' =
     Inr [(CodeUnavailable, True), (CodeResourceExhausted, True), (CodeInternal, True), (CodeDeadlineExceeded, True)]"
  by (simp_all add: parse_grpc_codes_def trim_space_plain plain_def lower_name_ascii to_lower_def code_of_name_def gm_set_def)

lemma default_limiter:
  "start_limiter default_flags en = Inr (Some \<lparr>default_bucket = None, service_buckets = [], route_buckets = []\<rparr>)"
  by (simp add: start_limiter_def default_flags_def parse_named_rate_rules_def new_local_rate_limiter_def)

lemma default_ingress: "start_ingress default_flags en = Inr None"
  by (simp add: start_ingress_def security_configured_def default_flags_def)

lemma default_pool:
  "\<exists>p. new_grpc_pool (pool_settings default_flags en) = Inr p \<and> max_conns (p_cfg p) = 2 \<and>
     gp_credentials (pool_settings default_flags en) = None"
  by (simp add: new_grpc_pool_def new_pool_def pool_normalized_def core_config_def pool_settings_def default_flags_def
      security_configured_def Let_def)

lemma default_server:
  fixes retry failure
  defines "cfg \<equiv> normalize_server_config (server_settings default_flags retry failure)"
  shows "sc_timeout cfg = 2 * second" "pol_attempts (sc_retry cfg) = 3" "pol_codes (sc_retry cfg) = Some retry"
    "sc_failure_codes cfg = Some failure"
  by (simp_all add: cfg_def normalize_server_config_def server_settings_def default_flags_def Let_def)

section \<open>Properties\<close>

text \<open>
  C3: graceful shutdown. In every interleaving of the RPCs, the reaper, the closing goroutine and the main
  goroutine, the pool is open as long as an RPC has not returned, so no request loses its connection or
  is refused by a closed pool. Once the pool is closed every dial has ended, every handle has been released,
  every connection ever opened has been closed exactly once, and the final statistics that were logged showed no active connection. The process
  exits with 0 if its context was cancelled and with 1 otherwise.
\<close>

theorem graceful_shutdown:
  assumes "run_reach early cfg r"
  shows "(\<not> set (ru_calls r) \<subseteq> {Returned} \<longrightarrow> \<not> p_closed (pw_pool (ru_pool r))) \<and>
    (p_closed (pw_pool (ru_pool r)) \<longrightarrow>
       pw_dials (ru_pool r) = {#} \<and> (\<forall>(e, released) \<in> set (pw_handles (ru_pool r)). released) \<and>
       filter_mset (\<lambda>c. c \<noteq> NilPtr) (pw_shut (ru_pool r)) = pw_opened (ru_pool r) \<and> (\<forall>c. count (pw_opened (ru_pool r)) c \<le> 1)) \<and>
    (\<forall>s. ru_closer r = PoolClosed s \<or> ru_closer r = Finished s \<longrightarrow> p_closed (pw_pool (ru_pool r)) \<and> st_active s = 0) \<and>
    (\<forall>c. ru_exit r = Some c \<longrightarrow> c = (if ru_cancelled r then 0 else 1))"
proof (intro conjI impI allI)
  note I = run_invD [OF run_reach_inv [OF assms]]
  note inv = reach_inv [OF I(1)]
  {
    assume "\<not> set (ru_calls r) \<subseteq> {Returned}"
    then show "\<not> p_closed (pw_pool (ru_pool r))" using I(4,5) past_close_stop by blast
  next
    assume closed: "p_closed (pw_pool (ru_pool r))"
    then have returned: "set (ru_calls r) \<subseteq> {Returned}" using I(4,5) past_close_stop by blast
    then have "dials_of cs = {#}" if "set cs \<subseteq> set (ru_calls r)" for cs
      using that by (induction cs) (auto simp: dials_of_def)
    then show "pw_dials (ru_pool r) = {#}" using I(2) by simp
    show "\<forall>(e, released) \<in> set (pw_handles (ru_pool r)). released" using released_handles [OF I(3) returned] by blast
    have c: "filter_mset (\<lambda>c. c \<noteq> NilPtr) (pw_shut (ru_pool r)) + open_conns (p_heap (pw_pool (ru_pool r))) = pw_opened (ru_pool r)"
      "\<forall>c. count (pw_opened (ru_pool r)) c \<le> 1" using world_invD(7) [OF inv] by (auto simp: conns_inv_def)
    show "filter_mset (\<lambda>c. c \<noteq> NilPtr) (pw_shut (ru_pool r)) = pw_opened (ru_pool r)"
      using c(1) all_closing [OF inv closed] by simp
    show "count (pw_opened (ru_pool r)) x \<le> 1" for x using c(2) by blast
  next
    fix s assume "ru_closer r = PoolClosed s \<or> ru_closer r = Finished s"
    then show "p_closed (pw_pool (ru_pool r))" "st_active s = 0" using I(4,8) by auto
  next
    fix c assume "ru_exit r = Some c"
    then show "c = (if ru_cancelled r then 0 else 1)" by (rule I(7))
  }
qed

text \<open>A run with one RPC, which dials a connection, releases it and returns; then the sidecar is told to stop.\<close>

definition idle_pool :: pool_world where
  "idle_pool = pool_exec (EvRelease 0 5 :: string pool_event) demo_held"

definition served_one :: sidecar_run where
  "served_one = \<lparr>ru_pool = idle_pool, ru_calls = [Returned], ru_cancelled = True, ru_closer = Stopped, ru_exit = None\<rparr>"

lemma served_one_reach: "run_reach early demo_pool_cfg served_one"
proof -
  let ?r = "\<lambda>w cs. \<lparr>ru_pool = w, ru_calls = cs, ru_cancelled = False, ru_closer = WaitDone, ru_exit = None\<rparr>"
  have "run_reach early demo_pool_cfg (?r demo_start [])"
    using run_reach.start [of demo_pool_cfg _ early]
    by (simp add: new_pool_def run_start_def demo_start_def pool_normalized_def demo_pool_cfg_def Let_def)
  from run_reach.step [OF this begin_rpc]
  have "run_reach early demo_pool_cfg (?r demo_start [Running])" by simp
  from run_reach.step [OF this enter [where i = 0 and t = "''h''" and cerr = None]]
  have "run_reach early demo_pool_cfg (?r demo_dialing [Dialing ''h'' 0])"
    by (simp add: demo_dialing_def [symmetric] del: pool_exec.simps) (simp add: demo_pool_defs after_enter_def)
  from run_reach.step [OF this dialed [where i = 0 and t = "''h''" and a = 0 and cn = "ConnPtr 7" and err = None and now = 3]]
  have "run_reach early demo_pool_cfg (?r demo_held [Leased 0])"
    by (simp add: demo_held_def [symmetric] del: pool_exec.simps)
      (simp add: demo_dialing_eq acquire_dialed_def gm_get_Cons Let_def after_dial_def)
  from run_reach.step [OF this release [where i = 0 and h = 0 and now = 5]]
  have "run_reach early demo_pool_cfg (?r idle_pool [Running])" by (simp add: idle_pool_def del: pool_exec.simps)
  from run_reach.step [OF this return_rpc [where i = 0]]
  have "run_reach early demo_pool_cfg (?r idle_pool [Returned])" by simp
  from run_reach.step [OF this cancel]
  have "run_reach early demo_pool_cfg ((?r idle_pool [Returned])\<lparr>ru_cancelled := True\<rparr>)" by simp
  from run_reach.step [OF this stop]
  have "run_reach early demo_pool_cfg ((?r idle_pool [Returned])\<lparr>ru_cancelled := True, ru_closer := Stopping\<rparr>)" by simp
  from run_reach.step [OF this stopped] show ?thesis by (simp add: served_one_def)
qed

lemma idle_pool_eq:
  "idle_pool = \<lparr>pw_pool = \<lparr>p_cfg = demo_pool_cfg, p_targets = [(''h'', 0)], p_created = 1, p_closed = False,
       p_heap = [\<lparr>pe_conn = ConnPtr 7, pe_active = 0, pe_last = 5, pe_closing = False\<rparr>],
       p_tps = [\<lparr>tp_entries = [0], tp_creating = 0\<rparr>]\<rparr>, pw_handles = [(0, True)], pw_dials = {#}, pw_waiting = {#},
     pw_opened = {#ConnPtr 7#}, pw_shut = {#}\<rparr>"
  by (simp add: idle_pool_def demo_held_eq release_entry_def Let_def)

theorem graceful_shutdown_witness:
  "\<exists>r. run_reach False demo_pool_cfg r \<and> p_closed (pw_pool (ru_pool r)) \<and>
     filter_mset (\<lambda>c. c \<noteq> NilPtr) (pw_shut (ru_pool r)) = pw_opened (ru_pool r)"
proof -
  have "map_order [''h''] (pw_pool (ru_pool served_one))" by (simp add: served_one_def idle_pool_eq map_order_def)
  from run_reach.step [OF served_one_reach run_step.close_pool [OF _ _ this]]
  obtain r s where r: "run_reach False demo_pool_cfg r" "ru_closer r = PoolClosed s"
    by (fastforce simp: served_one_def)
  then show ?thesis using graceful_shutdown [OF r(1)] by blast
qed

text \<open>
  The main goroutine does not wait for the closing one: as soon as \<open>GracefulStop\<close> returns, \<open>Serve\<close>
  returns too and the process may exit while the connections are still open and before the final statistics are
  logged, whether or not \<open>Serve\<close> waits for the RPCs.
\<close>

theorem shutdown_cut_short:
  "\<exists>r. run_reach early demo_pool_cfg r \<and> ru_exit r = Some 0 \<and> ru_closer r = Stopped \<and>
     \<not> p_closed (pw_pool (ru_pool r)) \<and> pw_opened (ru_pool r) = {#ConnPtr 7#} \<and> pw_shut (ru_pool r) = {#}"
proof (intro exI conjI)
  show "run_reach early demo_pool_cfg (served_one\<lparr>ru_exit := Some 0\<rparr>)"
    by (rule run_reach.step [OF served_one_reach serve_stopped]) (simp_all add: served_one_def)
qed (simp_all add: served_one_def idle_pool_eq)

text \<open>
  The defaults. Started without flags, the sidecar needs only its listener: it exits with 2 if tracing
  cannot be configured and with 1 if the port is taken, and otherwise runs with no registration, no
  interception, no mTLS and no rate limit (its limiter admits everything), with a pool of two connections per target, circuit
  breakers, at most three attempts within two seconds, and retries exactly for Unavailable,
  ResourceExhausted and Internal; the breakers count DeadlineExceeded as well.
\<close>

theorem default_sidecar:
  "(\<not> en_tracer_ok en \<longrightarrow> sidecar_start default_flags en = Inl 2) \<and>
   (en_tracer_ok en \<longrightarrow> \<not> en_listen en ''tcp'' '':18080'' \<longrightarrow> sidecar_start default_flags en = Inl 1) \<and>
   (en_tracer_ok en \<longrightarrow> en_listen en ''tcp'' '':18080'' \<longrightarrow>
     (\<exists>sd. sidecar_start default_flags en = Inr sd \<and> sd_id sd = '':18080'' \<and> sd_registration sd = None \<and>
        \<not> sd_transparent sd \<and> sd_ingress sd = None \<and> sd_breakers sd \<noteq> None \<and>
        (\<forall>svc method now. fst (limiter_allow svc method now (sd_limiter sd))) \<and>
        sc_timeout (sd_server sd) = 2 * second \<and> pol_attempts (sc_retry (sd_server sd)) = 3 \<and>
        (\<forall>e. is_retryable (sd_server sd) (Some e) \<longleftrightarrow>
           status_code (Some e) \<in> {CodeUnavailable, CodeResourceExhausted, CodeInternal}) \<and>
        (\<forall>e. is_circuit_failure (sd_server sd) (Some e) \<longleftrightarrow>
           status_code (Some e) \<in> {CodeUnavailable, CodeResourceExhausted, CodeInternal, CodeDeadlineExceeded}) \<and>
        (\<exists>cfg p. sd_pool sd = Some (cfg, p) \<and> max_conns (p_cfg p) = 2 \<and> gp_credentials cfg = None)))"
proof (intro conjI impI)
  assume en: "en_tracer_ok en" "en_listen en ''tcp'' '':18080''"
  obtain p where p: "new_grpc_pool (pool_settings default_flags en) = Inr p" "max_conns (p_cfg p) = 2"
    "gp_credentials (pool_settings default_flags en) = None" using default_pool by blast
  let ?retry = "[(CodeUnavailable, True), (CodeResourceExhausted, True), (CodeInternal, True)]"
  let ?failure = "[(CodeUnavailable, True), (CodeResourceExhausted, True), (CodeInternal, True), (CodeDeadlineExceeded, True)]"
  let ?sd = "\<lparr>sd_id = '':18080'', sd_registration = None, sd_readiness = split_services [], sd_transparent = False, sd_ingress = None,
    sd_resolver = projr (new_resolver False RoundRobin),
    sd_server = normalize_server_config (server_settings default_flags ?retry ?failure),
    sd_budget = new_budget (fl_budget default_flags) (en_now en), sd_breakers = Some (new_breaker_set (fl_circuit_cfg default_flags)),
    sd_limiter = Some \<lparr>default_bucket = None, service_buckets = [], route_buckets = []\<rparr>,
    sd_pool = Some (pool_settings default_flags en, p)\<rparr>"
  have fl: "fl_listen default_flags = '':18080''" "fl_transparent default_flags = []" "fl_lb default_flags = ''round_robin''"
    "fl_use_pool default_flags" "fl_circuit default_flags" "fl_readiness default_flags = []"
    "fl_retry_codes default_flags = ''unavailable,resource_exhausted,internal''"
    "fl_circuit_codes default_flags = ''unavailable,resource_exhausted,internal,deadline_exceeded''"
    "sidecar_id default_flags = '':18080''" "registration_config default_flags = None"
    by (simp_all add: default_flags_def sidecar_id_def registration_config_def)
  have "sidecar_start default_flags en = Inr ?sd"
    by (simp add: sidecar_start_def fl en default_ingress default_limiter default_codes parse_retryable_codes_def p
        algorithm_of_def new_resolver_def new_picker_def)
  then show "\<exists>sd. sidecar_start default_flags en = Inr sd \<and> sd_id sd = '':18080'' \<and> sd_registration sd = None \<and>
        \<not> sd_transparent sd \<and> sd_ingress sd = None \<and> sd_breakers sd \<noteq> None \<and>
        (\<forall>svc method now. fst (limiter_allow svc method now (sd_limiter sd))) \<and>
        sc_timeout (sd_server sd) = 2 * second \<and> pol_attempts (sc_retry (sd_server sd)) = 3 \<and>
        (\<forall>e. is_retryable (sd_server sd) (Some e) \<longleftrightarrow>
           status_code (Some e) \<in> {CodeUnavailable, CodeResourceExhausted, CodeInternal}) \<and>
        (\<forall>e. is_circuit_failure (sd_server sd) (Some e) \<longleftrightarrow>
           status_code (Some e) \<in> {CodeUnavailable, CodeResourceExhausted, CodeInternal, CodeDeadlineExceeded}) \<and>
        (\<exists>cfg p. sd_pool sd = Some (cfg, p) \<and> max_conns (p_cfg p) = 2 \<and> gp_credentials cfg = None)"
    
    by (intro exI [of _ ?sd]) (auto simp: default_server p is_retryable_def is_circuit_failure_def code_set_def gm_get_Cons limiter_allow_def)
qed (simp_all add: sidecar_start_def default_flags_def)

theorem default_sidecar_witness:
  "\<exists>sd. sidecar_start default_flags sample_env = Inr sd \<and> sd_ingress sd = None \<and>
     \<not> is_retryable (sd_server sd) (Some (StatusErr CodeDeadlineExceeded (Text [])))"
proof -
  have "en_tracer_ok sample_env" "en_listen sample_env ''tcp'' '':18080''" by (simp_all add: sample_env_def)
  then obtain sd where "sidecar_start default_flags sample_env = Inr sd" "sd_ingress sd = None"
    "\<forall>e. is_retryable (sd_server sd) (Some e) \<longleftrightarrow> status_code (Some e) \<in> {CodeUnavailable, CodeResourceExhausted, CodeInternal}"
    using default_sidecar [of sample_env] by blast
  then show ?thesis by (auto simp: status_code_def)
qed

end
