(* ===== verification/Fault_Injection.thy ===== *)
theory Fault_Injection
  imports Proxy Registration
begin

text \<open>
  \<^verbatim>\<open>examples/go/faulty-echo-server\<close>: the backend of the fault-injection demos. In percentage mode it
  fails a fixed share of its requests by a counter instead of by chance; the theorems say how evenly.
  The counter is an \<open>atomic.Uint64\<close>, so concurrent calls draw their numbers one after the other, and
  the multiplication in \<open>percentageFailure\<close> is modulo \<^term>\<open>2 ^ 64 :: nat\<close>.
\<close>

section \<open>The server\<close>

record faulty_server =
  fs_id :: string
  fs_mode :: string
  fs_delay :: int
  fs_percent :: int
  fs_requests :: "64 word"

definition percentage_failure :: "64 word \<Rightarrow> int \<Rightarrow> bool" where
  "percentage_failure request percentage = (sint ((request * word_of_int percentage) mod 100) < percentage)"

text \<open>The bytes of a string, and \<open>GetData\<close>, which answers nil for a nil payload.\<close>

definition string_bytes :: "string \<Rightarrow> 8 word list" where
  "string_bytes s = map of_char s"

definition get_data :: "payload option \<Rightarrow> 8 word list" where
  "get_data p = (case p of None \<Rightarrow> [] | Some q \<Rightarrow> pl_data q)"

definition faulty_reply :: "faulty_server \<Rightarrow> payload option \<Rightarrow> payload" where
  "faulty_reply s p = \<lparr>pl_data = string_bytes (''echo@'' @ fs_id s @ '':'') @ get_data p\<rparr>"

text \<open>
  \<open>Echo\<close> of a call that starts at \<open>now\<close>: its result, when it returns, and the server afterwards.
\<close>

definition faulty_echo ::
  "go_context \<Rightarrow> (int \<Rightarrow> bool) \<Rightarrow> int \<Rightarrow> payload option \<Rightarrow> faulty_server \<Rightarrow> (go_error + payload) \<times> int \<times> faulty_server" where
  "faulty_echo ctx tie now p s =
     (if fs_mode s = ''internal'' then (Inl (StatusErr CodeInternal (Text ''injected backend 500/internal error'')), now, s)
      else if fs_mode s = ''unavailable'' then (Inl (StatusErr CodeUnavailable (Text ''injected temporary unavailable'')), now, s)
      else if fs_mode s = ''percentage''
      then (let s' = s\<lparr>fs_requests := fs_requests s + 1\<rparr>
            in if percentage_failure (fs_requests s' - 1) (fs_percent s)
               then (Inl (StatusErr CodeInternal (Text (''injected deterministic failure '' @ itoa (fs_percent s) @ ''%''))), now, s')
               else (Inr (faulty_reply s p), now, s'))
      else if fs_mode s = ''timeout''
      then (case select_ctx ctx tie (now + max 0 (fs_delay s)) now of
              (True, t) \<Rightarrow> (Inl (from_context_error (done_err ctx)), t, s)
            | (False, t) \<Rightarrow> (Inr (faulty_reply s p), t, s))
      else (Inr (faulty_reply s p), now, s))"

text \<open>The command: a percentage outside its range and a port that cannot be opened are refused.\<close>

definition faulty_main :: "bool \<Rightarrow> string \<Rightarrow> string \<Rightarrow> int \<Rightarrow> int \<Rightarrow> int + faulty_server" where
  "faulty_main listens instance_id mode delay percent =
     (if percent < 0 \<or> 100 < percent then Inl 2
      else if \<not> listens then Inl 1
      else Inr \<lparr>fs_id = instance_id, fs_mode = mode, fs_delay = delay, fs_percent = percent, fs_requests = 0\<rparr>)"

text \<open>A sequence of calls, in the order in which they draw their numbers.\<close>

fun faulty_calls ::
  "(go_context \<times> (int \<Rightarrow> bool) \<times> int \<times> payload option) list \<Rightarrow> faulty_server \<Rightarrow> (go_error + payload) list \<times> faulty_server" where
  "faulty_calls [] s = ([], s)"
| "faulty_calls ((ctx, tie, now, p) # cs) s =
     (let (r, _, s) = faulty_echo ctx tie now p s; (rs, s) = faulty_calls cs s in (r # rs, s))"

section \<open>Lemmas\<close>

text \<open>Without overflow the test compares a residue: the request that carries the running share over a multiple of 100 fails.\<close>

lemma percentage_failure_residue:
  assumes "0 \<le> p" "p \<le> 100" "int a * p < 2 ^ 64"
  shows "percentage_failure (of_nat a) p \<longleftrightarrow> (int a * p) mod 100 < p"
proof -
  have "of_nat a * word_of_int p = (word_of_int (int a * p) :: 64 word)" by simp
  moreover have "uint (word_of_int (int a * p) :: 64 word) = int a * p"
    unfolding uint_word_of_int using assms by (simp add: mod_pos_pos_trivial)
  ultimately have u: "uint ((of_nat a * word_of_int p :: 64 word) mod 100) = (int a * p) mod 100"
    by (simp add: uint_mod)
  then have "uint ((of_nat a * word_of_int p :: 64 word) mod 100) < 2 ^ 63" by (simp add: pos_mod_bound)
  then have "sint ((of_nat a * word_of_int p :: 64 word) mod 100) = (int a * p) mod 100"
    using u by (simp add: sint_uint signed_take_bit_int_eq_self)
  then show ?thesis by (simp add: percentage_failure_def)
qed

lemma residue_carry:
  fixes r p :: int
  assumes "0 \<le> p" "p \<le> 100"
  shows "(r * p) div 100 = ((r - 1) * p) div 100 + (if (r * p) mod 100 < p then 1 else 0)"
proof -
  define q m where "q = (r * p) div 100" and "m = (r * p) mod 100"
  have rp: "r * p = 100 * q + m" "0 \<le> m" "m < 100" by (simp_all add: q_def m_def)
  have prev: "(r - 1) * p = 100 * q + (m - p)" using rp(1) by (simp add: algebra_simps)
  show ?thesis
  proof (cases "m < p")
    case True
    have "(r - 1) * p = 100 * (q - 1) + (m - p + 100)" using prev by simp
    moreover have "(m - p + 100) div 100 = 0" using True rp assms by (intro div_pos_pos_trivial) auto
    ultimately have "((r - 1) * p) div 100 = q - 1" by (metis add.commute add.right_neutral div_mult_self4 numeral_neq_zero)
    then show ?thesis using True by (simp add: q_def m_def)
  next
    case False
    have "(m - p) div 100 = 0" using False rp assms by (intro div_pos_pos_trivial) auto
    then have "((r - 1) * p) div 100 = q" using prev by (metis add.commute add.right_neutral div_mult_self4 numeral_neq_zero)
    then show ?thesis using False by (simp add: q_def m_def)
  qed
qed

lemma faulty_echo_keep:
  "faulty_echo ctx tie now p s = (r, t, s') \<Longrightarrow> fs_percent s' = fs_percent s \<and> fs_mode s' = fs_mode s"
  by (auto simp: faulty_echo_def Let_def split: if_splits prod.splits bool.splits)

lemma faulty_calls_keep:
  "faulty_calls xs s = (ys, s') \<Longrightarrow> fs_percent s' = fs_percent s \<and> fs_mode s' = fs_mode s"
proof (induction xs arbitrary: s ys)
  case (Cons c cs)
  obtain ctx tie now p where c: "c = (ctx, tie, now, p)" by (metis prod_cases4)
  obtain r t s1 where e: "faulty_echo ctx tie now p s = (r, t, s1)" by (metis prod_cases3)
  obtain rs where "faulty_calls cs s1 = (rs, s')" using Cons.prems c e by (auto split: prod.splits)
  from Cons.IH [OF this] faulty_echo_keep [OF e] show ?case by simp
qed simp

lemma faulty_calls_failures:
  assumes "0 \<le> fs_percent s" "fs_percent s \<le> 100" "fs_mode s = ''percentage''" "fs_requests s = of_nat a"
    and "int (a + length cs) * 100 < 2 ^ 64" "faulty_calls cs s = (rs, s')"
  shows "int (length (filter isl rs)) =
      ((int a + int (length cs) - 1) * fs_percent s) div 100 - ((int a - 1) * fs_percent s) div 100 \<and>
    length rs = length cs \<and> fs_requests s' = of_nat (a + length cs) \<and>
    (\<forall>r \<in> set rs. \<forall>e. r = Inl e \<longrightarrow> status_code (Some e) = CodeInternal)"
  using assms
proof (induction cs arbitrary: s a rs)
  case (Cons c cs)
  obtain ctx tie now p where c: "c = (ctx, tie, now, p)" by (metis prod_cases4)
  obtain r t s1 where e: "faulty_echo ctx tie now p s = (r, t, s1)" by (metis prod_cases3)
  obtain rs1 where rs1: "faulty_calls cs s1 = (rs1, s')" "rs = r # rs1"
    using Cons.prems(6) c e by (auto split: prod.splits)
  have s1: "s1 = s\<lparr>fs_requests := of_nat (Suc a)\<rparr>" "isl r \<longleftrightarrow> percentage_failure (of_nat a) (fs_percent s)"
      "\<forall>x. r = Inl x \<longrightarrow> status_code (Some x) = CodeInternal"
    using e Cons.prems(3,4) by (auto simp: faulty_echo_def Let_def status_code_def split: if_splits)
  have "int a * fs_percent s \<le> int a * 100" using Cons.prems(2) by (intro mult_left_mono) auto
  also have "\<dots> < 2 ^ 64" using Cons.prems(5) by simp
  finally have fail: "isl r \<longleftrightarrow> (int a * fs_percent s) mod 100 < fs_percent s"
    using percentage_failure_residue Cons.prems(1,2) s1(2) by simp
  have IH: "int (length (filter isl rs1)) =
        ((int (Suc a) + int (length cs) - 1) * fs_percent s) div 100 - ((int (Suc a) - 1) * fs_percent s) div 100 \<and>
      length rs1 = length cs \<and> fs_requests s' = of_nat (Suc a + length cs) \<and>
      (\<forall>r \<in> set rs1. \<forall>e. r = Inl e \<longrightarrow> status_code (Some e) = CodeInternal)"
    using Cons.IH [of s1 "Suc a" rs1] Cons.prems rs1(1) s1(1) by simp
  show ?case using IH rs1(2) fail s1(3) residue_carry [OF Cons.prems(1,2), of "int a"] by auto
qed simp

section \<open>Properties\<close>

text \<open>
  C40: failures are spread evenly. In percentage mode, among any \<open>n\<close> consecutive requests the number of
  injected failures differs from \<open>n * percent / 100\<close> by less than one, so it is exact whenever that
  quotient is whole: 8 of any 10 requests at 80 percent, as the code's comment says. Every injected
  error is Internal. The bound on the counter excludes the wrap-around of the 64-bit product.
\<close>

theorem percentage_balanced:
  assumes "faulty_main True i ''percentage'' d percent = Inr s0"
    and "faulty_calls before s0 = (rs0, s)" "faulty_calls cs s = (rs, s')"
    and "int (length before + length cs) * 100 < 2 ^ 64"
  shows "\<bar>100 * int (length (filter isl rs)) - int (length cs) * percent\<bar> < 100 \<and>
    (100 dvd int (length cs) * percent \<longrightarrow> 100 * int (length (filter isl rs)) = int (length cs) * percent) \<and>
    (\<forall>r \<in> set rs. \<forall>e. r = Inl e \<longrightarrow> status_code (Some e) = CodeInternal)"
proof -
  let ?a = "length before" and ?n = "length cs"
  have p: "0 \<le> percent" "percent \<le> 100" and s0: "fs_percent s0 = percent" "fs_mode s0 = ''percentage''" "fs_requests s0 = of_nat 0"
    using assms(1) by (auto simp: faulty_main_def split: if_splits)
  have "int ?a * 100 < 2 ^ 64" using assms(4) by simp
  from faulty_calls_failures [of s0 0 before, OF _ _ s0(2,3) _ assms(2)] this p s0
  have s: "fs_requests s = of_nat ?a" "fs_percent s = percent" "fs_mode s = ''percentage''"
    using faulty_calls_keep [OF assms(2)] by simp_all
  from faulty_calls_failures [of s ?a cs, OF _ _ s(3,1) _ assms(3)] p s(2) assms(4)
  have count: "int (length (filter isl rs)) = ((int ?a + int ?n - 1) * percent) div 100 - ((int ?a - 1) * percent) div 100"
    and errs: "\<forall>r \<in> set rs. \<forall>e. r = Inl e \<longrightarrow> status_code (Some e) = CodeInternal" by simp_all
  let ?hi = "(int ?a + int ?n - 1) * percent" and ?lo = "(int ?a - 1) * percent"
  have diff: "?hi - ?lo = int ?n * percent" by (simp add: algebra_simps)
  have hi: "?hi = 100 * (?hi div 100) + ?hi mod 100" and lo: "?lo = 100 * (?lo div 100) + ?lo mod 100" by simp_all
  have err: "100 * int (length (filter isl rs)) - int ?n * percent = ?lo mod 100 - ?hi mod 100"
    using count diff hi lo by linarith
  have bound: "\<bar>?lo mod 100 - ?hi mod 100\<bar> < 100"
    using pos_mod_bound [of 100 ?hi] pos_mod_sign [of 100 ?hi] pos_mod_bound [of 100 ?lo] pos_mod_sign [of 100 ?lo] by linarith
  have "?lo mod 100 = ?hi mod 100" if "100 dvd int ?n * percent"
    using that diff by (metis mod_eq_dvd_iff)
  then show ?thesis using err bound errs by auto
qed

definition sample_call :: "go_context \<times> (int \<Rightarrow> bool) \<times> int \<times> payload option" where
  "sample_call = (\<lparr>done_at = None, done_err = Canceled\<rparr>, \<lambda>_. True, 0, None)"

theorem percentage_balanced_witness:
  "length (filter isl (fst (faulty_calls (replicate 10 sample_call)
     (snd (faulty_calls (replicate 3 sample_call)
       \<lparr>fs_id = ''a'', fs_mode = ''percentage'', fs_delay = 0, fs_percent = 80, fs_requests = 0\<rparr>))))) = 8"
proof -
  let ?s0 = "\<lparr>fs_id = ''a'', fs_mode = ''percentage'', fs_delay = 0, fs_percent = 80, fs_requests = 0\<rparr>"
  have start: "faulty_main True ''a'' ''percentage'' 0 80 = Inr ?s0" by (simp add: faulty_main_def)
  obtain rs0 s where before: "faulty_calls (replicate 3 sample_call) ?s0 = (rs0, s)" by fastforce
  obtain rs s' where run: "faulty_calls (replicate 10 sample_call) s = (rs, s')" by fastforce
  have "100 * int (length (filter isl rs)) = 800"
    using percentage_balanced [OF start before run] by simp
  then show ?thesis using before run by simp
qed

end
