(* ===== verification/Load_Clients.thy ===== *)
theory Load_Clients
  imports Fault_Injection
begin

text \<open>
  \<^verbatim>\<open>examples/go/client\<close>, \<^verbatim>\<open>examples/go/load-client\<close> and \<^verbatim>\<open>examples/go/probe-client\<close>: the clients of the demos. The last two hand numbered
  jobs over an unbuffered channel to a pool of goroutines that call the sidecar and tally the
  answers. A pool is a step relation over the producer and its workers; the locale \<open>job_tally\<close> proves
  once, for any order of steps and any answers, that every job is called exactly once and counted
  once, and is interpreted on the tallies of both clients.
\<close>

section \<open>A pool of workers\<close>

datatype worker = Receiving | Working int | Exited

record 'acc job_pool =
  jp_next :: int
  jp_closed :: bool
  jp_workers :: "worker list"
  jp_acc :: 'acc
  jp_called :: "int list"

text \<open>
  The producer sends the next job to a worker that receives, or closes the channel after the last;
  a worker finishes the call of its job and records the answer under the lock (or atomically), or
  leaves when the channel is closed. \<open>jp_called\<close> remembers the finished jobs.
\<close>

inductive pool_step :: "int \<Rightarrow> ('r \<Rightarrow> 'acc \<Rightarrow> 'acc) \<Rightarrow> 'acc job_pool \<Rightarrow> 'acc job_pool \<Rightarrow> bool" for requests tally where
  hand: "jp_next p < requests \<Longrightarrow> w < length (jp_workers p) \<Longrightarrow> jp_workers p ! w = Receiving \<Longrightarrow>
    pool_step requests tally p (p\<lparr>jp_next := jp_next p + 1, jp_workers := (jp_workers p)[w := Working (jp_next p)]\<rparr>)"
| finish: "w < length (jp_workers p) \<Longrightarrow> jp_workers p ! w = Working n \<Longrightarrow>
    pool_step requests tally p (p\<lparr>jp_workers := (jp_workers p)[w := Receiving], jp_acc := tally r (jp_acc p),
      jp_called := jp_called p @ [n]\<rparr>)"
| close: "requests \<le> jp_next p \<Longrightarrow> \<not> jp_closed p \<Longrightarrow> pool_step requests tally p (p\<lparr>jp_closed := True\<rparr>)"
| leave: "jp_closed p \<Longrightarrow> w < length (jp_workers p) \<Longrightarrow> jp_workers p ! w = Receiving \<Longrightarrow>
    pool_step requests tally p (p\<lparr>jp_workers := (jp_workers p)[w := Exited]\<rparr>)"

inductive_cases pool_stepE: "pool_step requests tally p q"

definition start_pool :: "int \<Rightarrow> 'acc \<Rightarrow> 'acc job_pool" where
  "start_pool concurrency acc =
     \<lparr>jp_next = 0, jp_closed = False, jp_workers = replicate (nat concurrency) Receiving, jp_acc = acc, jp_called = []\<rparr>"

text \<open>What the main goroutine waits for: the channel closed and every worker gone.\<close>

definition pool_finished :: "'acc job_pool \<Rightarrow> bool" where
  "pool_finished p \<longleftrightarrow> jp_closed p \<and> (\<forall>w \<in> set (jp_workers p). w = Exited)"

section \<open>The clients\<close>

definition echo_full_method :: string where
  "echo_full_method = ''/minimesh.v1.EchoService/Echo''"

text \<open>The request of the single-call client; a service name takes precedence over an address.\<close>

definition client_request :: "string \<Rightarrow> string \<Rightarrow> string \<Rightarrow> proxy_request" where
  "client_request backend service message =
     \<lparr>rq_target = (if service \<noteq> [] then ''service://'' @ service else backend), rq_full_method = echo_full_method,
      rq_payload = Some \<lparr>pl_data = string_bytes message\<rparr>, rq_passthrough = False\<rparr>"

text \<open>The load client: its request, its counters and its verdict (a panic if there were other errors).\<close>

definition load_request :: "string \<Rightarrow> string \<Rightarrow> int \<Rightarrow> proxy_request" where
  "load_request backend service n =
     \<lparr>rq_target = (if backend \<noteq> [] then backend else ''service://'' @ service), rq_full_method = echo_full_method,
      rq_payload = Some \<lparr>pl_data = string_bytes (''load-'' @ itoa n)\<rparr>, rq_passthrough = False\<rparr>"

record load_counts =
  lc_ok :: int
  lc_limited :: int
  lc_other :: int

definition load_tally :: "go_error + proxy_reply \<Rightarrow> load_counts \<Rightarrow> load_counts" where
  "load_tally r c =
     (case r of
        Inr _ \<Rightarrow> c\<lparr>lc_ok := lc_ok c + 1\<rparr>
      | Inl e \<Rightarrow> if status_code (Some e) = CodeResourceExhausted then c\<lparr>lc_limited := lc_limited c + 1\<rparr>
                 else c\<lparr>lc_other := lc_other c + 1\<rparr>)"

definition no_counts :: load_counts where
  "no_counts = \<lparr>lc_ok = 0, lc_limited = 0, lc_other = 0\<rparr>"

definition load_verdict :: "load_counts \<Rightarrow> string option" where
  "load_verdict c = (if lc_other c \<noteq> 0 then Some ''unexpected non-rate-limit errors'' else None)"

text \<open>The probe client: its request, its summary and the validation of it.\<close>

definition probe_request :: "string \<Rightarrow> int \<Rightarrow> proxy_request" where
  "probe_request service n =
     \<lparr>rq_target = ''service://'' @ service, rq_full_method = echo_full_method,
      rq_payload = Some \<lparr>pl_data = string_bytes (''stage16-'' @ itoa n)\<rparr>, rq_passthrough = False\<rparr>"

record summary =
  sm_requests :: int
  sm_success :: int
  sm_errors :: int
  sm_codes :: "(string, int) gomap"
  sm_responses :: "(string, int) gomap"

definition gm_incr :: "string \<Rightarrow> (string, int) gomap \<Rightarrow> (string, int) gomap" where
  "gm_incr k m = gm_set k ((case gm_get m k of None \<Rightarrow> 0 | Some n \<Rightarrow> n) + 1) m"

definition bytes_string :: "8 word list \<Rightarrow> string" where
  "bytes_string bs = map (\<lambda>b. char_of (unat b)) bs"

definition probe_tally :: "go_error + proxy_reply \<Rightarrow> summary \<Rightarrow> summary" where
  "probe_tally r s =
     (case r of
        Inl e \<Rightarrow> s\<lparr>sm_errors := sm_errors s + 1, sm_codes := gm_incr (code_string (status_code (Some e))) (sm_codes s)\<rparr>
      | Inr reply \<Rightarrow>
          (let body = bytes_string (get_data (rp_payload reply));
               backend = (case cut CHR '':'' body of (before, _, ok) \<Rightarrow> if ok then before else body)
           in s\<lparr>sm_success := sm_success s + 1, sm_responses := gm_incr backend (sm_responses s)\<rparr>))"

definition new_summary :: "int \<Rightarrow> summary" where
  "new_summary requests = \<lparr>sm_requests = requests, sm_success = 0, sm_errors = 0, sm_codes = [], sm_responses = []\<rparr>"

datatype summary_error = FewSuccesses int int | FewErrors int int | MissingCode string

definition validate_summary :: "summary \<Rightarrow> int \<Rightarrow> int \<Rightarrow> string \<Rightarrow> summary_error option" where
  "validate_summary s min_success min_errors expected =
     (if sm_success s < min_success then Some (FewSuccesses (sm_success s) min_success)
      else if sm_errors s < min_errors then Some (FewErrors (sm_errors s) min_errors)
      else if expected \<noteq> [] \<and> (case gm_get (sm_codes s) expected of None \<Rightarrow> 0 | Some n \<Rightarrow> n) = 0 then Some (MissingCode expected)
      else None)"

definition sorted_map :: "(string, int) gomap \<Rightarrow> (string, int) gomap" where
  "sorted_map m = fold (\<lambda>k acc. gm_set k (the (gm_get m k)) acc) (sort (map fst m)) []"

text \<open>The command: its exit code before any call, or the pool it starts; and what it makes of the pool's summary.\<close>

definition probe_start :: "int \<Rightarrow> int \<Rightarrow> bool \<Rightarrow> int + summary job_pool" where
  "probe_start requests concurrency dials =
     (if requests \<le> 0 \<or> concurrency \<le> 0 then Inl 2
      else if \<not> dials then Inl 2
      else Inr (start_pool (if requests < concurrency then requests else concurrency) (new_summary requests)))"

definition probe_report :: "summary \<Rightarrow> int \<Rightarrow> int \<Rightarrow> string \<Rightarrow> summary \<times> int" where
  "probe_report s min_success min_errors expected =
     (let s = s\<lparr>sm_codes := sorted_map (sm_codes s), sm_responses := sorted_map (sm_responses s)\<rparr>
      in (s, if validate_summary s min_success min_errors expected = None then 0 else 1))"

section \<open>Lemmas on pools\<close>

fun flight :: "worker \<Rightarrow> int list" where
  "flight (Working n) = [n]"
| "flight Receiving = []"
| "flight Exited = []"

definition in_flight :: "worker list \<Rightarrow> int multiset" where
  "in_flight ws = mset (concat (map flight ws))"

lemma in_flight_update:
  "w < length ws \<Longrightarrow> in_flight (ws[w := x]) + mset (flight (ws ! w)) = in_flight ws + mset (flight x)"
  by (induction ws arbitrary: w) (auto simp: in_flight_def nth_Cons split: nat.splits)

text \<open>Every job handed out so far has been called once or is being called by one worker.\<close>

definition pool_inv :: "int \<Rightarrow> 'acc job_pool \<Rightarrow> bool" where
  "pool_inv requests p \<longleftrightarrow>
     0 \<le> jp_next p \<and> jp_next p \<le> max 0 requests \<and> (jp_closed p \<longrightarrow> requests \<le> jp_next p) \<and>
     mset (jp_called p) + in_flight (jp_workers p) = mset [0..jp_next p - 1] \<and>
     (\<not> jp_closed p \<longrightarrow> Exited \<notin> set (jp_workers p))"

lemma start_pool_inv: "pool_inv requests (start_pool n acc)"
  by (auto simp: pool_inv_def start_pool_def in_flight_def)

lemma update_no_exited: "Exited \<notin> set ws \<Longrightarrow> x \<noteq> Exited \<Longrightarrow> Exited \<notin> set (ws[w := x])"
  using set_update_subset_insert [of ws w x] by auto

lemma pool_step_inv:
  assumes "pool_step requests tally p q" "pool_inv requests p"
  shows "pool_inv requests q"
  using assms(1)
proof (cases rule: pool_step.cases)
  case (hand w)
  have "[0..jp_next p] = [0..jp_next p - 1] @ [jp_next p]"
    using assms(2) upto_rec2 [of 0 "jp_next p"] by (simp add: pool_inv_def)
  moreover have "in_flight ((jp_workers p)[w := Working (jp_next p)]) = add_mset (jp_next p) (in_flight (jp_workers p))"
    using in_flight_update [OF hand(3), of "Working (jp_next p)"] hand(4) by simp
  ultimately show ?thesis
    using assms(2) hand update_no_exited [of "jp_workers p" "Working (jp_next p)" w] by (auto simp: pool_inv_def)
next
  case (finish w n r)
  have "in_flight (jp_workers p) = add_mset n (in_flight ((jp_workers p)[w := Receiving]))"
    using in_flight_update [OF finish(2), of Receiving] finish(3) by simp
  then show ?thesis using assms(2) finish(1) update_no_exited [of "jp_workers p" Receiving w]
    by (auto simp: pool_inv_def)
next
  case close
  then show ?thesis using assms(2) by (auto simp: pool_inv_def)
next
  case (leave w)
  have "in_flight ((jp_workers p)[w := Exited]) = in_flight (jp_workers p)"
    using in_flight_update [OF leave(3), of Exited] leave(4) by simp
  then show ?thesis using assms(2) leave(1,2) by (auto simp: pool_inv_def)
qed

text \<open>A pool with a worker, or without a job, is never stuck before it is finished.\<close>

lemma pool_progress:
  assumes "pool_inv requests p" "jp_workers p \<noteq> [] \<or> requests \<le> 0" "\<not> pool_finished p"
  shows "\<exists>q. pool_step requests tally p q"
proof (cases "\<exists>w < length (jp_workers p). \<exists>n. jp_workers p ! w = Working n")
  case True
  then obtain w n where "w < length (jp_workers p)" "jp_workers p ! w = Working n" by blast
  then show ?thesis using pool_step.finish [of w p n requests tally undefined] by blast
next
  case idle: False
  show ?thesis
  proof (cases "jp_closed p")
    case True
    with assms(3) obtain w where "w < length (jp_workers p)" "jp_workers p ! w \<noteq> Exited"
      by (auto simp: pool_finished_def in_set_conv_nth)
    with idle have w: "w < length (jp_workers p)" "jp_workers p ! w = Receiving" by (metis worker.exhaust)+
    from pool_step.leave [OF True w] show ?thesis by blast
  next
    case False
    show ?thesis
    proof (cases "requests \<le> jp_next p")
      case True
      from pool_step.close [OF this False] show ?thesis by blast
    next
      case more: False
      then have "0 < requests" using assms(1) by (auto simp: pool_inv_def)
      then have ne: "0 < length (jp_workers p)" using assms(2) by auto
      have "jp_workers p ! 0 \<noteq> Exited" using assms(1) False nth_mem [OF ne] by (auto simp: pool_inv_def)
      with idle ne have "jp_workers p ! 0 = Receiving" by (metis worker.exhaust)
      then show ?thesis using pool_step.hand [of p requests 0 tally] ne more by auto
    qed
  qed
qed

text \<open>Every step uses up a job, a call, a worker or the open channel.\<close>

fun worker_work :: "worker \<Rightarrow> nat" where
  "worker_work (Working n) = 2"
| "worker_work Receiving = 1"
| "worker_work Exited = 0"

definition pool_work :: "int \<Rightarrow> 'acc job_pool \<Rightarrow> nat" where
  "pool_work requests p =
     3 * nat (requests - jp_next p) + sum_list (map worker_work (jp_workers p)) + (if jp_closed p then 0 else 1)"

lemma work_update:
  "w < length ws \<Longrightarrow> sum_list (map worker_work (ws[w := x])) + worker_work (ws ! w) = sum_list (map worker_work ws) + worker_work x"
  by (induction ws arbitrary: w) (auto simp: nth_Cons split: nat.splits)

lemma pool_step_work: "pool_step requests tally p q \<Longrightarrow> pool_work requests q < pool_work requests p"
proof (erule pool_step.cases)
  fix p' w assume "p = p'" "q = p'\<lparr>jp_next := jp_next p' + 1, jp_workers := (jp_workers p')[w := Working (jp_next p')]\<rparr>"
    "jp_next p' < requests" "w < length (jp_workers p')" "jp_workers p' ! w = Receiving"
  then show ?thesis using work_update [of w "jp_workers p'" "Working (jp_next p')"] by (simp add: pool_work_def nat_diff_distrib')
next
  fix w p' n r assume "p = p'" "q = p'\<lparr>jp_workers := (jp_workers p')[w := Receiving], jp_acc := tally r (jp_acc p'), jp_called := jp_called p' @ [n]\<rparr>"
    "w < length (jp_workers p')" "jp_workers p' ! w = Working n"
  then show ?thesis using work_update [of w "jp_workers p'" Receiving] by (simp add: pool_work_def)
next
  fix p' w assume "p = p'" "q = p'\<lparr>jp_workers := (jp_workers p')[w := Exited]\<rparr>" "jp_closed p'"
    "w < length (jp_workers p')" "jp_workers p' ! w = Receiving"
  then show ?thesis using work_update [of w "jp_workers p'" Exited] by (simp add: pool_work_def)
qed (simp add: pool_work_def)

lemma start_pool_work: "pool_work requests (start_pool n acc) = 3 * nat requests + nat n + 1"
  by (simp add: pool_work_def start_pool_def sum_list_replicate)

section \<open>Tallies\<close>

locale job_tally =
  fixes tally :: "'r \<Rightarrow> 'acc \<Rightarrow> 'acc" and total :: "'acc \<Rightarrow> int" and sound :: "'acc \<Rightarrow> bool"
  assumes counts: "total (tally r a) = total a + 1"
    and keeps: "sound a \<Longrightarrow> sound (tally r a)"
begin

text \<open>After any number of steps: the jobs are accounted for, and the tally counts the calls made.\<close>

lemma run_counts:
  assumes "(pool_step requests tally ^^ k) (start_pool n acc) p" "sound acc"
  shows "pool_inv requests p \<and> total (jp_acc p) = total acc + int (length (jp_called p)) \<and> sound (jp_acc p) \<and>
    length (jp_workers p) = nat n \<and> k + pool_work requests p \<le> 3 * nat requests + nat n + 1"
  using assms(1)
proof (induction k arbitrary: p)
  case 0
  then show ?case using assms(2) start_pool_inv [of requests n acc] start_pool_work [of requests n acc]
    by (auto simp: start_pool_def)
next
  case (Suc k)
  then obtain q where q: "(pool_step requests tally ^^ k) (start_pool n acc) q" "pool_step requests tally q p" by auto
  have "total (jp_acc p) + int (length (jp_called q)) = total (jp_acc q) + int (length (jp_called p)) \<and>
      (sound (jp_acc q) \<longrightarrow> sound (jp_acc p)) \<and> length (jp_workers p) = length (jp_workers q)"
    using q(2) by (cases rule: pool_step.cases) (auto simp: counts keeps)
  then show ?case using Suc.IH [OF q(1)] pool_step_inv [OF q(2)] pool_step_work [OF q(2)] by auto
qed

lemma finished_counts:
  assumes "(pool_step requests tally ^^ k) (start_pool n acc) p" "sound acc" "pool_finished p" "0 < nat n \<or> requests \<le> 0"
  shows "mset (jp_called p) = mset [0..requests - 1]" "total (jp_acc p) = total acc + max 0 requests" "sound (jp_acc p)"
proof -
  note run = run_counts [OF assms(1,2)]
  have "in_flight (jp_workers p) = {#}" using assms(3) by (auto simp: pool_finished_def in_flight_def)
  then have "mset (jp_called p) = mset [0..jp_next p - 1]" using run by (simp add: pool_inv_def)
  moreover have "requests \<le> jp_next p" "0 \<le> jp_next p" "jp_next p \<le> max 0 requests"
    using run assms(3) by (auto simp: pool_inv_def pool_finished_def)
  then have "[0..jp_next p - 1] = [0..requests - 1]" by (cases "requests \<le> 0") auto
  ultimately show called: "mset (jp_called p) = mset [0..requests - 1]" by simp
  have "length (jp_called p) = length [0..requests - 1]" using called by (metis size_mset)
  then show "total (jp_acc p) = total acc + max 0 requests" using run by simp
  show "sound (jp_acc p)" using run by blast
qed

lemma stuck_finished:
  assumes "(pool_step requests tally ^^ k) (start_pool n acc) p" "sound acc" "0 < n \<or> requests \<le> 0"
    and "\<not> (\<exists>q. pool_step requests tally p q)"
  shows "pool_finished p"
proof (rule ccontr)
  assume "\<not> pool_finished p"
  moreover have "jp_workers p \<noteq> [] \<or> requests \<le> 0" using run_counts [OF assms(1,2)] assms(3) by auto
  ultimately show False using pool_progress run_counts [OF assms(1,2)] assms(4) by blast
qed

end

interpretation load: job_tally load_tally "\<lambda>c. lc_ok c + lc_limited c + lc_other c"
  "\<lambda>c. 0 \<le> lc_ok c \<and> 0 \<le> lc_limited c \<and> 0 \<le> lc_other c"
  by unfold_locales (auto simp: load_tally_def split: sum.splits)

text \<open>The values of a counting map add up to the number of increments.\<close>

definition gm_sum :: "(string, int) gomap \<Rightarrow> int" where
  "gm_sum m = sum_list (map snd m)"

lemma sum_update:
  "distinct (map fst m) \<Longrightarrow>
     sum_list (map snd (AList.update k v m)) = sum_list (map snd m) - (case map_of m k of None \<Rightarrow> 0 | Some n \<Rightarrow> n) + (v :: int)"
proof (induction m)
  case (Cons e m)
  obtain k' n where e: "e = (k', n)" by fastforce
  have "map_of m k' = None" using Cons.prems e by (simp add: map_of_eq_None_iff)
  with Cons e show ?case by (cases "k' = k") (auto split: option.splits)
qed simp

lemma gm_sum_incr: "gm_wf m \<Longrightarrow> gm_sum (gm_incr k m) = gm_sum m + 1"
  using sum_update [of m k "(case gm_get m k of None \<Rightarrow> 0 | Some n \<Rightarrow> n) + 1"]
  by (simp add: gm_sum_def gm_incr_def gm_set_def gm_get_def gm_wf_def split: option.splits)

lemma gm_wf_incr: "gm_wf m \<Longrightarrow> gm_wf (gm_incr k m)"
  by (simp add: gm_incr_def)

definition summary_sound :: "summary \<Rightarrow> bool" where
  "summary_sound s \<longleftrightarrow> gm_wf (sm_codes s) \<and> gm_wf (sm_responses s) \<and>
     gm_sum (sm_codes s) = sm_errors s \<and> gm_sum (sm_responses s) = sm_success s"

interpretation probe: job_tally probe_tally "\<lambda>s. sm_success s + sm_errors s" summary_sound
  by unfold_locales (auto simp: probe_tally_def summary_sound_def gm_sum_incr gm_wf_incr Let_def split: sum.splits)

lemma new_summary_sound: "summary_sound (new_summary requests)"
  by (simp add: summary_sound_def new_summary_def gm_sum_def)

text \<open>\<open>sortedMap\<close> copies a map.\<close>

lemma fold_copy_get:
  "gm_get (fold (\<lambda>k acc. gm_set k (f k) acc) ks m) q = (if q \<in> set ks then Some (f q) else gm_get m q)"
  by (induction ks arbitrary: m) auto

lemma sorted_map_get: "gm_get (sorted_map m) k = gm_get m k"
proof (cases "k \<in> fst ` set m")
  case True
  then obtain v where "gm_get m k = Some v" by (cases "gm_get m k") (auto simp: gm_get_def map_of_eq_None_iff)
  with True show ?thesis by (simp add: sorted_map_def fold_copy_get)
next
  case False
  then have "gm_get m k = None" by (simp add: gm_get_def map_of_eq_None_iff)
  with False show ?thesis by (simp add: sorted_map_def fold_copy_get)
qed

section \<open>Properties\<close>

text \<open>
  C39: the probe client's report is complete. However its workers are scheduled and whatever the
  sidecar answers, a started probe makes at most \<open>4 * requests + 1\<close> steps and is never stuck; when it
  is finished, every job was called exactly once, successes and errors add up to the number of
  requests, the errors are exactly the sum of the counted codes and the successes the sum of the
  counted backends, and it exits with 0 just when the thresholds and the expected code are met.
\<close>

theorem probe_accounts:
  assumes "probe_start requests concurrency dials = Inr p0" "(pool_step requests probe_tally ^^ k) p0 p"
  shows "k \<le> nat (4 * requests + 1) \<and> (pool_finished p \<or> (\<exists>q. pool_step requests probe_tally p q)) \<and>
    (pool_finished p \<longrightarrow>
       (let s = jp_acc p in mset (jp_called p) = mset [0..requests - 1] \<and> sm_success s + sm_errors s = requests \<and>
          gm_sum (sm_codes s) = sm_errors s \<and> gm_sum (sm_responses s) = sm_success s \<and>
          (snd (probe_report s least_ok least_errors expected) = 0 \<longleftrightarrow>
             least_ok \<le> sm_success s \<and> least_errors \<le> sm_errors s \<and>
             (expected \<noteq> [] \<longrightarrow> (\<exists>n. gm_get (sm_codes s) expected = Some n \<and> n \<noteq> 0)))))"
proof -
  let ?n = "if requests < concurrency then requests else concurrency"
  have pos: "0 < requests" "0 < ?n" "?n \<le> requests" and p0: "p0 = start_pool ?n (new_summary requests)"
    using assms(1) by (auto simp: probe_start_def split: if_splits)
  note steps = assms(2) [unfolded p0]
  note run = probe.run_counts [OF steps new_summary_sound]
  have le: "nat ?n \<le> nat requests" using pos(3) by (rule nat_mono)
  have "k \<le> 3 * nat requests + nat ?n + 1" using run by (blast intro: order_trans le_add1)
  also have "\<dots> \<le> nat (4 * requests + 1)" using le pos(1) by simp
  finally have bound: "k \<le> nat (4 * requests + 1)" .
  have progress: "pool_finished p \<or> (\<exists>q. pool_step requests probe_tally p q)"
    using probe.stuck_finished [OF steps new_summary_sound] pos(2) by blast
  have exit: "snd (probe_report s least_ok least_errors expected) = 0 \<longleftrightarrow> least_ok \<le> sm_success s \<and> least_errors \<le> sm_errors s \<and>
      (expected \<noteq> [] \<longrightarrow> (\<exists>n. gm_get (sm_codes s) expected = Some n \<and> n \<noteq> 0))" for s
    by (auto simp: probe_report_def validate_summary_def sorted_map_get Let_def split: option.splits)
  show ?thesis
  proof (intro conjI impI bound progress)
    assume fin: "pool_finished p"
    have "0 < nat ?n \<or> requests \<le> 0" using pos(2) by simp
    from probe.finished_counts [OF steps new_summary_sound fin this] pos(1)
    show "let s = jp_acc p in mset (jp_called p) = mset [0..requests - 1] \<and> sm_success s + sm_errors s = requests \<and>
          gm_sum (sm_codes s) = sm_errors s \<and> gm_sum (sm_responses s) = sm_success s \<and>
          (snd (probe_report s least_ok least_errors expected) = 0 \<longleftrightarrow>
             least_ok \<le> sm_success s \<and> least_errors \<le> sm_errors s \<and>
             (expected \<noteq> [] \<longrightarrow> (\<exists>n. gm_get (sm_codes s) expected = Some n \<and> n \<noteq> 0)))"
      by (auto simp: Let_def exit summary_sound_def new_summary_def)
  qed
qed

text \<open>
  The load client accounts for its requests in the same way, if it has a worker or no job. With
  \<open>-concurrency 0\<close>, which it does not refuse, and a job to hand out it blocks before the first call.
\<close>

theorem load_accounts:
  assumes "(pool_step requests load_tally ^^ k) (start_pool concurrency no_counts) p"
  shows "(0 < concurrency \<or> requests \<le> 0 \<longrightarrow>
      (pool_finished p \<or> (\<exists>q. pool_step requests load_tally p q)) \<and>
      (pool_finished p \<longrightarrow> mset (jp_called p) = mset [0..requests - 1] \<and>
         lc_ok (jp_acc p) + lc_limited (jp_acc p) + lc_other (jp_acc p) = max 0 requests)) \<and>
    (concurrency \<le> 0 \<and> 0 < requests \<longrightarrow> k = 0 \<and> \<not> pool_finished p \<and> \<not> (\<exists>q. pool_step requests load_tally p q))"
proof (intro conjI impI)
  have sound: "0 \<le> lc_ok no_counts \<and> 0 \<le> lc_limited no_counts \<and> 0 \<le> lc_other no_counts" by (simp add: no_counts_def)
  assume w: "0 < concurrency \<or> requests \<le> 0"
  show "pool_finished p \<or> (\<exists>q. pool_step requests load_tally p q)"
    using load.stuck_finished [OF assms sound w] by blast
  assume fin: "pool_finished p"
  have w': "0 < nat concurrency \<or> requests \<le> 0" using w by auto
  note counts = load.finished_counts [OF assms sound fin w']
  show "mset (jp_called p) = mset [0..requests - 1]" by (rule counts(1))
  show "lc_ok (jp_acc p) + lc_limited (jp_acc p) + lc_other (jp_acc p) = max 0 requests"
    using counts(2) by (simp add: no_counts_def)
next
  assume c: "concurrency \<le> 0 \<and> 0 < requests"
  have stuck: "\<not> pool_step requests load_tally (start_pool concurrency no_counts) q" for q
    using c by (auto elim!: pool_stepE simp: start_pool_def)
  show k: "k = 0"
  proof (cases k)
    case (Suc j)
    with assms obtain q where "pool_step requests load_tally (start_pool concurrency no_counts) q"
      by (metis relpowp_Suc_D2)
    with stuck show ?thesis by blast
  qed
  with assms stuck c show "\<not> pool_finished p" "\<not> (\<exists>q. pool_step requests load_tally p q)"
    by (auto simp: pool_finished_def start_pool_def)
qed

text \<open>One worker, one job, one refused call.\<close>

definition sample_refused :: "go_error + proxy_reply" where
  "sample_refused = Inl (StatusErr CodeUnavailable (Text ''down''))"

definition sample_finished :: "summary job_pool" where
  "sample_finished = \<lparr>jp_next = 1, jp_closed = True, jp_workers = [Exited], jp_acc = probe_tally sample_refused (new_summary 1),
     jp_called = [0]\<rparr>"

lemma sample_run: "(pool_step 1 probe_tally ^^ 4) (start_pool 1 (new_summary 1)) sample_finished"
proof -
  let ?s0 = "new_summary 1" and ?s1 = "probe_tally sample_refused (new_summary 1)"
  let ?p0 = "start_pool 1 ?s0"
  let ?p1 = "\<lparr>jp_next = 1, jp_closed = False, jp_workers = [Working 0], jp_acc = ?s0, jp_called = []\<rparr>"
  let ?p2 = "\<lparr>jp_next = 1, jp_closed = False, jp_workers = [Receiving], jp_acc = ?s1, jp_called = [0]\<rparr>"
  let ?p3 = "\<lparr>jp_next = 1, jp_closed = True, jp_workers = [Receiving], jp_acc = ?s1, jp_called = [0]\<rparr>"
  have "pool_step 1 probe_tally ?p0 ?p1" using pool_step.hand [of ?p0 1 0 probe_tally] by (simp add: start_pool_def)
  moreover have "pool_step 1 probe_tally ?p1 ?p2" using pool_step.finish [of 0 ?p1 0 1 probe_tally sample_refused] by simp
  moreover have "pool_step 1 probe_tally ?p2 ?p3" using pool_step.close [of 1 ?p2 probe_tally] by simp
  moreover have "pool_step 1 probe_tally ?p3 sample_finished"
    using pool_step.leave [of ?p3 0 1 probe_tally] by (simp add: sample_finished_def)
  ultimately show ?thesis by (auto simp: numeral_eq_Suc intro!: relcomppI)
qed

theorem probe_accounts_witness:
  "(pool_step 1 probe_tally ^^ 4) (start_pool 1 (new_summary 1)) sample_finished \<and> pool_finished sample_finished \<and>
   sm_success (jp_acc sample_finished) + sm_errors (jp_acc sample_finished) = 1"
proof -
  have start: "probe_start 1 1 True = Inr (start_pool 1 (new_summary 1))" by (simp add: probe_start_def)
  have fin: "pool_finished sample_finished" by (simp add: pool_finished_def sample_finished_def)
  from probe_accounts [OF start sample_run] fin sample_run show ?thesis by (auto simp: Let_def)
qed

end
