(* ===== verification/Example_Backend.thy ===== *)
theory Example_Backend
  imports Load_Clients
begin

text \<open>
  \<^verbatim>\<open>internal/examplebackend/server.go\<close>: the echo service behind the demos, with \<^verbatim>\<open>examples/go/echo-server\<close>,
  which serves it. A payload \<open>sleep:d\<close> makes it wait for the duration \<open>d\<close> in the syntax of
  \<open>time.ParseDuration\<close>, which is modelled with its 64-bit accumulator and its floating-point fractions.
\<close>

section \<open>Durations\<close>

text \<open>\<open>leadingInt\<close> and \<open>leadingFraction\<close>: the digits in front, with the bounds on the way.\<close>

fun leading_int :: "string \<Rightarrow> int \<Rightarrow> (int \<times> string) option" where
  "leading_int [] x = Some (x, [])"
| "leading_int (c # cs) x =
     (if \<not> is_digit c then Some (x, c # cs)
      else if 2 ^ 63 div 10 < x then None
      else let y = x * 10 + digit_val c in if 2 ^ 63 < y then None else leading_int cs y)"

fun leading_fraction :: "string \<Rightarrow> bool \<Rightarrow> int \<Rightarrow> float64 \<Rightarrow> int \<times> float64 \<times> string" where
  "leading_fraction [] overflow x sc = (x, sc, [])"
| "leading_fraction (c # cs) overflow x sc =
     (if \<not> is_digit c then (x, sc, c # cs)
      else if overflow then leading_fraction cs True x sc
      else if (2 ^ 63 - 1) div 10 < x then leading_fraction cs True x sc
      else let y = x * 10 + digit_val c
           in if 2 ^ 63 < y then leading_fraction cs True x sc else leading_fraction cs False y (f_mul sc (Fin 10)))"

text \<open>The units; the micro sign has two code points.\<close>

definition unit_map :: "string \<Rightarrow> int option" where
  "unit_map = map_of
     [(''ns'', 1), (''us'', 1000), (bytes [194, 181] @ ''s'', 1000), (bytes [206, 188] @ ''s'', 1000), (''ms'', millisecond),
      (''s'', second), (''m'', 60 * second), (''h'', 3600 * second)]"

definition unit_char :: "char \<Rightarrow> bool" where
  "unit_char c \<longleftrightarrow> c \<noteq> CHR ''.'' \<and> \<not> is_digit c"

text \<open>One round of the loop: a number with its unit, in nanoseconds, and the rest of the text.\<close>

definition parse_segment :: "string \<Rightarrow> (int \<times> string) option" where
  "parse_segment s =
     (if s = [] \<or> unit_char (hd s) then None
      else case leading_int s 0 of
             None \<Rightarrow> None
           | Some (v, s1) \<Rightarrow>
               (let pre = length s1 \<noteq> length s;
                    (f, sc, post, s2) =
                      (if s1 \<noteq> [] \<and> hd s1 = CHR ''.''
                       then (let (f, sc, s2) = leading_fraction (tl s1) False 0 (Fin 1)
                             in (f, sc, length s2 \<noteq> length (tl s1), s2))
                       else (0, Fin 1, False, s1));
                    u = takeWhile unit_char s2
                in if \<not> pre \<and> \<not> post then None
                   else if u = [] then None
                   else case unit_map u of
                          None \<Rightarrow> None
                        | Some unit \<Rightarrow>
                            if 2 ^ 63 div unit < v then None
                            else (let v = v * unit;
                                      w = (if 0 < f then v + \<lfloor>fin_val (f_mul (f_of_int f) (f_div (f_of_int unit) sc))\<rfloor> else v)
                                  in if 0 < f \<and> 2 ^ 63 < w then None else Some (w, dropWhile unit_char s2))))"

lemma leading_int_length: "leading_int s x = Some (v, r) \<Longrightarrow> length r \<le> length s"
  by (induction s x rule: leading_int.induct) (auto simp: Let_def split: if_splits)

lemma leading_fraction_length: "leading_fraction s b x sc = (f, sc2, r) \<Longrightarrow> length r \<le> length s"
  by (induction s b x sc rule: leading_fraction.induct) (auto simp: Let_def split: if_splits)

lemma drop_unit_length: "takeWhile unit_char s \<noteq> [] \<Longrightarrow> length (dropWhile unit_char s) < length s"
  by (cases s) (auto simp: length_dropWhile_le less_Suc_eq_le split: if_splits)

lemma parse_segment_length: 
  assumes "parse_segment s = Some (v, r)"
  shows "length r < length s"
proof -
  obtain n s1 where s1: "leading_int s 0 = Some (n, s1)" using assms by (auto simp: parse_segment_def split: if_splits option.splits)
  obtain f sc s2 where s2: "leading_fraction (tl s1) False 0 (Fin 1) = (f, sc, s2)" by (metis prod_cases3)
  let ?s = "if s1 \<noteq> [] \<and> hd s1 = CHR ''.'' then s2 else s1"
  have "length ?s \<le> length s" using leading_int_length [OF s1] leading_fraction_length [OF s2] by auto
  moreover have "takeWhile unit_char ?s \<noteq> []" "r = dropWhile unit_char ?s"
    using assms s1 s2 by (auto simp: parse_segment_def Let_def split: if_splits option.splits)
  ultimately show ?thesis using drop_unit_length by fastforce
qed

text \<open>The loop, with its unsigned 64-bit sum.\<close>

function parse_segments :: "string \<Rightarrow> int \<Rightarrow> int option" where
  "parse_segments s d =
     (if s = [] then Some d
      else case parse_segment s of
             None \<Rightarrow> None
           | Some (v, r) \<Rightarrow> (let d = (d + v) mod 2 ^ 64 in if 2 ^ 63 < d then None else parse_segments r d))"
  by pat_completeness auto
termination by (relation "measure (\<lambda>(s, _). length s)") (auto dest: parse_segment_length)

declare parse_segments.simps [simp del]

definition parse_duration :: "string \<Rightarrow> int option" where
  "parse_duration s =
     (let (neg, s) = (if s \<noteq> [] \<and> (hd s = CHR ''-'' \<or> hd s = CHR ''+'') then (hd s = CHR ''-'', tl s) else (False, s))
      in if s = ''0'' then Some 0
         else if s = [] then None
         else case parse_segments s 0 of
                None \<Rightarrow> None
              | Some d \<Rightarrow> if neg then Some (wrap64 (- wrap64 d)) else if 2 ^ 63 - 1 < d then None else Some d)"

section \<open>The echo service\<close>

text \<open>
  \<open>Echo\<close> of a server with an identifier, called with incoming metadata at \<open>now\<close>: the result, the header it
  set, and when it returned.
\<close>

definition echo_reply :: "string \<Rightarrow> payload option \<Rightarrow> payload" where
  "echo_reply sid p =
     (let prefix = (if trim_space sid \<noteq> [] then ''echo@'' @ trim_space sid @ '':'' else ''echo:'')
      in \<lparr>pl_data = string_bytes prefix @ get_data p\<rparr>)"

definition backend_echo ::
  "string \<Rightarrow> md \<Rightarrow> go_context \<Rightarrow> (int \<Rightarrow> bool) \<Rightarrow> int \<Rightarrow> payload option \<Rightarrow> (go_error + payload) \<times> md option \<times> int" where
  "backend_echo sid incoming ctx tie now p =
     (let header = (case gm_get incoming ''x-request-id'' of Some (v # _) \<Rightarrow> Some [(''x-backend-request-id'', [v])] | _ \<Rightarrow> None);
          text = bytes_string (get_data p);
          finish = (\<lambda>t. if text = ''error'' then (Inl (StatusErr CodeInternal (Text ''injected backend error'')), header, t)
                        else (Inr (echo_reply sid p), header, t))
      in if has_prefix text ''sleep:''
         then (case parse_duration (trim_prefix text ''sleep:'') of
                 None \<Rightarrow> (Inl (StatusErr CodeInvalidArgument (Text ''invalid sleep duration'')), header, now)
               | Some d \<Rightarrow>
                   (case select_ctx ctx tie (now + max 0 d) now of
                      (True, t) \<Rightarrow> (Inl (from_context_error (done_err ctx)), header, t)
                    | (False, t) \<Rightarrow> finish t))
         else finish now)"

text \<open>The command: its exit code, or the identifier of the server it runs.\<close>

definition echo_main :: "bool \<Rightarrow> string \<Rightarrow> int + string" where
  "echo_main listens instance_id = (if \<not> listens then Inl 1 else Inr instance_id)"

section \<open>Lemmas\<close>

lemma digits_grow: "list_all is_digit ds \<Longrightarrow> 0 \<le> x \<Longrightarrow> x \<le> foldl (\<lambda>acc c. acc * 10 + digit_val c) x ds"
proof (induction ds arbitrary: x)
  case (Cons c cs)
  have "0 \<le> digit_val c" using Cons.prems(1) by (auto simp: is_digit_def digit_val_def)
  then show ?case using Cons.IH [of "x * 10 + digit_val c"] Cons.prems by simp
qed simp

lemma leading_int_digits:
  assumes "list_all is_digit ds" "0 \<le> x" "foldl (\<lambda>acc c. acc * 10 + digit_val c) x ds \<le> 2 ^ 63" "rest = [] \<or> \<not> is_digit (hd rest)"
  shows "leading_int (ds @ rest) x = Some (foldl (\<lambda>acc c. acc * 10 + digit_val c) x ds, rest)"
  using assms
proof (induction ds arbitrary: x)
  case Nil
  then show ?case by (cases rest) auto
next
  case (Cons c cs)
  let ?y = "x * 10 + digit_val c"
  have c: "is_digit c" "0 \<le> digit_val c" using Cons.prems(1) by (auto simp: is_digit_def digit_val_def)
  have "?y \<le> foldl (\<lambda>acc c. acc * 10 + digit_val c) ?y cs"
    using digits_grow [of cs ?y] Cons.prems(1,2) c(2) by simp
  then have "?y \<le> 2 ^ 63" using Cons.prems(3) by simp
  moreover have "x \<le> 2 ^ 63 div 10" using calculation c(2) by simp
  ultimately show ?case using Cons.IH [of ?y] Cons.prems c by (simp add: Let_def)
qed

definition starts_plain :: "string \<Rightarrow> bool" where
  "starts_plain s \<longleftrightarrow> s = [] \<or> is_digit (hd s)"

lemma unit_mapD:
  assumes "unit_map u = Some k"
  shows "u \<noteq> []" "list_all unit_char u" "0 < k"
  using assms by (auto simp: unit_map_def unit_char_def is_digit_def bytes_def dest: arg_cong [where f = "of_char :: char \<Rightarrow> nat"] split: if_splits)

lemma unit_char_digit: "is_digit c \<Longrightarrow> \<not> unit_char c" by (simp add: unit_char_def)

lemma takeWhile_unit:
  assumes "list_all unit_char u" "starts_plain rest"
  shows "takeWhile unit_char (u @ rest) = u" "dropWhile unit_char (u @ rest) = rest"
  using assms unit_char_digit by (cases rest; auto simp: starts_plain_def list_all_iff)+

lemma itoa_digits:
  assumes "0 \<le> n"
  shows "list_all is_digit (itoa n)" "itoa n \<noteq> []" "foldl (\<lambda>acc c. acc * 10 + digit_val c) 0 (itoa n) = n" "is_digit (hd (itoa n @ rest))"
  using assms nat_to_dec_digits [of "nat n"] nat_to_dec_hd [of "nat n"] dec_val_nat_to_dec [of "nat n"]
  by (auto simp: itoa_def dec_val_def)

lemma parse_segment_whole:
  assumes "unit_map u = Some k" "0 \<le> n" "n * k \<le> 2 ^ 63" "starts_plain rest"
  shows "parse_segment (itoa n @ u @ rest) = Some (n * k, rest)"
proof -
  note u = unit_mapD [OF assms(1)] and n = itoa_digits [OF assms(2)]
  have hd_u: "hd (u @ rest) \<noteq> CHR ''.'' \<and> \<not> is_digit (hd (u @ rest))"
    using u(1,2) by (cases u) (auto simp: unit_char_def)
  have "1 \<le> k" using u(3) by simp
  then have "n * 1 \<le> n * k" using assms(2) by (intro mult_left_mono) auto
  then have int: "leading_int (itoa n @ u @ rest) 0 = Some (n, u @ rest)"
    using leading_int_digits [OF n(1), of 0 "u @ rest"] n(3) assms(3) hd_u by simp
  have "n \<le> 2 ^ 63 div k" using zdiv_mono1 [OF assms(3) u(3)] u(3) by simp
  then show ?thesis
    unfolding parse_segment_def int
    using n(2) unit_char_digit [OF n(4) [of "u @ rest"]] hd_u u(1) assms(1) takeWhile_unit [OF u(2) assms(4)]
    by (simp add: Let_def)
qed

definition segment_text :: "int \<times> string \<Rightarrow> string" where
  "segment_text x = itoa (fst x) @ snd x"

definition segment_value :: "int \<times> string \<Rightarrow> int" where
  "segment_value x = fst x * the (unit_map (snd x))"

definition segments_ok :: "(int \<times> string) list \<Rightarrow> bool" where
  "segments_ok xs \<longleftrightarrow> (\<forall>(n, u) \<in> set xs. 0 \<le> n \<and> unit_map u \<noteq> None)"

lemma segment_value_nonneg: "segments_ok (x # xs) \<Longrightarrow> 0 \<le> segment_value x \<and> 0 \<le> sum_list (map segment_value xs)"
proof -
  assume "segments_ok (x # xs)"
  then have "0 \<le> segment_value y" if "y \<in> set (x # xs)" for y
    using that unit_mapD(3) by (fastforce simp: segments_ok_def segment_value_def)
  then show ?thesis using sum_list_nonneg [of "map segment_value xs"] by fastforce
qed

lemma segments_plain: "segments_ok xs \<Longrightarrow> starts_plain (concat (map segment_text xs))"
  using itoa_digits(2,4) by (cases xs) (auto simp: starts_plain_def segments_ok_def segment_text_def)

lemma parse_segments_print:
  assumes "segments_ok xs" "0 \<le> d" "d + sum_list (map segment_value xs) \<le> 2 ^ 63"
  shows "parse_segments (concat (map segment_text xs)) d = Some (d + sum_list (map segment_value xs))"
  using assms
proof (induction xs arbitrary: d)
  case Nil
  then show ?case by (simp add: parse_segments.simps)
next
  case (Cons x xs)
  obtain n u k where x: "x = (n, u)" "unit_map u = Some k" "0 \<le> n" using Cons.prems(1) by (cases x) (auto simp: segments_ok_def)
  have ok: "segments_ok xs" using Cons.prems(1) by (simp add: segments_ok_def)
  note nn = segment_value_nonneg [OF Cons.prems(1)]
  have v: "segment_value x = n * k" using x by (simp add: segment_value_def)
  have seg: "parse_segment (concat (map segment_text (x # xs))) = Some (n * k, concat (map segment_text xs))"
    using parse_segment_whole [OF x(2,3) _ segments_plain [OF ok]] Cons.prems(2,3) nn v x(1) by (simp add: segment_text_def)
  have "segment_text x \<noteq> []" using itoa_digits(2) [OF x(3)] x(1) by (simp add: segment_text_def)
  moreover have "(d + n * k) mod 2 ^ 64 = d + n * k" using Cons.prems(2,3) nn v by (intro mod_pos_pos_trivial) simp_all
  ultimately show ?case
    using Cons.IH [OF ok, of "d + n * k"] Cons.prems(2,3) nn v seg by (subst parse_segments.simps) (simp add: Let_def)
qed

section \<open>Properties\<close>

text \<open>
  Durations read back. The text of a sequence of whole numbers with units (as in \<open>1h30m\<close>) is read as
  the sum of its parts, with either sign, up to the largest duration.
\<close>

theorem duration_roundtrip:
  assumes "segments_ok xs" "xs \<noteq> []" "sum_list (map segment_value xs) < 2 ^ 63"
  shows "parse_duration (concat (map segment_text xs)) = Some (sum_list (map segment_value xs)) \<and>
    parse_duration (CHR ''-'' # concat (map segment_text xs)) = Some (- sum_list (map segment_value xs))"
proof -
  let ?s = "concat (map segment_text xs)" and ?d = "sum_list (map segment_value xs)"
  obtain n u ys where xs: "xs = (n, u) # ys" "0 \<le> n" "unit_map u \<noteq> None" using assms(1,2) by (cases xs) (auto simp: segments_ok_def)
  have d: "0 \<le> ?d" using segment_value_nonneg [OF assms(1) [unfolded xs(1)]] xs(1) by simp
  have "is_digit (hd ?s)" "?s \<noteq> []"
    using itoa_digits(2,4) [OF xs(2)] xs(1) by (simp_all add: segment_text_def)
  then have hd_s: "hd ?s \<noteq> CHR ''-''" "hd ?s \<noteq> CHR ''+''" by (auto simp: is_digit_def)
  have "2 \<le> length (itoa n @ u)" using itoa_digits(2) [OF xs(2)] unit_mapD(1) xs(3) by (cases "itoa n"; cases u) auto
  then have "length ''0'' < length ?s" using xs(1) by (simp add: segment_text_def)
  then have "?s \<noteq> ''0''" by (metis less_irrefl)
  moreover have "parse_segments ?s 0 = Some ?d" using parse_segments_print [OF assms(1), of 0] assms(3) by simp
  moreover have "wrap64 (- wrap64 ?d) = - ?d" using d assms(3) by (simp add: in64_def)
  ultimately show ?thesis using \<open>?s \<noteq> []\<close> hd_s assms(3) by (simp add: parse_duration_def)
qed

theorem duration_roundtrip_witness:
  "parse_duration ''1h30m'' = Some (5400 * second) \<and> parse_duration ''-250ms'' = Some (- 250 * millisecond)"
proof -
  have units: "unit_map ''h'' = Some (3600 * second)" "unit_map ''m'' = Some (60 * second)" "unit_map ''ms'' = Some millisecond"
    by (simp_all add: unit_map_def bytes_def)
  have nums: "itoa 1 = ''1''" "itoa 30 = ''30''" "itoa 250 = ''250''"
    by (simp_all add: itoa_def nat_to_dec.simps digit_char_def char_of_def bit_0)
  have "segments_ok [(1, ''h''), (30, ''m'')]" "segments_ok [(250, ''ms'')]" by (simp_all add: segments_ok_def units)
  from duration_roundtrip [OF this(1)] duration_roundtrip [OF this(2)] show ?thesis
    by (simp add: segment_value_def segment_text_def units nums)
qed

text \<open>
  What the echo service answers. Its reply is its prefix followed by the payload, unless the payload is
  \<open>error\<close> (Internal) or a malformed sleep (InvalidArgument, at once). A sleep ends with the reply
  after exactly its duration, or before that with the error of the context, at the moment the context ends: the handler never
  outlives its caller's deadline. The request identifier comes back in every case.
\<close>

theorem echo_answers:
  assumes "backend_echo sid incoming ctx tie now p = (r, header, t)"
  defines "req \<equiv> bytes_string (get_data p)"
  shows "(case r of
      Inr reply \<Rightarrow> pl_data reply = string_bytes (if trim_space sid = [] then ''echo:'' else ''echo@'' @ trim_space sid @ '':'') @ get_data p \<and>
        req \<noteq> ''error'' \<and>
        (if has_prefix req ''sleep:'' then \<exists>d. parse_duration (trim_prefix req ''sleep:'') = Some d \<and> t = now + max 0 d else t = now)
    | Inl e \<Rightarrow>
        (status_code (Some e) = CodeInternal \<and> req = ''error'' \<and> t = now) \<or>
        (status_code (Some e) = CodeInvalidArgument \<and> has_prefix req ''sleep:'' \<and>
           parse_duration (trim_prefix req ''sleep:'') = None \<and> t = now) \<or>
        (\<exists>d c. e = from_context_error (done_err ctx) \<and> parse_duration (trim_prefix req ''sleep:'') = Some d \<and>
           done_at ctx = Some c \<and> t = max now c \<and> t \<le> now + max 0 d)) \<and>
    (\<forall>v vs. gm_get incoming ''x-request-id'' = Some (v # vs) \<longrightarrow> header = Some [(''x-backend-request-id'', [v])])"
proof -
  have header: "\<forall>v vs. gm_get incoming ''x-request-id'' = Some (v # vs) \<longrightarrow> header = Some [(''x-backend-request-id'', [v])]"
    using assms(1) by (auto simp: backend_echo_def Let_def split: if_splits option.splits prod.splits bool.splits)
  note run = assms(1) [unfolded backend_echo_def, folded req_def] and outcome = header echo_reply_def status_code_def Let_def
  show ?thesis
  proof (cases "has_prefix req ''sleep:''")
    case False
    with run header show ?thesis by (auto simp: outcome split: if_splits)
  next
    case True
    then have ne: "req \<noteq> ''error''" by (auto simp: has_prefix_def)
    show ?thesis
    proof (cases "parse_duration (trim_prefix req ''sleep:'')")
      case None
      with run True header show ?thesis by (auto simp: outcome)
    next
      case (Some d)
      obtain b u where sel: "select_ctx ctx tie (now + max 0 d) now = (b, u)" by fastforce
      show ?thesis
      proof (cases b)
        case False
        with run True Some sel ne select_ctx_ready [OF sel] header show ?thesis by (auto simp: outcome)
      next
        case b: True
        then obtain c where "done_at ctx = Some c" "u = max now c" "u \<le> now + max 0 d"
          using sel by (auto simp: select_ctx_def Let_def split: option.splits if_splits)
        with run True Some sel b header show ?thesis by (auto simp: outcome)
      qed
    qed
  qed
qed

text \<open>A sleep of two seconds, cut by a deadline after one.\<close>

theorem echo_answers_witness:
  "\<exists>header. backend_echo ''a'' [] \<lparr>done_at = Some second, done_err = DeadlineExceeded\<rparr> (\<lambda>_. True) 0
     (Some \<lparr>pl_data = string_bytes ''sleep:2s''\<rparr>) = (Inl (from_context_error DeadlineExceeded), header, second)"
proof -
  let ?ctx = "\<lparr>done_at = Some second, done_err = DeadlineExceeded\<rparr>" and ?p = "Some \<lparr>pl_data = string_bytes ''sleep:2s''\<rparr>"
  obtain r header t where run: "backend_echo ''a'' [] ?ctx (\<lambda>_. True) 0 ?p = (r, header, t)" by (metis prod_cases3)
  have req: "bytes_string (get_data ?p) = ''sleep:2s''"
    by (simp add: bytes_string_def get_data_def string_bytes_def char_of_def bit_0)
  have unit: "unit_map ''s'' = Some second" "itoa 2 = ''2''"
    by (simp_all add: unit_map_def bytes_def itoa_def nat_to_dec.simps digit_char_def char_of_def bit_0)
  have "parse_segments (concat (map segment_text [(2, ''s'')])) 0 = Some (2 * second)"
    using parse_segments_print [of "[(2, ''s'')]" 0] by (simp add: segments_ok_def segment_value_def unit)
  then have "parse_duration ''2s'' = Some (2 * second)" by (simp add: parse_duration_def segment_text_def unit)
  moreover have "trim_prefix ''sleep:2s'' ''sleep:'' = ''2s''" "has_prefix ''sleep:2s'' ''sleep:''"
    by (simp_all add: trim_prefix_def has_prefix_def)
  ultimately have r: "isl r"
    using run by (auto simp: backend_echo_def req Let_def select_ctx_def)
  then show ?thesis
    using echo_answers [OF run] run req \<open>parse_duration ''2s'' = Some (2 * second)\<close> \<open>trim_prefix ''sleep:2s'' ''sleep:'' = ''2s''\<close>
    by (auto simp: isl_def)
qed

end
