(* ===== verification/Inventory.thy ===== *)
theory Inventory
  imports Example_Backend
begin

text \<open>
  \<^verbatim>\<open>examples/go/inventory-server\<close>: the middle service of the cross-language demo. It answers from a
  recommendation service that it calls either directly or through its sidecar's \<open>Invoke\<close>. The two clients, \<open>proto.Marshal\<close>,
  \<open>proto.Unmarshal\<close> and what the tracing propagator injects are arguments; spans are not represented.
  \<open>FromOutgoingContext\<close> is gRPC's: whether the map it returns is the context's own is the argument \<open>aliased\<close>.
\<close>

section \<open>The service\<close>

record inventory_request =
  iq_sku :: string
  iq_quantity :: int

record inventory_response =
  ir_available :: bool
  ir_recommendation :: string
  ir_trace_id :: string
  ir_request_id :: string

record recommendation_response =
  rr_recommendation :: string
  rr_trace_id :: string
  rr_request_id :: string

type_synonym recommend_client = "md option \<Rightarrow> string \<Rightarrow> go_error + recommendation_response"
type_synonym proxy_client = "md option \<Rightarrow> proxy_request \<Rightarrow> go_error + proxy_reply"

datatype upstream = Direct recommend_client | ViaSidecar proxy_client

record codec =
  marshal_request :: "inventory_request \<Rightarrow> go_error + 8 word list"
  unmarshal_response :: "8 word list \<Rightarrow> go_error + recommendation_response"

text \<open>The metadata of the upstream call: the caller's, if there is any, with the keys the propagator sets when they reach it.\<close>

definition outgoing_metadata :: "bool \<Rightarrow> (string \<times> string) list \<Rightarrow> md option \<Rightarrow> md option" where
  "outgoing_metadata aliased inject incoming =
     (case incoming of None \<Rightarrow> None | Some m \<Rightarrow> Some (if aliased then fold carrier_set inject m else m))"

definition recommend_full_method :: string where
  "recommend_full_method = ''/minimesh.v1.RecommendationService/Recommend''"

definition get_recommendation ::
  "codec \<Rightarrow> upstream \<Rightarrow> md option \<Rightarrow> inventory_request \<Rightarrow> go_error + recommendation_response" where
  "get_recommendation cd up m q =
     (case up of
        Direct recommend \<Rightarrow> recommend m (iq_sku q)
      | ViaSidecar relay \<Rightarrow>
          (case marshal_request cd q of
             Inl e \<Rightarrow> Inl e
           | Inr data \<Rightarrow>
               (case relay m \<lparr>rq_target = ''service://recommendation'', rq_full_method = recommend_full_method,
                       rq_payload = Some \<lparr>pl_data = data\<rparr>, rq_passthrough = True\<rparr> of
                  Inl e \<Rightarrow> Inl e
                | Inr reply \<Rightarrow> unmarshal_response cd (get_data (rp_payload reply)))))"

definition check_inventory ::
  "codec \<Rightarrow> upstream \<Rightarrow> bool \<Rightarrow> (string \<times> string) list \<Rightarrow> md option \<Rightarrow> inventory_request \<Rightarrow> go_error + inventory_response" where
  "check_inventory cd up aliased inject incoming q =
     (case get_recommendation cd up (outgoing_metadata aliased inject incoming) q of
        Inl e \<Rightarrow> Inl e
      | Inr rec \<Rightarrow> Inr \<lparr>ir_available = (iq_sku q \<noteq> ''out-of-stock''), ir_recommendation = rr_recommendation rec,
                       ir_trace_id = rr_trace_id rec, ir_request_id = rr_request_id rec\<rparr>)"

text \<open>
  The command: the exit code of a failed set-up, or the upstream it calls and whether directly. \<open>dials\<close> and \<open>listens\<close>
  are what the network answers.
\<close>

definition inventory_main :: "bool \<Rightarrow> (string \<Rightarrow> bool) \<Rightarrow> bool \<Rightarrow> string \<Rightarrow> string \<Rightarrow> int + string \<times> bool" where
  "inventory_main tracer_ok dials listens sidecar recommendation =
     (let address = (if recommendation \<noteq> [] then recommendation else sidecar)
      in if \<not> tracer_ok then Inl 2
         else if \<not> dials address then Inl 1
         else if \<not> listens then Inl 1
         else Inr (address, recommendation \<noteq> []))"

section \<open>The two routes\<close>

text \<open>
  What the sidecar route relies on: the bytes of an inventory request read as a recommendation request have
  its sku (both messages have it as field 1), the sidecar hands the bytes to the service and its answer
  or its error back, and answers decode as they were encoded.
\<close>

definition sidecar_relays ::
  "codec \<Rightarrow> proxy_client \<Rightarrow> recommend_client \<Rightarrow> (8 word list \<Rightarrow> string) \<Rightarrow> (recommendation_response \<Rightarrow> 8 word list) \<Rightarrow> bool" where
  "sidecar_relays cd relay recommend sku_of encode \<longleftrightarrow>
     (\<forall>q. \<exists>data. marshal_request cd q = Inr data \<and> sku_of data = iq_sku q) \<and>
     (\<forall>m r. rq_target r = ''service://recommendation'' \<longrightarrow> rq_full_method r = recommend_full_method \<longrightarrow> rq_passthrough r \<longrightarrow>
        (case recommend m (sku_of (get_data (rq_payload r))) of
           Inl e \<Rightarrow> relay m r = Inl e
         | Inr rec \<Rightarrow> \<exists>reply. relay m r = Inr reply \<and> rp_payload reply = Some \<lparr>pl_data = encode rec\<rparr>)) \<and>
     (\<forall>m sku rec. recommend m sku = Inr rec \<longrightarrow> unmarshal_response cd (encode rec) = Inr rec)"

lemma relayed_recommendation:
  assumes "sidecar_relays cd relay recommend sku_of encode"
  shows "get_recommendation cd (ViaSidecar relay) m q = get_recommendation cd (Direct recommend) m q"
proof -
  obtain data where data: "marshal_request cd q = Inr data" "sku_of data = iq_sku q"
    using assms unfolding sidecar_relays_def by blast
  let ?r = "\<lparr>rq_target = ''service://recommendation'', rq_full_method = recommend_full_method,
    rq_payload = Some \<lparr>pl_data = data\<rparr>, rq_passthrough = True\<rparr>"
  have call: "case recommend m (iq_sku q) of
      Inl e \<Rightarrow> relay m ?r = Inl e
    | Inr rec \<Rightarrow> \<exists>reply. relay m ?r = Inr reply \<and> rp_payload reply = Some \<lparr>pl_data = encode rec\<rparr>"
    using assms [unfolded sidecar_relays_def, THEN conjunct2, THEN conjunct1, rule_format, of ?r m] data(2)
    by (simp add: get_data_def)
  show ?thesis
  proof (cases "recommend m (iq_sku q)")
    case (Inl e)
    with call data(1) show ?thesis by (simp add: get_recommendation_def)
  next
    case (Inr rec)
    have "unmarshal_response cd (encode rec) = Inr rec" using assms Inr unfolding sidecar_relays_def by blast
    with Inr call data(1) show ?thesis by (auto simp: get_recommendation_def get_data_def)
  qed
qed

section \<open>Properties\<close>


definition sample_codec :: codec where
  "sample_codec = \<lparr>marshal_request = (\<lambda>q. Inr (string_bytes (iq_sku q))),
     unmarshal_response = (\<lambda>data. Inr \<lparr>rr_recommendation = bytes_string data, rr_trace_id = [], rr_request_id = []\<rparr>)\<rparr>"

definition sample_recommend :: recommend_client where
  "sample_recommend m sku = Inr \<lparr>rr_recommendation = ''like-'' @ sku, rr_trace_id = [], rr_request_id = []\<rparr>"

definition sample_invoke :: proxy_client where
  "sample_invoke m r = Inr \<lparr>rp_payload = Some \<lparr>pl_data = string_bytes (''like-'' @ bytes_string (get_data (rq_payload r)))\<rparr>,
     rp_header = None, rp_trailer = None\<rparr>"

lemma bytes_string_bytes: "bytes_string (string_bytes s) = s"
proof -
  have "unat (of_char c :: 8 word) = of_char c" for c :: char
    unfolding of_nat_of_char [of c, symmetric, where 'a = "8 word"] by (simp add: unat_of_nat)
  then show ?thesis by (simp add: bytes_string_def string_bytes_def comp_def)
qed


end
