(* ===== verification/Metrics_Text.thy ===== *)
theory Metrics_Text
  imports Rate_Limit
begin

text \<open>
  \<open>PrometheusText\<close> of \<^verbatim>\<open>internal/resilience/ratelimit.go\<close>: the counters of the rate limiter in the text
  format of Prometheus. \<open>fmt\<close>'s \<open>%q\<close> is \<open>strconv.Quote\<close>, modelled on UTF-8 with the table of printable
  runes beyond ASCII as an argument. A reader of the format, written from its specification, shows
  what a scrape of the text finds.
\<close>

section \<open>Quoting\<close>

abbreviation newline :: char where "newline \<equiv> CHR 0x0A"
abbreviation quotes :: char where "quotes \<equiv> CHR 0x22"
abbreviation backslash :: char where "backslash \<equiv> CHR 0x5C"

text \<open>\<open>strings.ReplaceAll\<close> of a one-byte string.\<close>

definition replace_all :: "char \<Rightarrow> string \<Rightarrow> string \<Rightarrow> string" where
  "replace_all c r s = concat (map (\<lambda>x. if x = c then r else [x]) s)"

definition escape_prom_label :: "string \<Rightarrow> string" where
  "escape_prom_label v =
     (let v = replace_all backslash [backslash, backslash] v;
          v = replace_all newline [backslash, CHR ''n''] v
      in replace_all quotes [backslash, quotes] v)"

definition hex_digit :: "nat \<Rightarrow> char" where
  "hex_digit n = (if n < 10 then char_of (48 + n) else char_of (87 + n))"

fun hex :: "nat \<Rightarrow> nat \<Rightarrow> string" where
  "hex 0 n = []"
| "hex (Suc w) n = hex w (n div 16) @ [hex_digit (n mod 16)]"

text \<open>\<open>utf8.DecodeRuneInString\<close> on a nonempty string: the rune and its width, or \<^term>\<open>None\<close> for an invalid byte.\<close>

definition in_range :: "nat \<Rightarrow> nat \<Rightarrow> nat \<Rightarrow> bool" where
  "in_range lo hi x \<longleftrightarrow> lo \<le> x \<and> x \<le> hi"

definition decode_rune :: "string \<Rightarrow> (nat \<times> nat) option" where
  "decode_rune s =
     (case map (of_char :: char \<Rightarrow> nat) (take 4 s) of
        [] \<Rightarrow> None
      | a # bs \<Rightarrow>
          if a < 0x80 then Some (a, 1)
          else if in_range 0xC2 0xDF a
          then (case bs of b # _ \<Rightarrow> if in_range 0x80 0xBF b then Some ((a - 0xC0) * 64 + (b - 0x80), 2) else None | [] \<Rightarrow> None)
          else if in_range 0xE0 0xEF a
          then (case bs of
                  b # c # _ \<Rightarrow>
                    if in_range (if a = 0xE0 then 0xA0 else 0x80) (if a = 0xED then 0x9F else 0xBF) b \<and> in_range 0x80 0xBF c
                    then Some (((a - 0xE0) * 64 + (b - 0x80)) * 64 + (c - 0x80), 3) else None
                | _ \<Rightarrow> None)
          else if in_range 0xF0 0xF4 a
          then (case bs of
                  b # c # d # _ \<Rightarrow>
                    if in_range (if a = 0xF0 then 0x90 else 0x80) (if a = 0xF4 then 0x8F else 0xBF) b \<and>
                       in_range 0x80 0xBF c \<and> in_range 0x80 0xBF d
                    then Some ((((a - 0xF0) * 64 + (b - 0x80)) * 64 + (c - 0x80)) * 64 + (d - 0x80), 4) else None
                | _ \<Rightarrow> None)
          else None)"

definition quote_rune :: "(nat \<Rightarrow> bool) \<Rightarrow> nat \<Rightarrow> string \<Rightarrow> string" where
  "quote_rune is_print r raw =
     (if raw = [quotes] \<or> raw = [backslash] then backslash # raw
      else if (if r < 0x80 then in_range 0x20 0x7E r else is_print r) then raw
      else if r = 7 then [backslash, CHR ''a'']
      else if r = 8 then [backslash, CHR ''b'']
      else if r = 12 then [backslash, CHR ''f'']
      else if r = 10 then [backslash, CHR ''n'']
      else if r = 13 then [backslash, CHR ''r'']
      else if r = 9 then [backslash, CHR ''t'']
      else if r = 11 then [backslash, CHR ''v'']
      else if r < 0x20 \<or> r = 0x7F then [backslash, CHR ''x''] @ hex 2 r
      else if r < 0x10000 then [backslash, CHR ''u''] @ hex 4 r
      else [backslash, CHR ''U''] @ hex 8 r)"

function quote_body :: "(nat \<Rightarrow> bool) \<Rightarrow> string \<Rightarrow> string" where
  "quote_body is_print s =
     (case s of
        [] \<Rightarrow> []
      | x # xs \<Rightarrow>
          (case decode_rune s of
             None \<Rightarrow> [backslash, CHR ''x''] @ hex 2 (of_char x) @ quote_body is_print xs
           | Some (r, w) \<Rightarrow> quote_rune is_print r (take w s) @ quote_body is_print (drop (max 1 w) s)))"
  by pat_completeness auto
termination by (relation "measure (length \<circ> snd)") auto

declare quote_body.simps [simp del]

definition go_quote :: "(nat \<Rightarrow> bool) \<Rightarrow> string \<Rightarrow> string" where
  "go_quote is_print s = quotes # quote_body is_print s @ [quotes]"

section \<open>The text\<close>

definition allowed_name :: string where
  "allowed_name = ''minimesh_rate_limit_allowed_total''"

definition rejected_name :: string where
  "rejected_name = ''minimesh_rate_limit_rejected_total''"

definition sample_line :: "(nat \<Rightarrow> bool) \<Rightarrow> string \<Rightarrow> string \<Rightarrow> 64 word \<Rightarrow> string" where
  "sample_line is_print name key n =
     name @ ''{rule='' @ go_quote is_print (escape_prom_label key) @ ''} '' @ itoa (uint n) @ [newline]"

definition prometheus_text :: "(nat \<Rightarrow> bool) \<Rightarrow> local_rate_limiter option \<Rightarrow> string" where
  "prometheus_text is_print l =
     (let stats = limiter_stats l; keys = sort (map fst stats)
      in ''# HELP minimesh_rate_limit_allowed_total Requests admitted by the local Sidecar rate limiter.'' @ [newline]
         @ ''# TYPE minimesh_rate_limit_allowed_total counter'' @ [newline]
         @ concat (map (\<lambda>k. sample_line is_print allowed_name k (st_allowed (the (gm_get stats k)))) keys)
         @ ''# HELP minimesh_rate_limit_rejected_total Requests rejected by the local Sidecar rate limiter.'' @ [newline]
         @ ''# TYPE minimesh_rate_limit_rejected_total counter'' @ [newline]
         @ concat (map (\<lambda>k. sample_line is_print rejected_name k (st_rejected (the (gm_get stats k)))) keys))"

section \<open>A reader of the format\<close>

text \<open>A label value up to its closing quotes, with the three escapes of the format.\<close>

fun read_label :: "string \<Rightarrow> (string \<times> string) option" where
  "read_label [] = None"
| "read_label (c # s) =
     (if c = quotes then Some ([], s)
      else if c = backslash
      then (case s of
              [] \<Rightarrow> None
            | d # s' \<Rightarrow>
                if d = backslash \<or> d = quotes then map_option (map_prod (Cons d) id) (read_label s')
                else if d = CHR ''n'' then map_option (map_prod (Cons newline) id) (read_label s')
                else None)
      else map_option (map_prod (Cons c) id) (read_label s))"

definition read_count :: "string \<Rightarrow> int option" where
  "read_count s = (if s \<noteq> [] \<and> list_all is_digit s then Some (dec_val s) else None)"

definition read_sample :: "string \<Rightarrow> (string \<times> string \<times> int) option" where
  "read_sample line =
     (case cut CHR ''{'' line of
        (name, rest, found) \<Rightarrow>
          if \<not> found \<or> \<not> has_prefix rest (''rule='' @ [quotes]) then None
          else case read_label (trim_prefix rest (''rule='' @ [quotes])) of
                 None \<Rightarrow> None
               | Some (label, rest) \<Rightarrow>
                   if has_prefix rest ''} '' then map_option (\<lambda>n. (name, label, n)) (read_count (trim_prefix rest ''} '')) else None)"

text \<open>The samples of a text: its lines but for comments and the end of the last line.\<close>

definition read_samples :: "string \<Rightarrow> (string \<times> string \<times> int) option list" where
  "read_samples text = map read_sample (filter (\<lambda>l. l \<noteq> [] \<and> \<not> has_prefix l ''#'') (split_on newline text))"

section \<open>Lemmas\<close>

definition printable :: "char \<Rightarrow> bool" where
  "printable c \<longleftrightarrow> in_range 0x20 0x7E (of_char c)"

lemma replace_all_Cons: "replace_all c r (x # s) = (if x = c then r else [x]) @ replace_all c r s"
  by (simp add: replace_all_def)

lemma replace_all_append: "replace_all c r (s @ t) = replace_all c r s @ replace_all c r t"
  by (simp add: replace_all_def)

lemma replace_all_Nil [simp]: "replace_all c r [] = []"
  by (simp add: replace_all_def)

text \<open>The three replacements act on each character of the original on its own.\<close>

definition escape_char :: "char \<Rightarrow> string" where
  "escape_char c =
     (if c = backslash then [backslash, backslash] else if c = newline then [backslash, CHR ''n'']
      else if c = quotes then [backslash, quotes] else [c])"

lemma escape_chars: "escape_prom_label v = concat (map escape_char v)"
  by (induction v) (auto simp: escape_prom_label_def Let_def escape_char_def replace_all_Cons replace_all_append)

lemma escape_printable:
  assumes "\<forall>c \<in> set v. printable c \<or> c = newline"
  shows "\<forall>c \<in> set (escape_prom_label v). printable c"
  using assms unfolding escape_chars
  by (auto simp: escape_char_def printable_def in_range_def split: if_splits)

lemma escape_id_iff: "escape_prom_label v = v \<longleftrightarrow> backslash \<notin> set v \<and> newline \<notin> set v \<and> quotes \<notin> set v"
proof
  assume "backslash \<notin> set v \<and> newline \<notin> set v \<and> quotes \<notin> set v"
  then show "escape_prom_label v = v" unfolding escape_chars by (induction v) (auto simp: escape_char_def)
next
  assume eq: "escape_prom_label v = v"
  have "length v + length (filter (\<lambda>c. c = backslash \<or> c = newline \<or> c = quotes) v) = length (escape_prom_label v)"
    unfolding escape_chars by (induction v) (auto simp: escape_char_def)
  with eq have "filter (\<lambda>c. c = backslash \<or> c = newline \<or> c = quotes) v = []" by simp
  then show "backslash \<notin> set v \<and> newline \<notin> set v \<and> quotes \<notin> set v" by (auto simp: filter_empty_conv)
qed

text \<open>On printable ASCII \<open>%q\<close> escapes quotes and backslashes only, which the reader undoes.\<close>

lemma quote_body_Cons:
  assumes "printable c"
  shows "quote_body is_print (c # s) = (if c = quotes \<or> c = backslash then [backslash, c] else [c]) @ quote_body is_print s"
proof -
  have "decode_rune (c # s) = Some (of_char c, 1)"
    using assms by (simp add: decode_rune_def printable_def in_range_def)
  then show ?thesis
    using assms by (subst quote_body.simps) (simp add: quote_rune_def printable_def in_range_def)
qed

lemma quote_body_Nil [simp]: "quote_body is_print [] = []"
  by (subst quote_body.simps) simp

lemma read_quoted:
  "\<forall>c \<in> set s. printable c \<Longrightarrow> read_label (quote_body is_print s @ quotes # rest) = Some (s, rest)"
  by (induction s) (auto simp: quote_body_Cons)

lemma quote_body_chars:
  "\<forall>c \<in> set s. printable c \<Longrightarrow> c \<in> set (quote_body is_print s) \<Longrightarrow> printable c"
  by (induction s) (auto simp: quote_body_Cons printable_def in_range_def split: if_splits)

lemma newline_not_printable: "\<not> printable newline"
  by (simp add: printable_def in_range_def)

lemma read_count_itoa: "0 \<le> x \<Longrightarrow> read_count (itoa x) = Some x"
  using nat_to_dec_digits [of "nat x"] by (simp add: read_count_def itoa_def)

definition line_of :: "(nat \<Rightarrow> bool) \<Rightarrow> string \<Rightarrow> string \<Rightarrow> 64 word \<Rightarrow> string" where
  "line_of is_print name key n = butlast (sample_line is_print name key n)"

lemma sample_line_of: "sample_line is_print name key n = line_of is_print name key n @ [newline]"
  by (simp add: line_of_def sample_line_def butlast_append)

lemma line_of_eq:
  "line_of is_print name key n =
     name @ ''{rule='' @ quotes # quote_body is_print (escape_prom_label key) @ quotes # ''} '' @ itoa (uint n)"
  by (simp add: line_of_def sample_line_def go_quote_def butlast_append)

lemma read_line:
  assumes "CHR ''{'' \<notin> set name" "\<forall>c \<in> set key. printable c \<or> c = newline"
  shows "read_sample (line_of is_print name key n) = Some (name, escape_prom_label key, uint n)"
proof -
  let ?q = "quote_body is_print (escape_prom_label key) @ quotes # ''} '' @ itoa (uint n)"
  have "line_of is_print name key n = name @ CHR ''{'' # (''rule='' @ [quotes]) @ ?q" by (simp add: line_of_eq)
  then have c: "cut CHR ''{'' (line_of is_print name key n) = (name, (''rule='' @ [quotes]) @ ?q, True)"
    using cut_append [OF assms(1)] by (simp only:)
  have p: "has_prefix ((''rule='' @ [quotes]) @ ?q) (''rule='' @ [quotes])"
    "trim_prefix ((''rule='' @ [quotes]) @ ?q) (''rule='' @ [quotes]) = ?q" by (rule has_prefix_append trim_prefix_append)+
  have l: "read_label ?q = Some (escape_prom_label key, ''} '' @ itoa (uint n))"
    by (rule read_quoted [OF escape_printable [OF assms(2)]])
  have t: "has_prefix (''} '' @ itoa (uint n)) ''} ''" "trim_prefix (''} '' @ itoa (uint n)) ''} '' = itoa (uint n)"
    by (rule has_prefix_append trim_prefix_append)+
  show ?thesis
    unfolding read_sample_def c prod.case p(2) l option.case t(2) using p(1) t(1) read_count_itoa [of "uint n"] by simp
qed

lemma line_no_newline:
  assumes "newline \<notin> set name" "\<forall>c \<in> set key. printable c \<or> c = newline"
  shows "newline \<notin> set (line_of is_print name key n)"
proof -
  have "newline \<notin> set (quote_body is_print (escape_prom_label key))"
    using quote_body_chars [OF escape_printable [OF assms(2)]] newline_not_printable by blast
  moreover have "newline \<notin> set (itoa (uint n))" using itoa_chars by (fastforce simp: is_digit_def)
  ultimately show ?thesis using assms(1) by (simp add: line_of_eq)
qed

lemma split_lines:
  "\<forall>l \<in> set ls. c \<notin> set l \<Longrightarrow> split_on c (concat (map (\<lambda>l. l @ [c]) ls)) = ls @ [[]]"
  by (induction ls) (auto simp: split_on_append)

section \<open>Properties\<close>

text \<open>
  C37: what a scrape reads. If every rule name is printable ASCII (or contains line breaks), the text
  holds one sample per rule and counter, in the order of the names, each with the exact count of
  \<open>Stats\<close>; but its label is the name after \<open>escapePromLabel\<close>, since \<open>%q\<close> escapes what is already escaped:
  the label is the name itself exactly when the name has no quotes, backslash or line break.
\<close>

theorem prometheus_text_scraped:
  assumes "\<forall>k \<in> fst ` set (limiter_stats l). \<forall>c \<in> set k. printable c \<or> c = newline"
  shows "read_samples (prometheus_text is_print l) =
      map (\<lambda>k. Some (allowed_name, escape_prom_label k, uint (st_allowed (the (gm_get (limiter_stats l) k)))))
        (sort (map fst (limiter_stats l))) @
      map (\<lambda>k. Some (rejected_name, escape_prom_label k, uint (st_rejected (the (gm_get (limiter_stats l) k)))))
        (sort (map fst (limiter_stats l))) \<and>
    (\<forall>k. escape_prom_label k = k \<longleftrightarrow> backslash \<notin> set k \<and> newline \<notin> set k \<and> quotes \<notin> set k)"
proof (intro conjI allI escape_id_iff)
  let ?keys = "sort (map fst (limiter_stats l))" and ?s = "limiter_stats l"
  let ?h1 = "''# HELP minimesh_rate_limit_allowed_total Requests admitted by the local Sidecar rate limiter.''"
  let ?t1 = "''# TYPE minimesh_rate_limit_allowed_total counter''"
  let ?h2 = "''# HELP minimesh_rate_limit_rejected_total Requests rejected by the local Sidecar rate limiter.''"
  let ?t2 = "''# TYPE minimesh_rate_limit_rejected_total counter''"
  let ?al = "map (\<lambda>k. line_of is_print allowed_name k (st_allowed (the (gm_get ?s k)))) ?keys"
  let ?rl = "map (\<lambda>k. line_of is_print rejected_name k (st_rejected (the (gm_get ?s k)))) ?keys"
  let ?lines = "[?h1, ?t1] @ ?al @ [?h2, ?t2] @ ?rl"
  have key: "\<forall>c \<in> set k. printable c \<or> c = newline" if "k \<in> set ?keys" for k using that assms by auto
  have names: "CHR ''{'' \<notin> set allowed_name" "CHR ''{'' \<notin> set rejected_name" "newline \<notin> set allowed_name" "newline \<notin> set rejected_name"
    by (simp_all add: allowed_name_def rejected_name_def)
  have txt_eq: "prometheus_text is_print l = concat (map (\<lambda>l. l @ [newline]) ?lines)"
    by (simp add: prometheus_text_def Let_def sample_line_of comp_def)
  have "\<forall>l \<in> set ?al. newline \<notin> set l" "\<forall>l \<in> set ?rl. newline \<notin> set l"
    using line_no_newline [OF names(3) key] line_no_newline [OF names(4) key] by (simp_all del: set_sort)
  moreover have "\<forall>l \<in> set [?h1, ?t1, ?h2, ?t2]. newline \<notin> set l" by simp
  ultimately have "\<forall>l \<in> set ?lines. newline \<notin> set l" by (simp only: set_append list.set ball_Un ball_simps) simp
  then have split: "split_on newline (prometheus_text is_print l) = ?lines @ [[]]" unfolding txt_eq by (rule split_lines)
  have sample: "line_of is_print name k n \<noteq> [] \<and> \<not> has_prefix (line_of is_print name k n) ''#''"
    if "name = allowed_name \<or> name = rejected_name" for name k n
    using that by (auto simp: line_of_eq allowed_name_def rejected_name_def has_prefix_def)
  have "filter (\<lambda>l. l \<noteq> [] \<and> \<not> has_prefix l ''#'') (?lines @ [[]]) = ?al @ ?rl"
    using sample by (simp add: has_prefix_def filter_map comp_def)
  then show "read_samples (prometheus_text is_print l) =
      map (\<lambda>k. Some (allowed_name, escape_prom_label k, uint (st_allowed (the (gm_get ?s k))))) ?keys @
      map (\<lambda>k. Some (rejected_name, escape_prom_label k, uint (st_rejected (the (gm_get ?s k))))) ?keys"
    unfolding read_samples_def split using read_line names(1,2) key by simp
qed

text \<open>A limiter with the rule \<open>a"b\<close> of a service, which admitted 7 requests and rejected 2.\<close>

definition demo_limiter :: "local_rate_limiter option" where
  "demo_limiter =
     Some \<lparr>default_bucket = None,
       service_buckets = [(''a'' @ quotes # ''b'', (demo_bucket (Fin 0) 0)\<lparr>tb_allowed := 7, tb_rejected := 2\<rparr>)],
       route_buckets = []\<rparr>"

theorem prometheus_text_scraped_witness:
  "read_samples (prometheus_text (\<lambda>_. True) demo_limiter) =
     [Some (''minimesh_rate_limit_allowed_total'', ''service:a'' @ backslash # quotes # ''b'', 7),
      Some (''minimesh_rate_limit_rejected_total'', ''service:a'' @ backslash # quotes # ''b'', 2)]"
proof -
  have stats: "limiter_stats demo_limiter = [(''service:a'' @ quotes # ''b'', \<lparr>st_allowed = 7, st_rejected = 2\<rparr>)]"
    by (simp add: limiter_stats_def demo_limiter_def bucket_stats_def demo_bucket_def gm_set_def)
  have esc: "escape_prom_label (''service:a'' @ quotes # ''b'') = ''service:a'' @ backslash # quotes # ''b''"
    by (simp add: escape_prom_label_def replace_all_def)
  have "\<forall>k \<in> fst ` set (limiter_stats demo_limiter). \<forall>c \<in> set k. printable c \<or> c = newline"
    by (simp add: stats printable_def in_range_def)
  from conjunct1 [OF prometheus_text_scraped [OF this, of "\<lambda>_. True"]] show ?thesis
    by (simp add: stats esc [simplified] allowed_name_def rejected_name_def gm_get_def)
qed

end
