(* ===== verification/Spec2Isabelle.thy ===== *)
theory Spec2Isabelle
  imports Mesh_Path Sidecar_Run Inventory Metrics_Text
begin

text \<open>
  \<^bold>\<open>MiniMesh: a verification library of the mesh's data plane and control plane.\<close>

  MiniMesh is a service mesh in Go. A control plane keeps the endpoints of every service in etcd,
  under leases that each instance's registrar renews, and publishes them to sidecars over a gRPC
  stream. A sidecar keeps them in a discovery cache and proxies the calls of its service: it validates
  a request, limits its rate, picks an endpoint, asks the circuit breaker of that endpoint, takes a
  connection from a pool, calls the upstream, retries within a budget and counts what happened. TCP
  relays carry plain connections over mutual TLS. The theories follow these parts; every definition of
  an operation is the whole body of the Go function it names, its error returns as values of a sum
  type.

  \<^bold>\<open>The parts, their theories and what is shown.\<close>

  \<^item> \<open>Mesh_Prelude\<close>, \<open>Go_Strings\<close>, \<open>Float64\<close>, \<open>Parse_Float\<close>: Go's 64-bit integers with wrap-around, its maps
    as association lists with distinct keys, the string functions the code calls, and binary64
    arithmetic with round to nearest even over the rationals (infinities and NaN included), with the
    rounding bounds the limiters need, and \<open>strconv.ParseFloat\<close> on decimal input.

  \<^item> \<open>Discovery\<close> (\<^verbatim>\<open>internal/discovery\<close>): the cache, a map of maps guarded by a revision, and the etcd
    source with its key layout. The cache refines an abstract state (a revision and a partial map of
    endpoints); \<open>Run\<close> loses no update between full sync and watch; snapshots converge under any order
    and repetition. The locale \<open>endpoint_lister\<close> is what the load balancer relies on.

  \<^item> \<open>Load_Balance\<close>, \<open>Resolver\<close> (\<^verbatim>\<open>internal/loadbalance\<close>): round robin, smooth weighted round robin and
    least connections (its nodes in a heap, its callers interleaved), and the resolver that keeps one
    picker per service. The locale \<open>picker\<close> is interpreted on the sum of the three; the resolver is
    shown to answer only endpoints the cache lists.

  \<^item> \<open>Circuit_Breaker\<close> (\<^verbatim>\<open>internal/resilience/circuitbreaker.go\<close>): the breaker as a step relation over
    callers and outstanding permits, its invariant, the ring buffer as the list of the last outcomes
    (locale \<open>outcome_window\<close>), opening, cooldown, recovery, and independence of the breakers of a set.

  \<^item> \<open>Token_Bucket\<close>, \<open>Rate_Limit\<close> (\<^verbatim>\<open>internal/resilience/ratelimit.go\<close>) and \<open>Retry\<close> (\<^verbatim>\<open>retry.go\<close>): the
    locale \<open>token_source\<close> proves the rate bound once, for the buckets of the limiter and for the retry
    budget, with the binary64 error explicit; the rule parser; the backoff; the retry loop, whose
    contract for its callers, indexed by the attempt, is the locale \<open>retried\<close>. \<open>Metrics_Text\<close> has the
    limiter's counters in the text format of Prometheus and a reader of that format.

  \<^item> \<open>Connection_Pool\<close> (\<^verbatim>\<open>internal/connectionpool/pool.go\<close>): entries and target pools in heaps, the two
    critical sections of \<open>Acquire\<close>, release functions that act once, the reaper with its in-place
    compaction, \<open>Close\<close>. One invariant over every interleaving gives the connection cap, that no
    connection in use is closed, that each is closed exactly once, and that no wake-up is lost.

  \<^item> \<open>Proxy\<close> (\<^verbatim>\<open>internal/proxy/server.go\<close>): \<open>Invoke\<close> and \<open>invokeAttempt\<close> composed of the models above.
    The resolver, the connection provider and the gRPC call are arguments that may change all shared
    state, as concurrent requests do; a log that they cannot reach shows that each request gives back
    what it takes, and that its metrics count requests, retries and rejections exactly. \<open>retried\<close> is
    interpreted on the attempt function. \<open>Observability\<close> (\<^verbatim>\<open>internal/observability\<close>) has the instruments:
    no registration and no use of one panics.

  \<^item> \<open>Grpc_Pool\<close> (\<^verbatim>\<open>internal/proxy/connection_pool.go\<close>): pool keys, credentials and the dialer over
    \<open>Connection_Pool\<close>; a connection is reused only for the identity it was dialed with.

  \<^item> \<open>Control_Stream\<close> (\<^verbatim>\<open>internal/controlstream\<close>): server and client of the endpoint stream over
    \<open>Discovery\<close>; what is published is what is listed; reconnection and its backoff.

  \<^item> \<open>Go_Json\<close>, \<open>Etcd_Http\<close>, \<open>Etcd_Source\<close> (\<^verbatim>\<open>internal/etcdhttp\<close>, \<^verbatim>\<open>internal/discovery/etcd_source.go\<close>):
    JSON documents and the decoding of Go structs, base64, every request of the etcd client and the
    decoding of every answer, watch streams included; the range end of a prefix selects exactly the
    keys with that prefix. \<open>Etcd_Source\<close> runs full sync and watch over that client and shows that
    \<open>Discovery\<close>'s completeness carries over to the HTTP traffic.

  \<^item> \<open>Registry\<close> (\<^verbatim>\<open>internal/registry\<close>): the etcd store and the HTTP API over it. What the store relies on
    is the contract \<open>etcd_serves\<close>, with a small etcd that meets it; a lease whose key could not be written
    is revoked, what is registered is listed and deregistration removes it, and every API answer has
    a status and body of its handler.

  \<^item> \<open>Registration\<close> (\<^verbatim>\<open>internal/registration\<close>): the registrar's loop as a step machine over the answers of
    the registry and the instants its context ends. It heartbeats and deregisters only the lease it
    holds, returns within bounded work once its context is done, and its requests are the ones
    \<open>Registry\<close>'s API accepts.

  \<^item> \<open>Mesh_Security\<close>, \<open>Tcp_Relay\<close> (\<^verbatim>\<open>internal/meshsecurity\<close>, \<^verbatim>\<open>internal/transparentproxy\<close>): SPIFFE
    identities, the checks of the TLS configurations, the relays and the original destination of a
    redirected socket. Identities keep services apart; a relay dials its target only for an
    authenticated peer with a permitted identity, and closes every connection it holds. The locale
    \<open>connection_handler\<close> is interpreted on the ingress relay and the transparent proxy.

  \<^item> \<open>Sidecar\<close>, \<open>Sidecar_Run\<close>, \<open>Control_Plane\<close> (\<^verbatim>\<open>cmd/sidecar\<close>, \<^verbatim>\<open>cmd/control-plane\<close>): flags to configuration
    and their defaults, the order of start-up and its errors, readiness, retryable codes, and both
    shutdowns. The sidecar's is a step relation of the main goroutine, the closing goroutine and the RPCs
    over the pool's events: the pool outlives every RPC.

  \<^item> \<open>Mesh_Path\<close> composes the control plane and the data plane: from any history of registry calls and
    lease expiries through etcd, the control stream and the cache to the picks of a sidecar.

  \<^item> \<open>Fault_Injection\<close>, \<open>Load_Clients\<close>, \<open>Example_Backend\<close>, \<open>Inventory\<close> (\<^verbatim>\<open>examples/go\<close>,
    \<^verbatim>\<open>internal/examplebackend\<close>): the faulty server, whose failures are evenly spread; the clients, whose
    worker pools share the locale \<open>job_tally\<close> and account for every request under every schedule; the echo
    service with Go's duration syntax; and the inventory service, which answers the same directly and
    through its sidecar.

  \<^bold>\<open>Conventions and bounds.\<close> A function that holds a mutex for its whole body is one function on the
  state; a function that releases it is split there, and interleavings are event sequences or step
  relations with a reachability predicate. Clocks are arguments: an instant is a number of nanoseconds
  and \<open>Time.Sub\<close> saturates. A context is the instant it is done and its error. The iteration order of a
  Go map is either an argument or the order of the association list; results that must not depend on
  it are proved so. No model uses fuel: every loop is structural or has a termination proof, and what
  can block (a receive, a wait) is a value of the result. Counters of entries and callers are natural
  numbers, since they cannot reach \<^term>\<open>2 ^ 63 :: int\<close> in memory; where a counter can wrap (tickets,
  generations, weights, totals) the wrap-around is modelled. JSON is a tree of
  values: its text form, \<open>grpc.DialContext\<close>, the upstream call, HTTP transport, certificate parsing and
  the TLS handshake, sockets and the tracing propagator are arguments.

  \<^bold>\<open>Findings\<close> are theorems too: \<open>slash_deletion_lost\<close>, \<open>nan_rate_blocks\<close>, \<open>fingerprint_collision\<close>,
  \<open>late_dial_closes_nil_pointer\<close>, \<open>registry_key_collision\<close>, \<open>keep_alive_ignores_ttl\<close>, \<open>lost_lease_unnoticed\<close>,
  \<open>trailing_slash_not_trimmed\<close>, \<open>spiffe_id_alias\<close>, \<open>prometheus_text_scraped\<close> (labels are escaped twice),
  \<open>shutdown_cut_short\<close> and \<open>drain_window_lost\<close> (neither main function waits for its shutdown goroutine)
  and \<open>load_accounts\<close> (a load client without workers blocks).

  \<^bold>\<open>Not modelled.\<close> Spans and log lines, which no operation reads back; the parsing of flags, the HTTP
  server behind the metrics listener and the profiling handlers, which are library code; build
  information, a constant; the generated code under \<^verbatim>\<open>api/gen\<close>; and the stub of the original destination
  for systems other than Linux, which only returns an error.
\<close>

end
